(* ===== verification/Prelude.thy ===== *)
theory Prelude
  imports Complex_Main "HOL-Library.Word"
begin

text \<open>
  Shared vocabulary of the development: the byte and integer types of the C
  program, memory copies and the little-endian layout of integers in memory,
  run-time faults, the result type of stateful code with its sequencing, and
  the generic lemmas and theorem collections the component theories use.
\<close>

unbundle bit_operations_syntax

section \<open>Theorem collections\<close>

named_theorems layout_simps \<open>lengths and positions of bytes in buffers\<close>
named_theorems frame_simps \<open>fields of the state an operation leaves alone\<close>

section \<open>Integer types\<close>

type_synonym byte = "8 word"
type_synonym u16 = "16 word"
type_synonym u32 = "32 word"

text \<open>
  A C \<open>int\<close> is an \<open>int\<close> in the 32-bit range. \<open>s32\<close> is the
  value a 32-bit two's complement register holds after an addition or a
  conversion from an unsigned value; \<open>cmod\<close> is the C remainder, which takes
  the sign of its first operand.
\<close>

definition s32 :: "int \<Rightarrow> int" where
  "s32 x = sint (word_of_int x :: u32)"

definition int_range :: "int \<Rightarrow> bool" where
  "int_range x \<longleftrightarrow> - 2147483648 \<le> x \<and> x < 2147483648"

definition cmod :: "int \<Rightarrow> int \<Rightarrow> int" where
  "cmod a b = sgn a * (\<bar>a\<bar> mod \<bar>b\<bar>)"

lemma s32_id [simp]: "int_range x \<Longrightarrow> s32 x = x"
  unfolding s32_def int_range_def
  by (simp add: signed_of_int signed_take_bit_int_eq_self)

lemma int_range_s32 [simp]: "int_range (s32 x)"
  using sint_ge [of "word_of_int x :: u32"] sint_lt [of "word_of_int x :: u32"]
  by (simp add: s32_def int_range_def)

lemma cmod_nonneg: "0 \<le> a \<Longrightarrow> 0 < b \<Longrightarrow> cmod a b = a mod b"
  by (cases "a = 0") (auto simp: cmod_def)

lemma cmod_bounds: "0 \<le> a \<Longrightarrow> 0 < b \<Longrightarrow> 0 \<le> cmod a b \<and> cmod a b < b"
  by (simp add: cmod_nonneg)

section \<open>Memory: copies and integers in memory\<close>

text \<open>
  \<open>memcpy_at dst off src\<close> is \<open>memcpy(dst + off, src, n)\<close> for
  the \<open>n\<close> bytes of \<open>src\<close>.
\<close>

definition memcpy_at :: "byte list \<Rightarrow> nat \<Rightarrow> byte list \<Rightarrow> byte list" where
  "memcpy_at dst off src = take off dst @ src @ drop (off + length src) dst"

lemma length_memcpy_at [layout_simps, simp]:
  "off + length src \<le> length dst \<Longrightarrow> length (memcpy_at dst off src) = length dst"
  by (simp add: memcpy_at_def)

lemma nth_memcpy_at:
  assumes "off + length src \<le> length dst" "i < length dst"
  shows "memcpy_at dst off src ! i =
    (if off \<le> i \<and> i < off + length src then src ! (i - off) else dst ! i)"
  using assms by (auto simp: memcpy_at_def nth_append)

text \<open>The in-memory bytes of 16-bit and 32-bit unsigned integers on the little-endian host.\<close>

definition bytes16 :: "u16 \<Rightarrow> byte list" where
  "bytes16 x = [ucast x, ucast (drop_bit 8 x)]"

definition bytes32 :: "u32 \<Rightarrow> byte list" where
  "bytes32 x = [ucast x, ucast (drop_bit 8 x), ucast (drop_bit 16 x), ucast (drop_bit 24 x)]"

definition load16 :: "byte list \<Rightarrow> nat \<Rightarrow> u16" where
  "load16 m i = ucast (m ! i) OR push_bit 8 (ucast (m ! (i + 1)))"

definition load32 :: "byte list \<Rightarrow> nat \<Rightarrow> u32" where
  "load32 m i = ucast (m ! i) OR push_bit 8 (ucast (m ! (i + 1)))
     OR push_bit 16 (ucast (m ! (i + 2))) OR push_bit 24 (ucast (m ! (i + 3)))"

text \<open>
  \<open>htons\<close>, \<open>htonl\<close> and their inverses swap the bytes.
\<close>

definition htons :: "u16 \<Rightarrow> u16" where
  "htons x = load16 (rev (bytes16 x)) 0"

definition ntohs :: "u16 \<Rightarrow> u16" where
  "ntohs x = htons x"

definition htonl :: "u32 \<Rightarrow> u32" where
  "htonl x = load32 (rev (bytes32 x)) 0"

definition ntohl :: "u32 \<Rightarrow> u32" where
  "ntohl x = htonl x"

lemma length_bytes16 [simp, layout_simps]: "length (bytes16 x) = 2"
  by (simp add: bytes16_def)

lemma length_bytes32 [simp, layout_simps]: "length (bytes32 x) = 4"
  by (simp add: bytes32_def)

lemma bit_load16:
  "bit (load16 m i) n \<longleftrightarrow> (if n < 8 then bit (m ! i) n
     else n < 16 \<and> bit (m ! (i + 1)) (n - 8))"
  by (auto simp: load16_def bit_simps dest: bit_imp_le_length)

lemma bit_load32:
  "bit (load32 m i) n \<longleftrightarrow> (if n < 8 then bit (m ! i) n
     else if n < 16 then bit (m ! (i + 1)) (n - 8)
     else if n < 24 then bit (m ! (i + 2)) (n - 16)
     else n < 32 \<and> bit (m ! (i + 3)) (n - 24))"
  by (auto simp: load32_def bit_simps dest: bit_imp_le_length)

lemma load16_bytes16 [simp]: "load16 (bytes16 x @ r) 0 = x"
  by (rule bit_word_eqI) (auto simp: bit_load16 bytes16_def bit_simps)

lemma load32_bytes32 [simp]: "load32 (bytes32 x @ r) 0 = x"
  by (rule bit_word_eqI) (auto simp: bit_load32 bytes32_def bit_simps)

lemma load16_bytes16_only [simp]: "load16 (bytes16 x) 0 = x"
  using load16_bytes16 [of x "[]"] by simp

lemma load32_bytes32_only [simp]: "load32 (bytes32 x) 0 = x"
  using load32_bytes32 [of x "[]"] by simp

text \<open>Loads behind a known prefix.\<close>

lemma load16_skip: "length xs = n \<Longrightarrow> load16 (xs @ ys) n = load16 ys 0"
  by (auto simp: load16_def nth_append)

lemma load32_skip: "length xs = n \<Longrightarrow> load32 (xs @ ys) n = load32 ys 0"
  by (auto simp: load32_def nth_append numeral_2_eq_2)

lemma bytes16_load16: "bytes16 (load16 [a, b] 0) = [a, b]"
  by (auto simp: bytes16_def bit_load16 bit_simps intro!: bit_word_eqI)

lemma bytes32_load32: "bytes32 (load32 [a, b, c, d] 0) = [a, b, c, d]"
  by (auto simp: bytes32_def bit_load32 bit_simps intro!: bit_word_eqI)

lemma ntohs_htons [simp]: "ntohs (htons x) = x"
proof -
  have "bytes16 (htons x) = rev (bytes16 x)"
    by (simp add: htons_def bytes16_def [of x] bytes16_load16)
  then show ?thesis by (simp add: ntohs_def htons_def [of "htons x"])
qed

lemma htons_ntohs [simp]: "htons (ntohs x) = x"
  by (metis ntohs_def ntohs_htons)

lemma ntohl_htonl [simp]: "ntohl (htonl x) = x"
proof -
  have "bytes32 (htonl x) = rev (bytes32 x)"
    by (simp add: htonl_def bytes32_def [of x] bytes32_load32)
  then show ?thesis by (simp add: ntohl_def htonl_def [of "htonl x"])
qed

text \<open>The value of a 16-bit load, as the checksum sums it.\<close>

lemma uint_load16: "uint (load16 m i) = uint (m ! i) + 256 * uint (m ! (i + 1))"
proof -
  have disj: "(ucast (m ! i) :: u16) AND push_bit 8 (ucast (m ! (i + 1))) = 0"
    by (rule bit_word_eqI) (auto simp: bit_simps dest: bit_imp_le_length)
  have b: "uint (m ! i) < 256" "uint (m ! (i + 1)) < 256"
    using uint_lt2p [of "m ! i"] uint_lt2p [of "m ! (i + 1)"] by simp_all
  have "uint (load16 m i) = uint (ucast (m ! i) + push_bit 8 (ucast (m ! (i + 1))) :: u16)"
    unfolding load16_def using disj by (simp add: disjunctive_add_eq_or)
  also have "\<dots> = uint (m ! i) + 256 * uint (m ! (i + 1))"
    using b by (simp add: uint_word_ariths push_bit_eq_mult unsigned_ucast_eq take_bit_eq_mod)
  finally show ?thesis .
qed

section \<open>Faults, exits and the result of stateful code\<close>

text \<open>
  A \<open>fault\<close> is a point where the C program has no defined behaviour or is
  killed by the system: a NULL pointer is dereferenced, memory is accessed outside
  an object, or an integer is divided by zero. Code without other effects returns
  \<open>fault + 'a\<close>.
\<close>

datatype fault = NullDeref | OutOfBounds | DivByZero

definition check :: "bool \<Rightarrow> fault \<Rightarrow> fault + unit" where
  "check b f = (if b then Inr () else Inl f)"

fun sbind :: "'e + 'a \<Rightarrow> ('a \<Rightarrow> 'e + 'b) \<Rightarrow> 'e + 'b" where
  "sbind (Inl e) f = Inl e"
| "sbind (Inr a) f = f a"

lemma sbind_Inr_iff: "sbind m f = Inr b \<longleftrightarrow> (\<exists>a. m = Inr a \<and> f a = Inr b)"
  by (cases m) auto

lemma sbind_cong [fundef_cong]:
  "m = m' \<Longrightarrow> (\<And>a. m' = Inr a \<Longrightarrow> f a = f' a) \<Longrightarrow> sbind m f = sbind m' f'"
  by (cases m') auto

text \<open>Array access through an index and access through a pointer that may be NULL.\<close>

definition slot :: "'a list \<Rightarrow> int \<Rightarrow> fault + 'a" where
  "slot xs i = (if 0 \<le> i \<and> i < int (length xs) then Inr (xs ! nat i) else Inl OutOfBounds)"

fun deref :: "'a option \<Rightarrow> fault + 'a" where
  "deref None = Inl NullDeref"
| "deref (Some p) = Inr p"

lemma slot_Inr_iff: "slot xs i = Inr p \<longleftrightarrow> 0 \<le> i \<and> i < int (length xs) \<and> p = xs ! nat i"
  by (auto simp: slot_def)

text \<open>
  Code with effects runs on a state \<open>'w\<close>: it returns a value and the next
  state, or the process stops: by \<open>exit\<close>, by a fault, or because it is
  blocked in a system call that the environment never completes.
\<close>

datatype stop = Exited int | Faulted fault | Blocked

datatype ('w, 'a) res = Ok 'a 'w | Stop stop 'w

fun bnd :: "('w, 'a) res \<Rightarrow> ('a \<Rightarrow> 'w \<Rightarrow> ('w, 'b) res) \<Rightarrow> ('w, 'b) res" where
  "bnd (Ok a w) f = f a w"
| "bnd (Stop r w) f = Stop r w"

lemma bnd_cong [fundef_cong]:
  "m = m' \<Longrightarrow> (\<And>a w. m' = Ok a w \<Longrightarrow> f a w = f' a w) \<Longrightarrow> bnd m f = bnd m' f'"
  by (cases m') auto

lemma case_prod_apply_cong [fundef_cong]:
  "p = q \<Longrightarrow> (\<And>a b. q = (a, b) \<Longrightarrow> f a b w = g a b w) \<Longrightarrow> case_prod f p w = case_prod g q w"
  by (cases q) auto

lemma bnd_Ok_iff: "bnd m f = Ok b w' \<longleftrightarrow> (\<exists>a w. m = Ok a w \<and> f a w = Ok b w')"
  by (cases m) auto

lemma bnd_Stop_iff:
  "bnd m f = Stop r w' \<longleftrightarrow> m = Stop r w' \<or> (\<exists>a w. m = Ok a w \<and> f a w = Stop r w')"
  by (cases m) auto

lemma bnd_Ok_E:
  assumes "bnd m f = Ok b w'"
  obtains a w where "m = Ok a w" "f a w = Ok b w'"
  using assms by (cases m) auto

lemma bnd_assoc: "bnd (bnd m f) g = bnd m (\<lambda>a w. bnd (f a w) g)"
  by (cases m) auto

fun lift :: "fault + 'a \<Rightarrow> 'w \<Rightarrow> ('w, 'a) res" where
  "lift (Inl f) w = Stop (Faulted f) w"
| "lift (Inr a) w = Ok a w"

lemma lift_Ok_iff: "lift m w = Ok a w' \<longleftrightarrow> m = Inr a \<and> w' = w"
  by (cases m) auto

lemma lift_Stop_iff: "lift m w = Stop r w' \<longleftrightarrow> (\<exists>e. m = Inl e \<and> r = Faulted e) \<and> w' = w"
  by (cases m) auto

text \<open>The state in which a run ends, whether it returned or stopped.\<close>

fun final :: "('w, 'a) res \<Rightarrow> 'w" where
  "final (Ok a w) = w"
| "final (Stop r w) = w"

text \<open>
  Assertions about a run: \<open>Q\<close> holds of the value and the state when it returns,
  \<open>S\<close> of the state when it stops.
\<close>

fun post :: "('w, 'a) res \<Rightarrow> ('a \<Rightarrow> 'w \<Rightarrow> bool) \<Rightarrow> ('w \<Rightarrow> bool) \<Rightarrow> bool" where
  "post (Ok a w) Q S \<longleftrightarrow> Q a w"
| "post (Stop r w) Q S \<longleftrightarrow> S w"

lemma post_bnd_iff: "post (bnd m f) Q S \<longleftrightarrow> post m (\<lambda>a w. post (f a w) Q S) S"
  by (cases m) simp_all

lemma post_mono:
  assumes "post m Q S" "\<And>a w. m = Ok a w \<Longrightarrow> Q a w \<Longrightarrow> Q' a w" "\<And>w. S w \<Longrightarrow> S' w"
  shows "post m Q' S'"
  using assms by (cases m) auto

lemma post_bnd:
  assumes "post m Q S" "\<And>a w. m = Ok a w \<Longrightarrow> Q a w \<Longrightarrow> post (f a w) Q' S"
  shows "post (bnd m f) Q' S"
  using assms by (cases m) auto

lemma post_lift: "(\<And>a. m = Inr a \<Longrightarrow> Q a w) \<Longrightarrow> S w \<Longrightarrow> post (lift m w) Q S"
  by (cases m) auto

lemma post_final: "post m (\<lambda>_. S) S \<longleftrightarrow> S (final m)"
  by (cases m) auto

lemma final_bnd:
  assumes "R w (final m)" "\<And>a w'. m = Ok a w' \<Longrightarrow> R w w' \<Longrightarrow> R w (final (f a w'))"
  shows "R w (final (bnd m f))"
  using assms by (cases m) auto

end
