(* ===== verification/PollLib.thy ===== *)
theory PollLib
  imports Prelude
begin

text \<open>
  The poll set of \<^verbatim>\<open>pollLib.c\<close>: a growing array of \<open>struct pollfd\<close>
  indexed by the socket number, and \<open>pollCall\<close>, which returns the lowest ready
  index or -1. What \<open>poll(2)\<close>, \<open>calloc\<close> and \<open>realloc\<close> return is a
  parameter of the operations.
\<close>

section \<open>State and operations\<close>

record pollfd =
  fd :: int
  events :: int
  revents :: int

record pollset =
  pollFileDescriptors :: "pollfd list"
  maxFileDescriptor :: int
  currentPollSetSize :: int

definition POLL_SET_SIZE :: int where "POLL_SET_SIZE = 10"
definition POLLIN :: int where "POLLIN = 1"

definition empty_pollset :: pollset where
  "empty_pollset = \<lparr>pollFileDescriptors = [], maxFileDescriptor = 0, currentPollSetSize = 0\<rparr>"

definition setupPollSet :: "bool \<Rightarrow> pollset \<Rightarrow> (pollset, unit) res" where
  "setupPollSet calloc_ok ps =
     (let ps = ps\<lparr>currentPollSetSize := POLL_SET_SIZE\<rparr> in
      if calloc_ok
      then Ok () (ps\<lparr>pollFileDescriptors :=
                       replicate (nat POLL_SET_SIZE) \<lparr>fd = 0, events = 0, revents = 0\<rparr>\<rparr>)
      else Stop (Exited (- 1)) ps)"

text \<open>
  \<open>m\<close> is the result of \<open>realloc\<close>: NULL, or the bytes behind the copied
  part. The loop zeroes \<open>fd\<close> and \<open>events\<close> of the new elements, not
  \<open>revents\<close>.
\<close>

definition grown_pollfd :: "(nat \<Rightarrow> byte) \<Rightarrow> nat \<Rightarrow> pollfd" where
  "grown_pollfd g i = \<lparr>fd = 0, events = 0, revents = sint (load16 [g (8 * i + 6), g (8 * i + 7)] 0)\<rparr>"

definition growPollSet :: "(nat \<Rightarrow> byte) option \<Rightarrow> int \<Rightarrow> pollset \<Rightarrow> (pollset, unit) res" where
  "growPollSet m newSetSize ps =
     (if newSetSize \<le> currentPollSetSize ps then Stop (Exited (- 1)) ps
      else case m of None \<Rightarrow> Stop (Exited (- 1)) ps
      | Some g \<Rightarrow>
          Ok () (ps\<lparr>pollFileDescriptors := pollFileDescriptors ps
                     @ map (grown_pollfd g) [nat (currentPollSetSize ps)..<nat newSetSize],
                   currentPollSetSize := newSetSize\<rparr>))"

definition set_pollfd :: "int \<Rightarrow> int \<Rightarrow> int \<Rightarrow> pollset \<Rightarrow> (pollset, unit) res" where
  "set_pollfd i f ev ps =
     (if 0 \<le> i \<and> i < int (length (pollFileDescriptors ps))
      then Ok () (ps\<lparr>pollFileDescriptors := (pollFileDescriptors ps)
             [nat i := (pollFileDescriptors ps ! nat i)\<lparr>fd := f, events := ev\<rparr>]\<rparr>)
      else Stop (Faulted OutOfBounds) ps)"

definition addToPollSet :: "(nat \<Rightarrow> byte) option \<Rightarrow> int \<Rightarrow> pollset \<Rightarrow> (pollset, unit) res" where
  "addToPollSet m socketNumber ps =
     bnd (if socketNumber \<ge> currentPollSetSize ps
          then growPollSet m (s32 (socketNumber + POLL_SET_SIZE)) ps else Ok () ps) (\<lambda>_ ps.
       let ps = (if s32 (socketNumber + 1) \<ge> maxFileDescriptor ps
                 then ps\<lparr>maxFileDescriptor := s32 (socketNumber + 1)\<rparr> else ps)
       in set_pollfd socketNumber socketNumber POLLIN ps)"

definition removeFromPollSet :: "int \<Rightarrow> pollset \<Rightarrow> (pollset, unit) res" where
  "removeFromPollSet socketNumber ps = set_pollfd socketNumber 0 0 ps"

text \<open>
  \<open>poll(2)\<close> returns a count and writes \<open>revents\<close> of the first
  \<open>maxFileDescriptor\<close> elements; \<open>revs\<close> lists the written values.
\<close>

definition poll_writes :: "int list \<Rightarrow> pollset \<Rightarrow> pollset" where
  "poll_writes revs ps =
     ps\<lparr>pollFileDescriptors :=
       map (\<lambda>(i, p). if i < nat (maxFileDescriptor ps) \<and> i < length revs
                     then p\<lparr>revents := revs ! i\<rparr> else p)
           (enumerate 0 (pollFileDescriptors ps))\<rparr>"

fun first_ready :: "pollfd list \<Rightarrow> int \<Rightarrow> int" where
  "first_ready [] i = - 1"
| "first_ready (p # ps) i = (if revents p > 0 then i else first_ready ps (i + 1))"

definition pollCall :: "int \<times> int list \<Rightarrow> pollset \<Rightarrow> (pollset, int) res" where
  "pollCall answer ps =
     (let (pollValue, revs) = answer; ps = poll_writes revs ps in
      if pollValue < 0 then Stop (Exited (- 1)) ps
      else if pollValue > 0
      then Ok (first_ready (take (nat (maxFileDescriptor ps)) (pollFileDescriptors ps)) 0) ps
      else Ok (- 1) ps)"

section \<open>Invariant\<close>

definition ps_ok :: "pollset \<Rightarrow> bool" where
  "ps_ok ps \<longleftrightarrow> int (length (pollFileDescriptors ps)) = currentPollSetSize ps
     \<and> 0 \<le> maxFileDescriptor ps \<and> maxFileDescriptor ps \<le> currentPollSetSize ps
     \<and> currentPollSetSize ps < 2147483648"

definition registered :: "pollset \<Rightarrow> int \<Rightarrow> bool" where
  "registered ps s \<longleftrightarrow> 0 \<le> s \<and> s < maxFileDescriptor ps
     \<and> fd (pollFileDescriptors ps ! nat s) = s \<and> events (pollFileDescriptors ps ! nat s) = POLLIN"

lemma setupPollSet_ok: "setupPollSet True empty_pollset = Ok () ps \<Longrightarrow> ps_ok ps"
  by (auto simp: setupPollSet_def empty_pollset_def ps_ok_def POLL_SET_SIZE_def Let_def)

lemma set_pollfd_ok: "ps_ok ps \<Longrightarrow> set_pollfd i f ev ps = Ok () ps' \<Longrightarrow> ps_ok ps'"
  by (auto simp: set_pollfd_def ps_ok_def split: if_splits)

lemma set_pollfd_total:
  "ps_ok ps \<Longrightarrow> 0 \<le> i \<Longrightarrow> i < currentPollSetSize ps \<Longrightarrow> \<exists>ps'. set_pollfd i f ev ps = Ok () ps'"
  by (simp add: set_pollfd_def ps_ok_def)

lemma growPollSet_ok:
  assumes "ps_ok ps" "currentPollSetSize ps < n" "n < 2147483648"
  shows "\<exists>ps'. growPollSet (Some g) n ps = Ok () ps' \<and> ps_ok ps' \<and> currentPollSetSize ps' = n
     \<and> maxFileDescriptor ps' = maxFileDescriptor ps
     \<and> take (nat (currentPollSetSize ps)) (pollFileDescriptors ps') = pollFileDescriptors ps"
  using assms by (auto simp: growPollSet_def ps_ok_def)

text \<open>
  Adding a socket keeps the invariant, registers the socket for input and leaves every
  other element that existed before unchanged.
\<close>

lemma addToPollSet_ok:
  assumes "ps_ok ps" "0 \<le> s" "s + POLL_SET_SIZE < 2147483648"
  shows "\<exists>ps'. addToPollSet (Some g) s ps = Ok () ps' \<and> ps_ok ps' \<and> registered ps' s
     \<and> (\<forall>i < length (pollFileDescriptors ps). i \<noteq> nat s \<longrightarrow>
          pollFileDescriptors ps' ! i = pollFileDescriptors ps ! i)"
proof -
  have r: "s32 (s + POLL_SET_SIZE) = s + POLL_SET_SIZE" "s32 (s + 1) = s + 1"
    using assms(2,3) by (auto simp: int_range_def POLL_SET_SIZE_def)
  have n: "nat (currentPollSetSize ps) = length (pollFileDescriptors ps)"
    using assms(1) unfolding ps_ok_def by (metis nat_int)
  obtain ps1 where ps1: "(if s \<ge> currentPollSetSize ps
      then growPollSet (Some g) (s + POLL_SET_SIZE) ps else Ok () ps) = Ok () ps1"
    "ps_ok ps1" "s < currentPollSetSize ps1"
    "take (length (pollFileDescriptors ps)) (pollFileDescriptors ps1) = pollFileDescriptors ps"
  proof (cases "s \<ge> currentPollSetSize ps")
    case True
    then have "currentPollSetSize ps < s + POLL_SET_SIZE" by (simp add: POLL_SET_SIZE_def)
    then show ?thesis
      using growPollSet_ok [OF assms(1) _ assms(3), of g] True that assms(1)
      by (auto simp: POLL_SET_SIZE_def n)
  next
    case False
    then show ?thesis using that assms(1) by simp
  qed
  have len: "s < int (length (pollFileDescriptors ps1))" using ps1(2,3) by (simp add: ps_ok_def)
  have old: "pollFileDescriptors ps1 ! i = pollFileDescriptors ps ! i"
    if "i < length (pollFileDescriptors ps)" for i
    using ps1(4) that by (metis nth_take)
  show ?thesis
    using assms(2) r ps1(1,2,3) len old
      assms(1)
    by (auto simp: addToPollSet_def set_pollfd_def ps_ok_def registered_def Let_def)
qed

section \<open>pollCall\<close>

lemma first_ready_range:
  "first_ready ps i = - 1 \<and> (\<forall>p \<in> set ps. \<not> revents p > 0) \<or>
   (\<exists>k < length ps. first_ready ps i = i + int k \<and> revents (ps ! k) > 0
      \<and> (\<forall>j < k. \<not> revents (ps ! j) > 0))"
proof (induction ps i rule: first_ready.induct)
  case (2 p ps i)
  show ?case
  proof (cases "revents p > 0")
    case True
    then show ?thesis by (intro disjI2 exI [of _ 0]) simp
  next
    case False
    from 2 [OF False] show ?thesis
    proof
      assume "\<exists>k < length ps. first_ready ps (i + 1) = i + 1 + int k \<and> revents (ps ! k) > 0
        \<and> (\<forall>j < k. \<not> revents (ps ! j) > 0)"
      then obtain k where "k < length ps" "first_ready ps (i + 1) = i + 1 + int k"
        "revents (ps ! k) > 0" "\<forall>j < k. \<not> revents (ps ! j) > 0" by blast
      with False show ?thesis
        by (intro disjI2 exI [of _ "Suc k"]) (auto simp: less_Suc_eq_0_disj)
    qed (use False in auto)
  qed
qed simp

lemma pollCall_keeps_ok: "ps_ok ps \<Longrightarrow> pollCall a ps = Ok r ps' \<Longrightarrow> ps_ok ps'"
  by (auto simp: pollCall_def poll_writes_def ps_ok_def Let_def split: prod.splits if_splits)

lemma pollCall_range:
  assumes "ps_ok ps" "pollCall a ps = Ok r ps'"
  shows "- 1 \<le> r \<and> r < maxFileDescriptor ps"
proof -
  obtain v revs where a: "a = (v, revs)" by (cases a)
  let ?ps = "poll_writes revs ps"
  let ?l = "take (nat (maxFileDescriptor ?ps)) (pollFileDescriptors ?ps)"
  have m: "maxFileDescriptor ?ps = maxFileDescriptor ps" by (simp add: poll_writes_def)
  have "r = - 1 \<or> r = first_ready ?l 0"
    using assms(2) by (auto simp: a pollCall_def Let_def split: if_splits)
  moreover have "0 \<le> maxFileDescriptor ps" using assms(1) by (simp add: ps_ok_def)
  ultimately show ?thesis using first_ready_range [of ?l 0] m by fastforce
qed

section \<open>A poll set is a set of sockets\<close>

text \<open>
  The poll sets a program can build, with the set of sockets it has added and not
  removed: \<open>setupPollSet\<close> once, then any sequence of the other operations.
\<close>

inductive poll_state :: "int set \<Rightarrow> pollset \<Rightarrow> bool" where
  setup_state: "setupPollSet True empty_pollset = Ok () ps \<Longrightarrow> poll_state {} ps"
| added: "poll_state S ps \<Longrightarrow> 0 \<le> s \<Longrightarrow> s + POLL_SET_SIZE < 2147483648 \<Longrightarrow>
     addToPollSet (Some g) s ps = Ok () ps' \<Longrightarrow> poll_state (insert s S) ps'"
| removed: "poll_state S ps \<Longrightarrow> removeFromPollSet s ps = Ok () ps' \<Longrightarrow> poll_state (S - {s}) ps'"
| polled: "poll_state S ps \<Longrightarrow> pollCall a ps = Ok r ps' \<Longrightarrow> poll_state S ps'"

text \<open>
  The invariant: the array is consistent, every added socket is inside the part that
  \<open>poll\<close> looks at and stands at its own index, and no other element asks for events.
\<close>

definition ps_holds :: "int set \<Rightarrow> pollset \<Rightarrow> bool" where
  "ps_holds S ps \<longleftrightarrow> ps_ok ps \<and> (\<forall>s \<in> S. registered ps s)
     \<and> (\<forall>i < length (pollFileDescriptors ps). int i \<notin> S \<longrightarrow> events (pollFileDescriptors ps ! i) = 0)"

lemma length_poll_writes [simp]:
  "length (pollFileDescriptors (poll_writes revs ps)) = length (pollFileDescriptors ps)"
  by (simp add: poll_writes_def)

lemma poll_writes_nth [simp]:
  assumes "i < length (pollFileDescriptors ps)"
  shows "fd (pollFileDescriptors (poll_writes revs ps) ! i) = fd (pollFileDescriptors ps ! i)"
    "events (pollFileDescriptors (poll_writes revs ps) ! i) = events (pollFileDescriptors ps ! i)"
    "revents (pollFileDescriptors (poll_writes revs ps) ! i) =
      (if i < nat (maxFileDescriptor ps) \<and> i < length revs then revs ! i else revents (pollFileDescriptors ps ! i))"
  using assms by (simp_all add: poll_writes_def nth_enumerate_eq)

lemma pollCall_state: "pollCall (n, revs) ps = Ok r ps' \<Longrightarrow> ps' = poll_writes revs ps"
  by (auto simp: pollCall_def Let_def split: if_splits)

lemma ps_holds_pollCall:
  assumes "ps_holds S ps" "pollCall a ps = Ok r ps'"
  shows "ps_holds S ps'"
proof -
  obtain n revs where "a = (n, revs)" by (cases a)
  with assms(2) have ps': "ps' = poll_writes revs ps" by (simp add: pollCall_state)
  have ok: "ps_ok ps" "ps_ok ps'"
    using assms(1) pollCall_keeps_ok [OF _ assms(2)] by (auto simp: ps_holds_def)
  have "maxFileDescriptor ps' = maxFileDescriptor ps" by (simp add: ps' poll_writes_def)
  moreover have "nat s < length (pollFileDescriptors ps)" if "registered ps s" for s
    using that ok(1) by (auto simp: registered_def ps_ok_def)
  ultimately show ?thesis
    using assms(1) ok(2) by (auto simp: ps_holds_def ps' registered_def)
qed

lemma ps_holds_set_pollfd:
  assumes "ps_holds S ps" "removeFromPollSet s ps = Ok () ps'"
  shows "ps_holds (S - {s}) ps'"
proof -
  have i: "0 \<le> s" "nat s < length (pollFileDescriptors ps)"
    and ps': "ps' = ps\<lparr>pollFileDescriptors := (pollFileDescriptors ps)
             [nat s := (pollFileDescriptors ps ! nat s)\<lparr>fd := 0, events := 0\<rparr>]\<rparr>"
    using assms(2) by (auto simp: removeFromPollSet_def set_pollfd_def split: if_splits)
  have ok: "ps_ok ps'"
    using assms by (auto simp: ps_holds_def removeFromPollSet_def intro: set_pollfd_ok)
  have "nat t \<noteq> nat s" if "t \<noteq> s" "registered ps t" for t
    using that i(1) by (auto simp: registered_def)
  then show ?thesis
    using assms(1) i ok by (auto simp: ps_holds_def ps' registered_def nth_list_update)
qed

lemma addToPollSet_fields:
  assumes "addToPollSet (Some g) s ps = Ok () ps'" "ps_ok ps" "0 \<le> s" "s + POLL_SET_SIZE < 2147483648"
    "length (pollFileDescriptors ps) \<le> i" "i < length (pollFileDescriptors ps')" "i \<noteq> nat s"
  shows "events (pollFileDescriptors ps' ! i) = 0"
proof -
  have r: "s32 (s + POLL_SET_SIZE) = s + POLL_SET_SIZE"
    using assms(3,4) by (auto simp: int_range_def POLL_SET_SIZE_def)
  have n: "nat (currentPollSetSize ps) = length (pollFileDescriptors ps)"
    using assms(2) unfolding ps_ok_def by (metis nat_int)
  show ?thesis
  proof (cases "s \<ge> currentPollSetSize ps")
    case True
    then have "pollFileDescriptors ps' = (pollFileDescriptors ps @ map (grown_pollfd g)
        [nat (currentPollSetSize ps)..<nat (s + POLL_SET_SIZE)])[nat s :=
          ((pollFileDescriptors ps @ map (grown_pollfd g)
            [nat (currentPollSetSize ps)..<nat (s + POLL_SET_SIZE)]) ! nat s)\<lparr>fd := s, events := POLLIN\<rparr>]"
      using assms(1) r by (auto simp: addToPollSet_def growPollSet_def set_pollfd_def Let_def split: if_splits)
    then show ?thesis
      using assms(5-7) n by (auto simp: nth_append grown_pollfd_def)
  next
    case False
    then show ?thesis
      using assms(1,5,6) by (auto simp: addToPollSet_def set_pollfd_def Let_def split: if_splits)
  qed
qed

lemma ps_holds_addToPollSet:
  assumes "ps_holds S ps" "0 \<le> s" "s + POLL_SET_SIZE < 2147483648"
    "addToPollSet (Some g) s ps = Ok () ps'"
  shows "ps_holds (insert s S) ps'"
proof -
  have ok: "ps_ok ps" using assms(1) by (simp add: ps_holds_def)
  have a: "ps_ok ps'" "registered ps' s"
    "\<And>i. i < length (pollFileDescriptors ps) \<Longrightarrow> i \<noteq> nat s \<Longrightarrow>
        pollFileDescriptors ps' ! i = pollFileDescriptors ps ! i"
    using addToPollSet_ok [OF ok assms(2,3), of g] assms(4) by auto
  have m: "maxFileDescriptor ps \<le> maxFileDescriptor ps'"
  proof -
    have "s32 (s + 1) = s + 1"
      using assms(2,3) by (auto simp: int_range_def POLL_SET_SIZE_def)
    then show ?thesis
      using assms(4) by (auto simp: addToPollSet_def growPollSet_def set_pollfd_def Let_def bnd_Ok_iff split: if_splits)
  qed
  have "registered ps' t" if "t \<in> S" for t
  proof (cases "t = s")
    case False
    have t: "registered ps t" using assms(1) that by (simp add: ps_holds_def)
    then have "nat t < length (pollFileDescriptors ps)" "nat t \<noteq> nat s"
      using ok False assms(2) by (auto simp: registered_def ps_ok_def)
    then show ?thesis using t a(3) m by (auto simp: registered_def)
  qed (simp add: a(2))
  moreover have "events (pollFileDescriptors ps' ! i) = 0"
    if "i < length (pollFileDescriptors ps')" "int i \<notin> insert s S" for i
  proof -
    have "i \<noteq> nat s" using that(2) assms(2) by auto
    show ?thesis
    proof (cases "i < length (pollFileDescriptors ps)")
      case True
      then show ?thesis using \<open>i \<noteq> nat s\<close> that a(3) [of i] assms(1) by (auto simp: ps_holds_def)
    next
      case False
      then show ?thesis
        using addToPollSet_fields [OF assms(4) ok assms(2,3), of i] \<open>i \<noteq> nat s\<close> that(1) by auto
    qed
  qed
  ultimately show ?thesis using a(1,2) by (simp add: ps_holds_def)
qed

lemma poll_state_holds: "poll_state S ps \<Longrightarrow> ps_holds S ps"
proof (induction rule: poll_state.induct)
  case (setup_state ps)
  then have "ps_ok ps" by (rule setupPollSet_ok)
  then show ?case
    using setup_state by (auto simp: ps_holds_def setupPollSet_def Let_def)
next
  case (added S ps s g ps')
  then show ?case by (intro ps_holds_addToPollSet)
next
  case (removed S ps s ps')
  then show ?case by (intro ps_holds_set_pollfd)
next
  case (polled S ps a r ps')
  then show ?case by (blast intro: ps_holds_pollCall)
qed

lemma registered_iff: "ps_holds S ps \<Longrightarrow> registered ps s \<longleftrightarrow> s \<in> S"
proof
  assume h: "ps_holds S ps" "registered ps s"
  then have "nat s < length (pollFileDescriptors ps)" "events (pollFileDescriptors ps ! nat s) \<noteq> 0" "int (nat s) = s"
    by (auto simp: ps_holds_def registered_def ps_ok_def POLLIN_def)
  then show "s \<in> S" using h(1) by (metis ps_holds_def)
qed (simp add: ps_holds_def)

text \<open>
  C26. After any sequence of operations the poll set is exactly the set of sockets that were
  added and not removed: the array is consistent (its length is the recorded size, and
  the recorded maximum lies within), and a socket is registered for input at its
  own index, within the part \<open>poll\<close> is given, if and only if it is in that set.
\<close>

theorem poll_set_is_a_set:
  assumes "poll_state S ps"
  shows "ps_ok ps \<and> (\<forall>s. registered ps s \<longleftrightarrow> s \<in> S)"
  using poll_state_holds [OF assms] registered_iff by (auto simp: ps_holds_def)

text \<open>Two sockets, one of them beyond the initial size, one removed again.\<close>

lemma poll_state_example:
  "\<exists>ps. poll_state {14} ps"
proof -
  obtain p0 where 0: "setupPollSet True empty_pollset = Ok () p0" by (auto simp: setupPollSet_def Let_def)
  note s0 = setup_state [OF 0]
  have k0: "ps_ok p0" by (rule setupPollSet_ok [OF 0])
  obtain p1 where 1: "addToPollSet (Some (\<lambda>_. 7)) 3 p0 = Ok () p1" "ps_ok p1" "registered p1 3"
    using addToPollSet_ok [OF k0, of 3 "\<lambda>_. 7"] by (auto simp: POLL_SET_SIZE_def)
  note s1 = added [OF s0 _ _ 1(1), simplified POLL_SET_SIZE_def, simplified]
  obtain p2 where 2: "addToPollSet (Some (\<lambda>_. 7)) 14 p1 = Ok () p2" "ps_ok p2"
    using addToPollSet_ok [OF 1(2), of 14 "\<lambda>_. 7"] by (auto simp: POLL_SET_SIZE_def)
  note s2 = added [OF s1 _ _ 2(1), simplified POLL_SET_SIZE_def, simplified]
  have "registered p2 3" using poll_state_holds [OF s2] by (simp add: ps_holds_def)
  then have "3 < currentPollSetSize p2" using 2(2) by (auto simp: registered_def ps_ok_def)
  then obtain p3 where "removeFromPollSet 3 p2 = Ok () p3"
    using set_pollfd_total [OF 2(2), of 3 0 0] by (auto simp: removeFromPollSet_def)
  from removed [OF s2 this] have "poll_state {14} p3" by (simp add: insert_Diff_if)
  then show ?thesis by (rule exI)
qed

theorem poll_set_is_a_set_witness:
  "\<exists>ps. poll_state {14} ps \<and> registered ps 14 \<and> \<not> registered ps 3"
proof -
  obtain ps where ps: "poll_state {14} ps" using poll_state_example by blast
  from poll_set_is_a_set [OF ps] have "registered ps 14" "\<not> registered ps 3" by simp_all
  with ps show ?thesis by blast
qed

text \<open>
  \<open>pollCall\<close> reports the lowest ready socket of the set: when \<open>poll\<close>
  reports events only for sockets that asked for them, and a positive count exactly when
  there is one, the result is \<open>-1\<close> if none is ready and otherwise the smallest
  ready socket of the set; a negative answer ends the process.
\<close>

theorem pollCall_reports_lowest_ready:
  assumes "poll_state S ps" "length revs = nat (maxFileDescriptor ps)"
    and "\<forall>i < length revs. 0 < revs ! i \<longrightarrow> int i \<in> S" "n > 0 \<longleftrightarrow> (\<exists>i < length revs. 0 < revs ! i)"
  shows "case pollCall (n, revs) ps of
      Stop r _ \<Rightarrow> n < 0 \<and> r = Exited (- 1)
    | Ok r ps' \<Rightarrow> 0 \<le> n \<and> poll_state S ps' \<and>
        (if \<exists>i < length revs. 0 < revs ! i
         then r \<in> S \<and> 0 < revs ! nat r \<and> (\<forall>i < nat r. \<not> 0 < revs ! i) else r = - 1)"
proof -
  define l where "l = take (nat (maxFileDescriptor ps)) (pollFileDescriptors (poll_writes revs ps))"
  have ok: "ps_ok ps" using poll_state_holds [OF assms(1)] by (simp add: ps_holds_def)
  have m: "nat (maxFileDescriptor ps) \<le> length (pollFileDescriptors ps)" using ok by (auto simp: ps_ok_def)
  have l: "length l = length revs" "\<And>i. i < length revs \<Longrightarrow> revents (l ! i) = revs ! i"
    using m assms(2) by (simp_all add: l_def)
  show ?thesis
  proof (cases "n < 0")
    case True
    then show ?thesis by (simp add: pollCall_def Let_def)
  next
    case False
    have p: "pollCall (n, revs) ps = Ok (if n > 0 then first_ready l 0 else - 1) (poll_writes revs ps)"
      using False by (simp add: pollCall_def Let_def poll_writes_def l_def)
    have st: "poll_state S (poll_writes revs ps)" by (rule polled [OF assms(1) p])
    have "if \<exists>i < length revs. 0 < revs ! i
        then r \<in> S \<and> 0 < revs ! nat r \<and> (\<forall>i < nat r. \<not> 0 < revs ! i) else r = - 1"
      if r: "r = (if n > 0 then first_ready l 0 else - 1)" for r
    proof (cases "\<exists>i < length revs. 0 < revs ! i")
      case True
      then obtain i where "i < length revs" "0 < revs ! i" by blast
      then have "0 < revents (l ! i)" "l ! i \<in> set l" using l by simp_all
      then obtain k where k: "k < length l" "first_ready l 0 = 0 + int k" "revents (l ! k) > 0"
          "\<forall>j < k. \<not> revents (l ! j) > 0"
        using first_ready_range [of l 0] by blast
      have "r = int k" using r k(2) True assms(4) by simp
      moreover have "0 < revs ! k" "k < length revs" using k(1,3) l by simp_all
      moreover have "\<not> 0 < revs ! j" if "j < k" for j using k(1,4) l that by simp
      ultimately show ?thesis using True assms(3) by auto
    qed (use assms(4) r in auto)
    then show ?thesis using p st False by simp
  qed
qed

theorem pollCall_reports_lowest_ready_witness:
  "\<exists>ps ps'. poll_state {14} ps \<and> pollCall (1, replicate 14 0 @ [1]) ps = Ok 14 ps'"
proof -
  obtain p0 where 0: "setupPollSet True empty_pollset = Ok () p0" by (auto simp: setupPollSet_def Let_def)
  have m0: "maxFileDescriptor p0 = 0" "currentPollSetSize p0 = 10"
    using 0 by (auto simp: setupPollSet_def empty_pollset_def Let_def POLL_SET_SIZE_def)
  obtain p1 where 1: "addToPollSet (Some (\<lambda>_. 7)) 14 p0 = Ok () p1"
    using addToPollSet_ok [OF setupPollSet_ok [OF 0], of 14 "\<lambda>_. 7"] by (auto simp: POLL_SET_SIZE_def)
  have m1: "maxFileDescriptor p1 = 15"
    using 1 m0 by (auto simp: addToPollSet_def growPollSet_def set_pollfd_def Let_def POLL_SET_SIZE_def
        int_range_def bnd_Ok_iff split: if_splits)
  have st: "poll_state {14} p1"
    by (rule added [OF setup_state [OF 0] _ _ 1]) (simp_all add: POLL_SET_SIZE_def)
  let ?r = "replicate 14 0 @ [1] :: int list"
  have i: "0 < ?r ! i \<longleftrightarrow> i = 14" if "i < 15" for i using that by (auto simp: nth_append less_Suc_eq)
  have a: "length ?r = nat (maxFileDescriptor p1)" "\<forall>i < length ?r. 0 < ?r ! i \<longrightarrow> int i \<in> {14}"
      "(1::int) > 0 \<longleftrightarrow> (\<exists>i < length ?r. 0 < ?r ! i)"
    using m1 i by (auto intro!: exI [of _ 14] simp: nth_append)
  have x: "\<exists>i < length ?r. 0 < ?r ! i" by (rule exI [of _ 14]) (simp add: nth_append)
  show ?thesis
  proof (cases "pollCall (1, ?r) p1")
    case (Ok r ps')
    have "r \<in> {14}"
      using pollCall_reports_lowest_ready [OF st a] x unfolding Ok by (simp only: res.case if_True simp_thms)
    then show ?thesis using st Ok by blast
  next
    case (Stop r ps')
    then show ?thesis using pollCall_reports_lowest_ready [OF st a] by simp
  qed
qed

end
