(* ===== verification/Floating.thy ===== *)
theory Floating
  imports Prelude
begin

text \<open>
  The values of \<open>float\<close> and \<open>double\<close>: rational numbers, the two infinities and the
  NaNs, with the comparisons of IEEE 754. Every comparison with a NaN is false, so the
  order is only an instance of \<open>ord\<close>. Rounding is a parameter where it is used; the
  sign of zero plays no part in the programs.
\<close>

datatype floating = Finite rat | Infinity bool | NaN

instantiation floating :: "{zero, one, ord}"
begin

definition zero_floating :: floating where "zero_floating = Finite 0"

definition one_floating :: floating where "one_floating = Finite 1"

fun less_floating :: "floating \<Rightarrow> floating \<Rightarrow> bool" where
  "less_floating (Finite x) (Finite y) = (x < y)"
| "less_floating (Finite x) (Infinity negative) = (\<not> negative)"
| "less_floating (Infinity negative) (Finite y) = negative"
| "less_floating (Infinity negative) (Infinity negative') = (negative \<and> \<not> negative')"
| "less_floating NaN y = False"
| "less_floating x NaN = False"

definition less_eq_floating :: "floating \<Rightarrow> floating \<Rightarrow> bool" where
  "less_eq_floating x y \<longleftrightarrow> x < y \<or> x = y \<and> x \<noteq> NaN"

instance ..

end

lemma less_NaN [simp]: "\<not> x < NaN" "\<not> NaN \<le> x" "\<not> x \<le> NaN"
  by (cases x; simp add: less_eq_floating_def)+

lemma floating_irrefl [simp]: "\<not> x < (x :: floating)"
  by (cases x) simp_all

lemma less_eq_Finite [simp]: "Finite r \<le> Finite q \<longleftrightarrow> r \<le> q"
  by (auto simp: less_eq_floating_def)

lemma floating_numbers [simp]:
  "0 < Finite r \<longleftrightarrow> 0 < r" "Finite r < 0 \<longleftrightarrow> r < 0" "0 \<le> Finite r \<longleftrightarrow> 0 \<le> r" "Finite r \<le> 0 \<longleftrightarrow> r \<le> 0"
  "1 < Finite r \<longleftrightarrow> 1 < r" "Finite r < 1 \<longleftrightarrow> r < 1" "1 \<le> Finite r \<longleftrightarrow> 1 \<le> r" "Finite r \<le> 1 \<longleftrightarrow> r \<le> 1"
  "\<not> NaN < 0" "\<not> 1 < NaN" "(0 :: floating) < 1" "\<not> (1 :: floating) < 0"
  by (simp_all add: zero_floating_def one_floating_def)

lemma floating_less_not_le: "x < y \<Longrightarrow> \<not> y \<le> (x :: floating)"
  by (cases x; cases y) (auto simp: less_eq_floating_def)

text \<open>The test that both programs make of an error rate lets exactly the rates in range and the NaNs pass.\<close>

lemma rate_test: "\<not> (x < 0 \<or> x > 1) \<longleftrightarrow> x = NaN \<or> 0 \<le> x \<and> x \<le> (1 :: floating)"
  by (cases x) (auto simp: less_eq_floating_def zero_floating_def one_floating_def)

end
