(* ===== verification/ErrorChannel.thy ===== *)
theory ErrorChannel
  imports Floating
begin

text \<open>
  The error-injecting packet manager of \<^verbatim>\<open>libcpe464\<close>
  (\<^verbatim>\<open>PacketManager.cpp\<close>, the message events, and
  \<open>sendErr_init\<close> of \<^verbatim>\<open>network-hooks.c\<close> with the setters of
  \<^verbatim>\<open>SettingsManager.cpp\<close>): every datagram passes the standard events and,
  with the configured probability, one random event that may drop or corrupt it.

  \<open>drand48\<close> is a parameter: for a seed, the stream of numbers it returns.
  \<open>flt\<close> is the rounding of a \<open>double\<close> to a \<open>float\<close>.
\<close>

section \<open>Message events\<close>

type_synonym NoJournal_t = "u32 list"
type_synonym No2Count_t = "u32 \<rightharpoonup> u32"
type_synonym DropList_t = "u32 list"

text \<open>An object of one of the three classes, with its members.\<close>

datatype IMsgEvent =
    InfoSeqNo NoJournal_t No2Count_t
  | ErrorDrop bool DropList_t
  | ErrorFlipBits

text \<open>The constructors, and the setters of \<open>errorDrop\<close> (which only that class has).\<close>

definition new_infoSeqNo :: IMsgEvent where
  "new_infoSeqNo = InfoSeqNo [] Map.empty"

definition new_errorDrop :: IMsgEvent where
  "new_errorDrop = ErrorDrop True []"

fun setDropAll :: "bool \<Rightarrow> IMsgEvent \<Rightarrow> IMsgEvent" where
  "setDropAll dropAll (ErrorDrop m_DropAll m_DropList) = ErrorDrop dropAll m_DropList"
| "setDropAll dropAll e = e"

fun setDropSpecific :: "DropList_t \<Rightarrow> IMsgEvent \<Rightarrow> IMsgEvent" where
  "setDropSpecific dropList (ErrorDrop m_DropAll m_DropList) = ErrorDrop False dropList"
| "setDropSpecific dropList e = e"

declare new_infoSeqNo_def [simp] new_errorDrop_def [simp]

text \<open>
  \<open>run\<close> of each event class: the code 0 (no change), 1 (changed) or 2 (dropped),
  the event with its updated log, the buffer, and the position in the random stream.
\<close>

definition infoSeqNo_run :: "nat \<Rightarrow> NoJournal_t \<Rightarrow> No2Count_t \<Rightarrow> byte list \<Rightarrow>
    fault + (int \<times> IMsgEvent \<times> byte list \<times> nat)" where
  "infoSeqNo_run k m_History m_Count buf =
     sbind (check (4 \<le> length buf) OutOfBounds) (\<lambda>_.
       let seqNo = ntohl (load32 buf 0) in
       Inr (0, InfoSeqNo (m_History @ [seqNo])
                 (m_Count(seqNo \<mapsto> (case m_Count seqNo of None \<Rightarrow> 1 | Some c \<Rightarrow> c + 1))), buf, k))"

definition errorDrop_run :: "nat \<Rightarrow> bool \<Rightarrow> DropList_t \<Rightarrow> byte list \<Rightarrow> u32 \<Rightarrow>
    fault + (int \<times> IMsgEvent \<times> byte list \<times> nat)" where
  "errorDrop_run k m_DropAll m_DropList buf msgNo =
     (if m_DropAll \<or> msgNo \<in> set m_DropList
      then sbind (check (4 \<le> length buf) OutOfBounds) (\<lambda>_. Inr (2, ErrorDrop m_DropAll m_DropList, buf, k))
      else Inr (0, ErrorDrop m_DropAll m_DropList, buf, k))"

definition errorFlipBits_run :: "(nat \<Rightarrow> rat) \<Rightarrow> nat \<Rightarrow> byte list \<Rightarrow>
    fault + (int \<times> IMsgEvent \<times> byte list \<times> nat)" where
  "errorFlipBits_run rnd k buf =
     sbind (check (4 \<le> length buf) OutOfBounds) (\<lambda>_.
       let byte_to_flip = \<lfloor>of_nat (length buf) * rnd k\<rfloor> in
       sbind (slot buf byte_to_flip) (\<lambda>b.
         Inr (1, ErrorFlipBits, buf[nat byte_to_flip := b XOR 0xFF], k + 1)))"

declare infoSeqNo_run_def [simp] errorDrop_run_def [simp] errorFlipBits_run_def [simp]

text \<open>The virtual call.\<close>

fun IMsgEvent_run :: "(nat \<Rightarrow> rat) \<Rightarrow> nat \<Rightarrow> IMsgEvent \<Rightarrow> byte list \<Rightarrow> u32 \<Rightarrow>
    fault + (int \<times> IMsgEvent \<times> byte list \<times> nat)" where
  "IMsgEvent_run rnd k (InfoSeqNo m_History m_Count) buf msgNo = infoSeqNo_run k m_History m_Count buf"
| "IMsgEvent_run rnd k (ErrorDrop m_DropAll m_DropList) buf msgNo = errorDrop_run k m_DropAll m_DropList buf msgNo"
| "IMsgEvent_run rnd k ErrorFlipBits buf msgNo = errorFlipBits_run rnd k buf"

section \<open>The packet manager\<close>

text \<open>
  \<open>g_PktMgr\<close> with the seed and the position of the random stream, the static
  \<open>nextSeed\<close> of \<^verbatim>\<open>network-hooks.c\<close>, and which settings the
  environment variables override (\<open>isSet\<close> in \<open>m_EnvData\<close>).
\<close>

record PacketManager =
  m_ErrorRate :: floating
  m_MsgNo :: u32
  m_ErrorCase_Constant :: "IMsgEvent list"
  m_ErrorCase_Chance :: "IMsgEvent list"
  rand_seed :: int
  rand_pos :: nat
  nextSeed :: int
  env_ErrRate :: bool
  env_ErrDrop :: bool
  env_ErrFlip :: bool
  env_SeedRand :: bool

fun runMsgEvents :: "(nat \<Rightarrow> rat) \<Rightarrow> nat \<Rightarrow> IMsgEvent list \<Rightarrow> byte list \<Rightarrow> u32 \<Rightarrow> bool \<Rightarrow>
    fault + (int \<times> IMsgEvent list \<times> byte list \<times> nat)" where
  "runMsgEvents rnd k [] buf msgNo hasChanged = Inr (of_bool hasChanged, [], buf, k)"
| "runMsgEvents rnd k (e # es) buf msgNo hasChanged =
     sbind (IMsgEvent_run rnd k e buf msgNo) (\<lambda>(nResult, e', buf', k').
       if nResult = 2 then Inr (2, e' # es, buf', k')
       else sbind (runMsgEvents rnd k' es buf' msgNo (hasChanged \<or> nResult = 1))
              (\<lambda>(r, es', buf'', k''). Inr (r, e' # es', buf'', k'')))"

text \<open>\<open>processEvents\<close>: the returned code and the buffer that is to be sent.\<close>

definition processEvents :: "(floating \<Rightarrow> floating) \<Rightarrow> (nat \<Rightarrow> rat) \<Rightarrow> PacketManager \<Rightarrow> byte list \<Rightarrow> u32 \<Rightarrow>
    fault + (int \<times> byte list \<times> PacketManager)" where
  "processEvents flt rnd pm buf msgNo =
     sbind (runMsgEvents rnd (rand_pos pm) (m_ErrorCase_Constant pm) buf msgNo False)
       (\<lambda>(nResult, consts, buf, k).
        let hasDropped = (nResult = 2);
            hasChanged = (nResult = 1);
            pm = pm\<lparr>m_ErrorCase_Constant := consts\<rparr>;
            randNum = flt (Finite (rnd k));
            chance = m_ErrorCase_Chance pm
        in if chance \<noteq> [] \<and> randNum \<le> m_ErrorRate pm
           then let randCase = \<lfloor>of_nat (length chance) * rnd (k + 1)\<rfloor> in
             sbind (slot chance randCase) (\<lambda>e.
             sbind (IMsgEvent_run rnd (k + 2) e buf msgNo) (\<lambda>(r, e', buf, k').
               let pm = pm\<lparr>m_ErrorCase_Chance := chance[nat randCase := e'], rand_pos := k'\<rparr> in
               Inr (if hasDropped \<or> r = 2 then 2 else of_bool (r \<noteq> 0), buf, pm)))
           else Inr (if hasDropped then 2 else of_bool hasChanged, buf, pm\<lparr>rand_pos := k + 1\<rparr>))"

section \<open>Configuration\<close>

definition addMsgEvent_Standard :: "IMsgEvent \<Rightarrow> PacketManager \<Rightarrow> PacketManager" where
  "addMsgEvent_Standard e pm = pm\<lparr>m_ErrorCase_Constant := m_ErrorCase_Constant pm @ [e]\<rparr>"

definition addMsgEvent_Random :: "IMsgEvent \<Rightarrow> PacketManager \<Rightarrow> PacketManager" where
  "addMsgEvent_Random e pm = pm\<lparr>m_ErrorCase_Chance := m_ErrorCase_Chance pm @ [e]\<rparr>"

definition setUserMode_ErrRate :: "floating \<Rightarrow> PacketManager \<Rightarrow> PacketManager" where
  "setUserMode_ErrRate rate pm = (if env_ErrRate pm then pm else pm\<lparr>m_ErrorRate := rate\<rparr>)"

definition setUserMode_ErrDrop :: "bool \<Rightarrow> PacketManager \<Rightarrow> PacketManager" where
  "setUserMode_ErrDrop isEnabled pm =
     (if env_ErrDrop pm then pm
      else if isEnabled then addMsgEvent_Random new_errorDrop pm else pm)"

definition setUserMode_ErrFlip :: "bool \<Rightarrow> PacketManager \<Rightarrow> PacketManager" where
  "setUserMode_ErrFlip isEnabled pm =
     (if env_ErrFlip pm then pm
      else if isEnabled then addMsgEvent_Random ErrorFlipBits pm else pm)"

definition setUserMode_SeedRand :: "int \<Rightarrow> PacketManager \<Rightarrow> PacketManager" where
  "setUserMode_SeedRand seed pm =
     (if env_SeedRand pm then pm else pm\<lparr>rand_seed := seed, rand_pos := 0\<rparr>)"

text \<open>\<open>now\<close> is what \<open>time(NULL)\<close> returns; the debug level only affects printing.\<close>

definition sendErr_init :: "(floating \<Rightarrow> floating) \<Rightarrow> int \<Rightarrow> floating \<Rightarrow> bool \<Rightarrow> bool \<Rightarrow> bool \<Rightarrow> PacketManager \<Rightarrow> PacketManager" where
  "sendErr_init flt now error_rate drop_flag flip_flag random_flag pm =
     (let pm = addMsgEvent_Standard new_infoSeqNo pm;
          pm = setUserMode_ErrRate (flt error_rate) pm;
          pm = setUserMode_ErrDrop drop_flag pm;
          pm = setUserMode_ErrFlip flip_flag pm;
          pm = setUserMode_SeedRand (if random_flag then now else nextSeed pm) pm
      in pm\<lparr>nextSeed := (if random_flag then now else s32 (nextSeed pm + 1))\<rparr>)"

text \<open>
  The destructor empties both lists from the back; \<open>clearMsgEvents\<close> returns how many
  events there were. \<open>infoSeqNo\<close> then reports how many messages and how many
  different numbers it has seen.
\<close>

function clearMsgEvents :: "IMsgEvent list \<Rightarrow> int \<Rightarrow> int \<times> IMsgEvent list" where
  "clearMsgEvents ErrVec cnt =
     (if length ErrVec > 0 then clearMsgEvents (butlast ErrVec) (s32 (cnt + 1)) else (cnt, ErrVec))"
  by pat_completeness auto
termination
  by (relation "measure (\<lambda>(v, _). length v)") auto

declare clearMsgEvents.simps [simp del]

fun infoSeqNo_report :: "IMsgEvent \<Rightarrow> (nat \<times> nat) option" where
  "infoSeqNo_report (InfoSeqNo m_History m_Count) = Some (length m_History, card (dom m_Count))"
| "infoSeqNo_report e = None"

lemma clearMsgEvents_eq:
  "0 \<le> cnt \<Longrightarrow> cnt + int (length v) < 2147483648 \<Longrightarrow> clearMsgEvents v cnt = (cnt + int (length v), [])"
proof (induction v arbitrary: cnt rule: rev_induct)
  case (snoc e v)
  have "s32 (cnt + 1) = cnt + 1" using snoc.prems by (simp add: int_range_def)
  then have "clearMsgEvents (v @ [e]) cnt = clearMsgEvents v (cnt + 1)"
    by (subst clearMsgEvents.simps) simp
  then show ?case using snoc.IH [of "cnt + 1"] snoc.prems by simp
qed (simp add: clearMsgEvents.simps)

text \<open>The destructor of the packet manager leaves no event behind.\<close>

definition delete_PacketManager :: "PacketManager \<Rightarrow> PacketManager" where
  "delete_PacketManager pm =
     (let pm = pm\<lparr>m_ErrorCase_Constant := snd (clearMsgEvents (m_ErrorCase_Constant pm) 0)\<rparr>
      in pm\<lparr>m_ErrorCase_Chance := snd (clearMsgEvents (m_ErrorCase_Chance pm) 0)\<rparr>)"

lemma delete_PacketManager_clears:
  assumes "length (m_ErrorCase_Constant pm) < 2147483648" "length (m_ErrorCase_Chance pm) < 2147483648"
  shows "m_ErrorCase_Constant (delete_PacketManager pm) = []" "m_ErrorCase_Chance (delete_PacketManager pm) = []"
  using assms by (simp_all add: delete_PacketManager_def Let_def clearMsgEvents_eq)

section \<open>What the channel does to a datagram\<close>

text \<open>
  The configuration of both programs: logging, and at most dropping (no bit flips
  and no drop lists).
\<close>

definition only_logs :: "IMsgEvent \<Rightarrow> bool" where
  "only_logs e = (case e of InfoSeqNo _ _ \<Rightarrow> True | _ \<Rightarrow> False)"

definition only_drops :: "IMsgEvent \<Rightarrow> bool" where
  "only_drops e = (case e of ErrorDrop a l \<Rightarrow> True | _ \<Rightarrow> False)"

definition drop_channel :: "PacketManager \<Rightarrow> bool" where
  "drop_channel pm \<longleftrightarrow> (\<forall>e \<in> set (m_ErrorCase_Constant pm). only_logs e)
     \<and> (\<forall>e \<in> set (m_ErrorCase_Chance pm). only_drops e)"

lemma runMsgEvents_logs:
  assumes "\<forall>e \<in> set es. only_logs e" "4 \<le> length buf"
  shows "\<exists>es'. runMsgEvents rnd k es buf msgNo c = Inr (of_bool c, es', buf, k)
     \<and> (\<forall>e \<in> set es'. only_logs e) \<and> length es' = length es"
  using assms
proof (induction es arbitrary: c)
  case (Cons e es)
  obtain h n where e: "e = InfoSeqNo h n"
    using Cons.prems(1) by (cases e) (auto simp: only_logs_def)
  obtain es' where "runMsgEvents rnd k es buf msgNo c = Inr (of_bool c, es', buf, k)"
    "\<forall>e \<in> set es'. only_logs e" "length es' = length es"
    using Cons.IH [of c] Cons.prems by auto
  with e Cons.prems(2) show ?case by (auto simp: check_def Let_def only_logs_def)
qed simp

text \<open>
  A dropping channel passes the bytes on unchanged or drops the datagram; it stays a
  dropping channel. The random numbers lie in the range \<open>[0, 1)\<close> that
  \<open>drand48\<close> documents.
\<close>

lemma processEvents_drop_channel:
  assumes "drop_channel pm" "4 \<le> length buf" "\<And>k. 0 \<le> rnd k \<and> rnd k < 1"
  shows "\<exists>r pm'. processEvents flt rnd pm buf msgNo = Inr (r, buf, pm') \<and> (r = 0 \<or> r = 2)
     \<and> drop_channel pm' \<and> m_ErrorRate pm' = m_ErrorRate pm \<and> m_MsgNo pm' = m_MsgNo pm
     \<and> rand_seed pm' = rand_seed pm"
proof -
  obtain es' where es': "runMsgEvents rnd (rand_pos pm) (m_ErrorCase_Constant pm) buf msgNo False
      = Inr (0, es', buf, rand_pos pm)" "\<forall>e \<in> set es'. only_logs e"
    using runMsgEvents_logs [of "m_ErrorCase_Constant pm" buf rnd "rand_pos pm" msgNo False] assms(1,2)
    by (auto simp: drop_channel_def)
  show ?thesis
  proof (cases "m_ErrorCase_Chance pm \<noteq> [] \<and> flt (Finite (rnd (rand_pos pm))) \<le> m_ErrorRate pm")
    case True
    let ?c = "m_ErrorCase_Chance pm" and ?r = "rnd (rand_pos pm + 1)"
    let ?i = "\<lfloor>of_nat (length ?c) * ?r\<rfloor>"
    have r: "0 \<le> ?r" "?r < 1" using assms(3) by auto
    have i: "0 \<le> ?i" "?i < int (length ?c)"
    proof -
      show "0 \<le> ?i" using r(1) by simp
      have "of_nat (length ?c) * ?r < of_nat (length ?c)" using True r by simp
      then show "?i < int (length ?c)" by (simp add: floor_less_iff)
    qed
    have "nat ?i < length ?c" using i by linarith
    then have mem: "?c ! nat ?i \<in> set ?c" by (rule nth_mem)
    then have "only_drops (?c ! nat ?i)" using assms(1) by (simp add: drop_channel_def)
    then obtain a l where e: "?c ! nat ?i = ErrorDrop a l"
      by (auto simp: only_drops_def split: IMsgEvent.splits)
    have upd: "?c[nat ?i := ErrorDrop a l] = ?c" using e by (metis list_update_id)
    have run: "IMsgEvent_run rnd k (ErrorDrop a l) buf msgNo
        = Inr (if a \<or> msgNo \<in> set l then 2 else 0, ErrorDrop a l, buf, k)" for k
      using assms(2) by (simp add: check_def)
    show ?thesis
      using es' True i e upd assms(1)
      by (simp add: processEvents_def Let_def slot_def drop_channel_def run
          del: IMsgEvent_run.simps)
  next
    case False
    then show ?thesis using es' assms(1)
      by (auto simp: processEvents_def Let_def drop_channel_def)
  qed
qed

text \<open>The same for any datagram that gets through the events at all, however short.\<close>

lemma runMsgEvents_logs_Inr:
  assumes "runMsgEvents rnd k es buf msgNo c = Inr (r, es', buf', k')" "\<forall>e \<in> set es. only_logs e"
  shows "r = of_bool c" "buf' = buf" "\<forall>e \<in> set es'. only_logs e"
proof -
  have "r = of_bool c \<and> buf' = buf \<and> (\<forall>e \<in> set es'. only_logs e)"
    using assms
  proof (induction es arbitrary: c r es' buf' k k')
    case (Cons e es)
    obtain h n where "e = InfoSeqNo h n"
      using Cons.prems(2) by (cases e) (auto simp: only_logs_def)
    then obtain es1 n' h' where es1: "runMsgEvents rnd k es buf msgNo c = Inr (r, es1, buf', k')"
        "es' = InfoSeqNo h' n' # es1"
      using Cons.prems(1) by (auto simp: sbind_Inr_iff Let_def)
    show ?case using Cons.IH [OF es1(1)] Cons.prems(2) es1(2) by (simp add: only_logs_def)
  qed simp
  then show "r = of_bool c" "buf' = buf" "\<forall>e \<in> set es'. only_logs e" by simp_all
qed

lemma processEvents_drop_channel_Inr:
  assumes "processEvents flt rnd pm buf msgNo = Inr (r, buf', pm')" "drop_channel pm"
  shows "buf' = buf" "r = 0 \<or> r = 2" "drop_channel pm'"
proof -
  obtain es k where es: "runMsgEvents rnd (rand_pos pm) (m_ErrorCase_Constant pm) buf msgNo False
      = Inr (0, es, buf, k)" "\<forall>e \<in> set es. only_logs e"
    using assms runMsgEvents_logs_Inr [of rnd "rand_pos pm" "m_ErrorCase_Constant pm" buf msgNo False]
    by (fastforce simp: processEvents_def sbind_Inr_iff drop_channel_def)
  have "buf' = buf \<and> (r = 0 \<or> r = 2) \<and> drop_channel pm'"
  proof (cases "m_ErrorCase_Chance pm \<noteq> [] \<and> flt (Finite (rnd k)) \<le> m_ErrorRate pm")
    case True
    let ?c = "m_ErrorCase_Chance pm"
    let ?i = "\<lfloor>of_nat (length ?c) * rnd (k + 1)\<rfloor>"
    obtain e where i: "slot ?c ?i = Inr e" using assms(1) es(1) True
      by (auto simp: processEvents_def sbind_Inr_iff Let_def)
    have m: "nat ?i < length ?c" "e = ?c ! nat ?i"
      using i by (simp_all add: slot_Inr_iff nat_less_iff)
    then have "only_drops e" using assms(2) by (simp add: drop_channel_def)
    then obtain a l where e: "e = ErrorDrop a l" by (auto simp: only_drops_def split: IMsgEvent.splits)
    have "?c[nat ?i := e] = ?c" using m by simp
    then show ?thesis using assms es True i e
      by (auto simp: processEvents_def sbind_Inr_iff Let_def drop_channel_def split: if_splits)
  next
    case False
    then show ?thesis using assms es by (auto simp: processEvents_def Let_def drop_channel_def)
  qed
  then show "buf' = buf" "r = 0 \<or> r = 2" "drop_channel pm'" by simp_all
qed

text \<open>What \<open>sendErr_init\<close> of the two programs sets up.\<close>

lemma sendErr_init_drop_channel:
  "drop_channel pm \<Longrightarrow> drop_channel (sendErr_init flt now rate True False rnd pm)"
  by (auto simp: sendErr_init_def drop_channel_def addMsgEvent_Standard_def addMsgEvent_Random_def
      setUserMode_ErrRate_def setUserMode_ErrDrop_def setUserMode_ErrFlip_def
      setUserMode_SeedRand_def only_logs_def only_drops_def Let_def)

end
