(* ===== verification/PacketRing.thy ===== *)
theory PacketRing
  imports Prelude
begin

text \<open>
  The contract of a circular array of packets indexed by the sequence number modulo
  the array size: what a store returns to later reads, and what it evicts. Theory
  \<open>Window\<close> interprets it on the receiver's buffer and on the sender's window.
\<close>

locale packet_ring =
  fixes put :: "'b \<Rightarrow> int \<Rightarrow> byte list \<Rightarrow> fault + 'b"
    and get :: "'b \<Rightarrow> int \<Rightarrow> byte list option"
    and slots :: "'b \<Rightarrow> int"
    and accepts :: "'b \<Rightarrow> int \<Rightarrow> byte list \<Rightarrow> bool"
    and ok :: "'b \<Rightarrow> bool"
  assumes put_total: "ok b \<Longrightarrow> accepts b s d \<Longrightarrow> \<exists>b'. put b s d = Inr b'"
    and put_ok: "ok b \<Longrightarrow> accepts b s d \<Longrightarrow> put b s d = Inr b' \<Longrightarrow> ok b'"
    and put_slots: "ok b \<Longrightarrow> accepts b s d \<Longrightarrow> put b s d = Inr b' \<Longrightarrow> slots b' = slots b"
    and put_accepts: "ok b \<Longrightarrow> accepts b s d \<Longrightarrow> put b s d = Inr b' \<Longrightarrow>
          accepts b' t e \<longleftrightarrow> accepts b t e"
    and get_put: "ok b \<Longrightarrow> accepts b s d \<Longrightarrow> put b s d = Inr b' \<Longrightarrow>
          get b' t = (if t = s then Some d else if slots b dvd (t - s) then None else get b t)"
    and slots_pos: "ok b \<Longrightarrow> 0 < slots b"
begin

text \<open>Storing a run of packets with consecutive numbers.\<close>

fun put_all :: "'b \<Rightarrow> int \<Rightarrow> byte list list \<Rightarrow> fault + 'b" where
  "put_all b s [] = Inr b"
| "put_all b s (d # ds) = sbind (put b s d) (\<lambda>b'. put_all b' (s + 1) ds)"

lemma put_all_run:
  assumes "ok b" "\<And>i. i < length ds \<Longrightarrow> accepts b (s + int i) (ds ! i)" "int (length ds) \<le> slots b"
  shows "\<exists>b'. put_all b s ds = Inr b' \<and> ok b' \<and> slots b' = slots b
     \<and> (\<forall>i < length ds. get b' (s + int i) = Some (ds ! i))
     \<and> (\<forall>t. (\<forall>i < length ds. \<not> slots b dvd (t - (s + int i))) \<longrightarrow> get b' t = get b t)"
  using assms
proof (induction ds arbitrary: b s)
  case Nil
  then show ?case by simp
next
  case (Cons d ds)
  have acc: "accepts b s d" using Cons.prems(2) [of 0] by simp
  obtain b1 where b1: "put b s d = Inr b1" using put_total [OF Cons.prems(1) acc] by blast
  note l = put_ok [OF Cons.prems(1) acc b1] put_slots [OF Cons.prems(1) acc b1]
    put_accepts [OF Cons.prems(1) acc b1] get_put [OF Cons.prems(1) acc b1]
  have "accepts b1 (s + 1 + int i) (ds ! i)" if "i < length ds" for i
    using Cons.prems(2) [of "Suc i"] that l(3) by (simp add: algebra_simps)
  then obtain b' where b': "put_all b1 (s + 1) ds = Inr b'" "ok b'" "slots b' = slots b1"
      "\<And>i. i < length ds \<Longrightarrow> get b' (s + 1 + int i) = Some (ds ! i)"
      "\<And>t. (\<forall>i < length ds. \<not> slots b1 dvd (t - (s + 1 + int i))) \<Longrightarrow> get b' t = get b1 t"
    using Cons.IH [OF l(1), of "s + 1"] Cons.prems(3) l(2) by auto
  have first: "get b' s = Some d"
  proof -
    have "\<not> slots b1 dvd (s - (s + 1 + int i))" if "i < length ds" for i
    proof
      assume "slots b1 dvd (s - (s + 1 + int i))"
      then have "slots b1 dvd (1 + int i)" by (metis add.assoc add_diff_cancel_left' diff_minus_eq_add dvd_minus_iff minus_diff_eq)
      then show False using that Cons.prems(3) l(2) zdvd_imp_le [of "slots b1" "1 + int i"] by simp
    qed
    then show ?thesis using b'(5) [of s] l(4) [of s] by simp
  qed
  have "get b' (s + int i) = Some ((d # ds) ! i)" if "i < length (d # ds)" for i
    using first b'(4) [of "i - 1"] that by (cases i) (simp_all add: algebra_simps)
  moreover have "get b' t = get b t"
    if "\<forall>i < length (d # ds). \<not> slots b dvd (t - (s + int i))" for t
  proof -
    have "\<forall>i < length ds. \<not> slots b1 dvd (t - (s + 1 + int i))"
      using that l(2) by (metis Suc_less_eq add.assoc length_Cons of_nat_Suc)
    moreover have "\<not> slots b dvd (t - s)" using that by fastforce
    ultimately show ?thesis using b'(5) [of t] l(4) [of t] by (cases "t = s") auto
  qed
  ultimately show ?case using b' b1 l(2) by auto
qed

text \<open>A run of at most \<open>slots b\<close> packets is stored without loss.\<close>

lemma run_readable:
  assumes "ok b" "\<And>i. i < length ds \<Longrightarrow> accepts b (s + int i) (ds ! i)" "int (length ds) \<le> slots b"
  obtains b' where "put_all b s ds = Inr b'" "ok b'"
    "\<And>i. i < length ds \<Longrightarrow> get b' (s + int i) = Some (ds ! i)"
  using put_all_run [OF assms] by blast

text \<open>One more packet lands on the slot of the first one and evicts it.\<close>

lemma wrap_evicts:
  assumes "ok b" "accepts b (s + slots b) d" "put b (s + slots b) d = Inr b'"
  shows "get b' s = None"
  using get_put [OF assms, of s] slots_pos [OF assms(1)] by simp

lemma put_all_append:
  "put_all b s (ds @ es) = sbind (put_all b s ds) (\<lambda>b'. put_all b' (s + int (length ds)) es)"
proof (induction ds arbitrary: b s)
  case (Cons d ds)
  then show ?case by (cases "put b s d") (simp_all add: algebra_simps)
qed simp

text \<open>
  A run of one packet more than there are slots loses its first packet, and only that
  one.
\<close>

lemma overfull_run:
  assumes "ok b" "\<And>i e. i \<le> length ds \<Longrightarrow> e \<in> set (ds @ [d]) \<Longrightarrow> accepts b (s + int i) e"
    "int (length ds) = slots b"
  shows "\<exists>b'. put_all b s (ds @ [d]) = Inr b' \<and> ok b' \<and> slots b' = slots b \<and> get b' s = None
     \<and> get b' (s + slots b) = Some d
     \<and> (\<forall>i. 0 < i \<longrightarrow> i < length ds \<longrightarrow> get b' (s + int i) = Some (ds ! i))"
proof -
  obtain b1 where b1: "put_all b s ds = Inr b1" "ok b1" "slots b1 = slots b"
      "\<forall>i < length ds. get b1 (s + int i) = Some (ds ! i)"
    using put_all_run [OF assms(1), of ds s] assms(2,3) by auto
  have acc: "accepts b1 (s + slots b) d"
  proof -
    have "\<And>t e. accepts b1 t e = accepts b t e"
      using b1(1) assms(1,2)
    proof (induction ds arbitrary: b s)
      case (Cons c cs)
      have a: "accepts b s c" using Cons.prems(3) [of 0 c] by simp
      obtain b2 where b2: "put b s c = Inr b2" "put_all b2 (s + 1) cs = Inr b1"
        using Cons.prems(1) by (auto simp: sbind_Inr_iff)
      note l = put_ok [OF Cons.prems(2) a b2(1)] put_accepts [OF Cons.prems(2) a b2(1)]
      have "accepts b2 (s + 1 + int i) e" if "i \<le> length cs" "e \<in> set (cs @ [d])" for i e
        using Cons.prems(3) [of "Suc i" e] that l(2) by (auto simp: algebra_simps)
      with Cons.IH [OF b2(2) l(1)] l(2) show ?case by blast
    qed simp
    then show ?thesis using assms(2) [of "length ds" d] assms(3) by simp
  qed
  obtain b' where b': "put b1 (s + slots b) d = Inr b'" using put_total [OF b1(2) acc] by blast
  note g = get_put [OF b1(2) acc b']
  have "\<not> slots b dvd int i - slots b" if "0 < i" "i < length ds" for i
  proof
    assume "slots b dvd int i - slots b"
    then have "slots b dvd int i" by (metis diff_add_cancel dvd_add_triv_right_iff)
    then show False using that assms(3) zdvd_imp_le [of "slots b" "int i"] by simp
  qed
  then have "get b' (s + int i) = Some (ds ! i)" if "0 < i" "i < length ds" for i
    using g [of "s + int i"] that b1(3,4) assms(3) by auto
  moreover have "get b' s = None" "get b' (s + slots b) = Some d"
    using g [of s] g [of "s + slots b"] b1(3) slots_pos [OF assms(1)] by simp_all
  ultimately show ?thesis
    using b1 b' assms(3) put_ok [OF b1(2) acc b'] put_slots [OF b1(2) acc b']
    by (simp add: put_all_append)
qed

end

end
