(* ===== verification/Window.thy ===== *)
theory Window
  imports PacketRing
begin

text \<open>
  The windowing library \<^verbatim>\<open>window.c\<close>: the receiver's buffer of packets
  that arrived out of order and the sender's window of packets in flight. Both are
  circular arrays of packet pointers indexed by the sequence number modulo the window
  size. The locale \<open>packet_ring\<close> is the contract of such an array; both
  structures are shown to satisfy it.
\<close>

section \<open>Data\<close>

text \<open>The constant \<open>MAX_PACKET_SIZE\<close> and the structs of \<^verbatim>\<open>window.h\<close>.\<close>

definition MAX_PACKET_SIZE :: nat where
  "MAX_PACKET_SIZE = 1407"

record Packet =
  sequence_number :: int
  data_size :: int
  valid :: int
  ACK :: int
  data :: "byte list"

record ReceiverBuffer =
  rb_buffer :: "Packet option list"
  rb_buffer_size :: int
  rb_window_size :: int
  expected :: int
  highest :: int
  lastControlPacket :: "byte list"
  lastControlPacketSize :: int
  hasLastControl :: int

record SenderWindow =
  sw_buffer :: "Packet option list"
  sw_window_size :: int
  lower :: int
  upper :: int
  current :: int

section \<open>Allocation\<close>

text \<open>
  The allocator is the environment's: the \<open>k\<close>-th call returns NULL (\<open>None\<close>)
  or a block whose bytes are arbitrary until written. Structs in a fresh block read
  those bytes at the offsets of their fields.
\<close>

type_synonym heap = "nat \<Rightarrow> (nat \<Rightarrow> byte) option"

definition junk_bytes :: "(nat \<Rightarrow> byte) \<Rightarrow> nat \<Rightarrow> nat \<Rightarrow> byte list" where
  "junk_bytes g off n = map g [off..<off + n]"

definition junk_int :: "(nat \<Rightarrow> byte) \<Rightarrow> nat \<Rightarrow> int" where
  "junk_int g off = sint (load32 (junk_bytes g off 4) 0)"

definition fresh_packet :: "(nat \<Rightarrow> byte) \<Rightarrow> Packet" where
  "fresh_packet g =
     \<lparr>sequence_number = junk_int g 0, data_size = junk_int g 4, valid = junk_int g 8,
      ACK = junk_int g 12, data = junk_bytes g 16 MAX_PACKET_SIZE\<rparr>"

text \<open>
  The loop that allocates one packet per slot; a failure releases what was allocated
  and returns NULL. The second component is the number of the next allocator call.
\<close>

fun alloc_packets :: "heap \<Rightarrow> nat \<Rightarrow> nat \<Rightarrow> Packet list option \<times> nat" where
  "alloc_packets h k 0 = (Some [], k)"
| "alloc_packets h k (Suc n) =
     (case h k of None \<Rightarrow> (None, Suc k)
      | Some g \<Rightarrow>
         (case alloc_packets h (Suc k) n of
            (None, k') \<Rightarrow> (None, k')
          | (Some ps, k') \<Rightarrow> (Some (fresh_packet g # ps), k')))"

definition blank_packet :: "Packet \<Rightarrow> Packet" where
  "blank_packet p = p\<lparr>sequence_number := - 1, data_size := 0, ACK := 0, valid := 0,
     data := replicate MAX_PACKET_SIZE 0\<rparr>"

section \<open>The receiver's buffer\<close>

definition initReceiverBuffer :: "heap \<Rightarrow> nat \<Rightarrow> int \<Rightarrow> int \<Rightarrow> ReceiverBuffer option \<times> nat" where
  "initReceiverBuffer h k buffer_size window_size =
     (case h k of None \<Rightarrow> (None, k + 1)
      | Some g \<Rightarrow>
         if window_size < 0 \<or> h (k + 1) = None then (None, k + 2)
         else
          (case alloc_packets h (k + 2) (nat window_size) of
             (None, k') \<Rightarrow> (None, k')
           | (Some ps, k') \<Rightarrow>
              (Some \<lparr>rb_buffer = map (\<lambda>p. Some (blank_packet p)) ps,
                rb_buffer_size = buffer_size, rb_window_size = window_size,
                expected = 0, highest = - 1,
                lastControlPacket = junk_bytes g 24 11,
                lastControlPacketSize = junk_int g 36,
                hasLastControl = junk_int g 40\<rparr>, k')))"

text \<open>
  \<open>insertReceiverPacket\<close>: \<open>seq\<close> is unsigned, so the window test, the
  remainder and the comparison with \<open>highest\<close> are unsigned. The NULL guards of
  the code always pass: a missing buffer has no representation here.
\<close>

definition insertReceiverPacket :: "ReceiverBuffer \<Rightarrow> byte list \<Rightarrow> int \<Rightarrow> fault + ReceiverBuffer" where
  "insertReceiverPacket buffer recvBuffer receivedBytes =
     (if receivedBytes \<le> 0 then Inr buffer
      else sbind (check (4 \<le> length recvBuffer) OutOfBounds) (\<lambda>_.
        let sq = ntohl (load32 recvBuffer 0) in
        if sq > word_of_int (s32 (expected buffer + rb_window_size buffer)) then Inr buffer
        else sbind (check (rb_window_size buffer \<noteq> 0) DivByZero) (\<lambda>_.
          let index = s32 (uint (sq mod word_of_int (rb_window_size buffer))) in
          sbind (slot (rb_buffer buffer) index) (\<lambda>o'. sbind (deref o') (\<lambda>p.
          sbind (check (receivedBytes \<le> int (length recvBuffer)
                        \<and> receivedBytes \<le> int (length (data p))) OutOfBounds) (\<lambda>_.
            let p = p\<lparr>sequence_number := sint sq, data_size := receivedBytes - 7, ACK := 0,
                      valid := 1, data := memcpy_at (data p) 0 (take (nat receivedBytes) recvBuffer)\<rparr>;
                buffer = buffer\<lparr>rb_buffer := (rb_buffer buffer)[nat index := Some p]\<rparr>;
                buffer = (if sq > word_of_int (highest buffer) then buffer\<lparr>highest := sint sq\<rparr>
                          else buffer)
            in Inr buffer))))))"

text \<open>
  One test of the flush loop: the slot of the expected packet, when it holds a valid
  packet with exactly that number.
\<close>

definition flush_slot :: "ReceiverBuffer \<Rightarrow> fault + (int \<times> Packet) option" where
  "flush_slot buffer =
     sbind (check (rb_window_size buffer \<noteq> 0) DivByZero) (\<lambda>_.
       let index = cmod (expected buffer) (rb_window_size buffer) in
       sbind (slot (rb_buffer buffer) index) (\<lambda>o'. Inr
         (case o' of None \<Rightarrow> None
          | Some p \<Rightarrow> if sequence_number p = expected buffer \<and> valid p = 1
                      then Some (index, p) else None)))"

text \<open>
  The length passed to \<open>fwrite\<close> is \<open>data_size - 7\<close> converted to
  \<open>size_t\<close>: a negative value is a huge length and reads outside the packet.
\<close>

definition flush_bytes :: "Packet \<Rightarrow> fault + byte list" where
  "flush_bytes p =
     (let n = s32 (data_size p - 7) in
      sbind (check (0 \<le> n \<and> 7 + n \<le> int (length (data p))) OutOfBounds) (\<lambda>_.
        Inr (take (nat n) (drop 7 (data p)))))"

definition clear_slot :: "ReceiverBuffer \<Rightarrow> int \<Rightarrow> Packet \<Rightarrow> ReceiverBuffer" where
  "clear_slot buffer index p =
     buffer\<lparr>rb_buffer := (rb_buffer buffer)[nat index :=
              Some (p\<lparr>data := replicate MAX_PACKET_SIZE 0, sequence_number := - 1,
                      valid := 0, data_size := 0\<rparr>)],
            expected := s32 (expected buffer + 1)\<rparr>"

text \<open>
  The flush loop terminates: every round invalidates one slot. \<open>out\<close> is what
  was written to the file so far.
\<close>

definition is_valid :: "Packet option \<Rightarrow> bool" where
  "is_valid o' = (case o' of None \<Rightarrow> False | Some p \<Rightarrow> valid p = 1)"

definition valid_count :: "ReceiverBuffer \<Rightarrow> nat" where
  "valid_count buffer = length (filter is_valid (rb_buffer buffer))"

lemma length_filter_update:
  "i < length xs \<Longrightarrow> P (xs ! i) \<Longrightarrow> \<not> P y \<Longrightarrow>
     length (filter P (xs[i := y])) < length (filter P xs)"
proof (induction xs arbitrary: i)
  case (Cons x xs)
  then show ?case by (cases i) auto
qed simp

lemma flush_slot_Some:
  assumes "flush_slot buffer = Inr (Some (index, p))"
  shows "0 \<le> index" "index < int (length (rb_buffer buffer))"
    and "rb_buffer buffer ! nat index = Some p"
    and "valid p = 1" "sequence_number p = expected buffer"
    and "index = cmod (expected buffer) (rb_window_size buffer)"
  using assms by (auto simp: flush_slot_def sbind_Inr_iff slot_Inr_iff Let_def
      split: option.splits if_splits)

lemma valid_count_clear_slot:
  assumes "flush_slot buffer = Inr (Some (index, p))"
  shows "valid_count (clear_slot buffer index p) < valid_count buffer"
proof -
  note s = flush_slot_Some [OF assms]
  have "nat index < length (rb_buffer buffer)" using s(1,2) by linarith
  moreover have "is_valid (rb_buffer buffer ! nat index)" using s(3,4) by (simp add: is_valid_def)
  ultimately show ?thesis
    unfolding valid_count_def clear_slot_def
    by (simp add: length_filter_update is_valid_def)
qed

function flush_loop :: "ReceiverBuffer \<Rightarrow> byte list \<Rightarrow> int \<Rightarrow> fault + (int \<times> ReceiverBuffer \<times> byte list)" where
  "flush_loop buffer out packets_flushed =
     (case flush_slot buffer of
        Inl e \<Rightarrow> Inl e
      | Inr None \<Rightarrow> Inr (packets_flushed, buffer, out)
      | Inr (Some (index, p)) \<Rightarrow>
         (case flush_bytes p of
            Inl e \<Rightarrow> Inl e
          | Inr bs \<Rightarrow> flush_loop (clear_slot buffer index p) (out @ bs) (packets_flushed + 1)))"
  by pat_completeness auto
termination
  by (relation "measure (\<lambda>(b, _, _). valid_count b)") (auto simp: valid_count_clear_slot)

declare flush_loop.simps [simp del]

definition flushBuffer :: "ReceiverBuffer \<Rightarrow> fault + (int \<times> ReceiverBuffer \<times> byte list)" where
  "flushBuffer buffer =
     flush_loop (buffer\<lparr>expected := s32 (expected buffer + 1)\<rparr>) [] 0"

section \<open>The sender's window\<close>

text \<open>
  The code passes \<open>buffer_size\<close> as well; it only makes each block larger than a
  \<open>Packet\<close> by \<open>buffer_size + 7\<close> bytes behind the array \<open>data\<close>, which no
  code may use. The field \<open>buffer_size\<close> of the struct is never read or written.
\<close>

definition initSenderWindow :: "heap \<Rightarrow> nat \<Rightarrow> int \<Rightarrow> SenderWindow option \<times> nat" where
  "initSenderWindow h k window_size =
     (case h k of None \<Rightarrow> (None, k + 1)
      | Some g \<Rightarrow>
         if window_size < 0 \<or> h (k + 1) = None then (None, k + 2)
         else
          (case alloc_packets h (k + 2) (nat window_size) of
             (None, k') \<Rightarrow> (None, k')
           | (Some ps, k') \<Rightarrow>
              (Some \<lparr>sw_buffer = map Some ps, sw_window_size = window_size,
                lower = 0, upper = window_size, current = 0\<rparr>, k')))"

definition sender_index :: "SenderWindow \<Rightarrow> int \<Rightarrow> fault + int" where
  "sender_index window sq =
     sbind (check (sw_window_size window \<noteq> 0) DivByZero) (\<lambda>_.
       Inr (cmod sq (sw_window_size window)))"

definition sender_slot :: "SenderWindow \<Rightarrow> int \<Rightarrow> fault + Packet option" where
  "sender_slot window sq =
     sbind (sender_index window sq) (\<lambda>index. slot (sw_buffer window) index)"

definition insertPacketIntoWindow ::
    "SenderWindow \<Rightarrow> int \<Rightarrow> byte list \<Rightarrow> int \<Rightarrow> fault + SenderWindow" where
  "insertPacketIntoWindow window sq bytes n =
     sbind (sender_index window sq) (\<lambda>index.
     sbind (slot (sw_buffer window) index) (\<lambda>o'. sbind (deref o') (\<lambda>p.
     sbind (check (0 \<le> n \<and> n \<le> int (length bytes) \<and> n \<le> int (length (data p)))
                  OutOfBounds) (\<lambda>_.
       let p = p\<lparr>sequence_number := sq, data := memcpy_at (data p) 0 (take (nat n) bytes),
                 data_size := n, ACK := 0\<rparr>
       in Inr (window\<lparr>sw_buffer := (sw_buffer window)[nat index := Some p]\<rparr>)))))"

definition acknowledgePacket :: "SenderWindow \<Rightarrow> int \<Rightarrow> fault + SenderWindow" where
  "acknowledgePacket window sq =
     sbind (sender_index window sq) (\<lambda>index.
     sbind (slot (sw_buffer window) index) (\<lambda>o'. Inr
       (case o' of None \<Rightarrow> window
        | Some p \<Rightarrow> window\<lparr>sw_buffer := (sw_buffer window)[nat index := Some (p\<lparr>ACK := 1\<rparr>)]\<rparr>)))"

definition checkPacketACKStatus :: "SenderWindow \<Rightarrow> int \<Rightarrow> fault + int" where
  "checkPacketACKStatus window sq =
     sbind (sender_slot window sq) (\<lambda>o'. Inr (case o' of None \<Rightarrow> 0 | Some p \<Rightarrow> ACK p))"

text \<open>The loop of \<open>advanceSenderWindow\<close>: release the slots of \<open>n\<close> numbers from \<open>i\<close> on.\<close>

fun release_slots :: "SenderWindow \<Rightarrow> int \<Rightarrow> nat \<Rightarrow> fault + SenderWindow" where
  "release_slots window i 0 = Inr window"
| "release_slots window i (Suc n) =
     sbind (sender_index window i) (\<lambda>index.
     sbind (slot (sw_buffer window) index) (\<lambda>_.
       release_slots (window\<lparr>sw_buffer := (sw_buffer window)[nat index := None]\<rparr>) (i + 1) n))"

definition advanceSenderWindow :: "SenderWindow \<Rightarrow> int \<Rightarrow> fault + SenderWindow" where
  "advanceSenderWindow window new_lower =
     (if new_lower > lower window
      then sbind (release_slots window (lower window) (nat (new_lower - lower window))) (\<lambda>window.
             Inr (window\<lparr>lower := new_lower,
                         upper := s32 (s32 (new_lower + sw_window_size window) - 1)\<rparr>))
      else Inr window)"

definition canSendMorePackets :: "SenderWindow \<Rightarrow> bool" where
  "canSendMorePackets window \<longleftrightarrow> current window < upper window"

text \<open>
  Releasing the structures: what \<open>freeReceiverBuffer\<close> and \<open>destroySenderWindow\<close>
  pass to \<open>free\<close>, in order: the packets of the slots that have one, the array and the struct.
\<close>

datatype freed = Freed_packet int | Freed_array | Freed_struct

fun freed_slots :: "Packet option list \<Rightarrow> int \<Rightarrow> nat \<Rightarrow> fault + int list" where
  "freed_slots buf i 0 = Inr []"
| "freed_slots buf i (Suc n) =
     sbind (slot buf i) (\<lambda>o'. sbind (freed_slots buf (i + 1) n) (\<lambda>is.
       Inr (if o' = None then is else i # is)))"

definition freeReceiverBuffer :: "ReceiverBuffer \<Rightarrow> fault + freed list" where
  "freeReceiverBuffer buffer =
     sbind (freed_slots (rb_buffer buffer) 0 (nat (rb_window_size buffer))) (\<lambda>is.
       Inr (map Freed_packet is @ [Freed_array, Freed_struct]))"

definition destroySenderWindow :: "SenderWindow \<Rightarrow> fault + freed list" where
  "destroySenderWindow window =
     sbind (freed_slots (sw_buffer window) 0 (nat (sw_window_size window))) (\<lambda>is.
       Inr (map Freed_packet is @ [Freed_array, Freed_struct]))"

section \<open>Well-formed buffers and what they hold\<close>

text \<open>
  The receiver holds packet \<open>s\<close> when the slot of \<open>s\<close> is valid and
  carries that number; its payload is \<open>data_size\<close> bytes behind the header.
\<close>

definition packet_ok :: "Packet option \<Rightarrow> bool" where
  "packet_ok o' = (case o' of None \<Rightarrow> False | Some p \<Rightarrow>
     length (data p) = MAX_PACKET_SIZE \<and> 0 \<le> data_size p \<and> data_size p \<le> 1400)"

definition rb_ok :: "ReceiverBuffer \<Rightarrow> bool" where
  "rb_ok b \<longleftrightarrow> 0 < rb_window_size b \<and> 0 \<le> expected b
     \<and> expected b + rb_window_size b < 2147483648
     \<and> int (length (rb_buffer b)) = rb_window_size b \<and> (\<forall>o' \<in> set (rb_buffer b). packet_ok o')"

definition held :: "ReceiverBuffer \<Rightarrow> int \<Rightarrow> byte list option" where
  "held b s =
     (case rb_buffer b ! nat (s mod rb_window_size b) of
        None \<Rightarrow> None
      | Some p \<Rightarrow> if sequence_number p = s \<and> valid p = 1
                  then Some (take (nat (data_size p)) (drop 7 (data p))) else None)"

lemma rb_okD:
  assumes "rb_ok b"
  shows "0 < rb_window_size b" "0 \<le> expected b" "int_range (expected b + rb_window_size b)"
    "int_range (expected b)" "int_range (rb_window_size b)"
    "int (length (rb_buffer b)) = rb_window_size b"
  using assms by (auto simp: rb_ok_def int_range_def)

lemma rb_ok_slot:
  assumes "rb_ok b" "0 \<le> i" "i < rb_window_size b"
  obtains p where "rb_buffer b ! nat i = Some p" "length (data p) = 1407" "data_size p \<le> 1400" "0 \<le> data_size p"
proof -
  have "nat i < length (rb_buffer b)" using assms rb_okD(6) [OF assms(1)] by linarith
  then have "packet_ok (rb_buffer b ! nat i)" using assms(1) by (simp add: rb_ok_def)
  then show ?thesis using that
    by (auto simp: packet_ok_def MAX_PACKET_SIZE_def split: option.splits)
qed

text \<open>Reading an in-range number from an unsigned word and back.\<close>

lemma word_le_of_int:
  "0 \<le> a \<Longrightarrow> a < 4294967296 \<Longrightarrow> 0 \<le> b \<Longrightarrow> b < 4294967296 \<Longrightarrow>
     (word_of_int a :: u32) \<le> word_of_int b \<longleftrightarrow> a \<le> b"
  by (simp add: word_le_def unsigned_of_int take_bit_int_eq_self)

lemma word_mod_of_int:
  "0 \<le> a \<Longrightarrow> a < 2147483648 \<Longrightarrow> 0 < b \<Longrightarrow> b < 2147483648 \<Longrightarrow>
     uint ((word_of_int a :: u32) mod word_of_int b) = a mod b"
  by (simp add: uint_mod_distrib unsigned_of_int take_bit_int_eq_self)

lemma sint_of_int: "0 \<le> a \<Longrightarrow> a < 2147483648 \<Longrightarrow> sint (word_of_int a :: u32) = a"
  using s32_id [of a] by (simp add: s32_def int_range_def)

section \<open>The receiver's buffer as a ring\<close>

text \<open>
  Storing packet \<open>s\<close>: the header number is \<open>s\<close> and \<open>n\<close> bytes
  were received.
\<close>

definition rb_accepts :: "ReceiverBuffer \<Rightarrow> int \<Rightarrow> byte list \<Rightarrow> bool" where
  "rb_accepts b s d \<longleftrightarrow> 0 \<le> s \<and> s \<le> expected b + rb_window_size b \<and> length d \<le> 1400"

definition stored_packet :: "Packet \<Rightarrow> int \<Rightarrow> byte list \<Rightarrow> int \<Rightarrow> Packet" where
  "stored_packet p s recvBuffer n =
     p\<lparr>sequence_number := s, data_size := n - 7, ACK := 0, valid := 1,
       data := memcpy_at (data p) 0 (take (nat n) recvBuffer)\<rparr>"

lemma insertReceiverPacket_eq:
  assumes ok: "rb_ok b" and s: "0 \<le> s" "s \<le> expected b + rb_window_size b"
    and n: "7 \<le> n" "n \<le> 1407" "n \<le> int (length r)"
    and h: "ntohl (load32 r 0) = word_of_int s"
    and p: "rb_buffer b ! nat (s mod rb_window_size b) = Some p" "length (data p) = 1407"
  shows "\<exists>hi. insertReceiverPacket b r n = Inr (b\<lparr>highest := hi,
      rb_buffer := (rb_buffer b)[nat (s mod rb_window_size b) := Some (stored_packet p s r n)]\<rparr>)"
proof -
  note d = rb_okD [OF ok]
  have sr: "0 \<le> s" "s < 2147483648" using s d(3) by (auto simp: int_range_def)
  have w: "rb_window_size b < 2147483648" using d(5) by (simp add: int_range_def)
  have "word_of_int s \<le> (word_of_int (expected b + rb_window_size b) :: u32)"
    using s sr d(1,2,3) by (subst word_le_of_int) (auto simp: int_range_def)
  then have win: "\<not> word_of_int s > (word_of_int (s32 (expected b + rb_window_size b)) :: u32)"
    by (simp only: not_less s32_id [OF d(3)] simp_thms)
  have idx: "s32 (uint ((word_of_int s :: u32) mod word_of_int (rb_window_size b)))
      = s mod rb_window_size b"
    using sr w d(1) pos_mod_bound [OF d(1), of s] pos_mod_sign [OF d(1), of s]
    by (simp add: word_mod_of_int) (intro s32_id, simp add: int_range_def)
  have "slot (rb_buffer b) (s mod rb_window_size b) = Inr (Some p)"
    using p(1) d(1,6) by (simp add: slot_def)
  then have "insertReceiverPacket b r n =
      (let b' = b\<lparr>rb_buffer := (rb_buffer b)[nat (s mod rb_window_size b) := Some (stored_packet p s r n)]\<rparr>
       in Inr (if (word_of_int s :: u32) > word_of_int (highest b)
               then b'\<lparr>highest := s\<rparr> else b'))"
    using n h p d(1) win idx sr
    by (simp add: insertReceiverPacket_def check_def Let_def sint_of_int stored_packet_def)
  then show ?thesis
    by (cases "(word_of_int s :: u32) > word_of_int (highest b)")
      (auto simp: Let_def intro: exI [of _ s] exI [of _ "highest b"])
qed

definition data_pdu :: "int \<Rightarrow> byte list \<Rightarrow> byte list" where
  "data_pdu s d = bytes32 (htonl (word_of_int s)) @ [0, 0, 16] @ d"

definition rb_put :: "ReceiverBuffer \<Rightarrow> int \<Rightarrow> byte list \<Rightarrow> fault + ReceiverBuffer" where
  "rb_put b s d = insertReceiverPacket b (data_pdu s d) (7 + int (length d))"

lemma data_pdu_facts:
  "length (data_pdu s d) = 7 + length d" "ntohl (load32 (data_pdu s d) 0) = word_of_int s"
  "drop 7 (data_pdu s d) = d"
  by (simp_all add: data_pdu_def)

lemma rb_put_eq:
  assumes "rb_ok b" "rb_accepts b s d"
  obtains p hi where "rb_buffer b ! nat (s mod rb_window_size b) = Some p" "length (data p) = 1407"
    "rb_put b s d = Inr (b\<lparr>highest := hi, rb_buffer := (rb_buffer b)[nat (s mod rb_window_size b) :=
       Some (stored_packet p s (data_pdu s d) (7 + int (length d)))]\<rparr>)"
proof -
  have w: "0 \<le> s mod rb_window_size b" "s mod rb_window_size b < rb_window_size b"
    using rb_okD(1) [OF assms(1)] by simp_all
  obtain p where p: "rb_buffer b ! nat (s mod rb_window_size b) = Some p" "length (data p) = 1407"
    using rb_ok_slot [OF assms(1) w] by metis
  have "\<exists>hi. rb_put b s d = Inr (b\<lparr>highest := hi, rb_buffer := (rb_buffer b)[nat (s mod rb_window_size b) :=
       Some (stored_packet p s (data_pdu s d) (7 + int (length d)))]\<rparr>)"
    unfolding rb_put_def
    by (rule insertReceiverPacket_eq [OF assms(1) _ _ _ _ _ data_pdu_facts(2) p])
      (use assms(2) in \<open>auto simp: rb_accepts_def data_pdu_facts\<close>)
  then show ?thesis using that p by blast
qed

lemma stored_packet_data:
  assumes "length (data p) = 1407" "length d \<le> 1400"
  shows "length (data (stored_packet p s (data_pdu s d) (7 + int (length d)))) = 1407"
    "take (length d) (drop 7 (data (stored_packet p s (data_pdu s d) (7 + int (length d))))) = d"
proof -
  have t: "take (nat (7 + int (length d))) (data_pdu s d) = data_pdu s d"
    by (simp add: data_pdu_facts)
  show "length (data (stored_packet p s (data_pdu s d) (7 + int (length d)))) = 1407"
    using assms by (simp add: stored_packet_def t data_pdu_facts)
  show "take (length d) (drop 7 (data (stored_packet p s (data_pdu s d) (7 + int (length d))))) = d"
    using data_pdu_facts(1,3) [of s d] by (simp add: stored_packet_def t memcpy_at_def)
qed

lemma mod_eq_iff_dvd: "(t::int) mod m = s mod m \<longleftrightarrow> m dvd (t - s)"
  by (rule mod_eq_dvd_iff)

lemma nth_ring_update:
  assumes "0 < m" "int (length xs) = m"
  shows "xs[nat (s mod m) := x] ! nat (t mod m) = (if m dvd (t - s) then x else xs ! nat (t mod m))"
proof -
  have "nat (s mod m) < length xs" using assms pos_mod_bound [of m s] by linarith
  moreover have "nat (s mod m) = nat (t mod m) \<longleftrightarrow> m dvd (t - s)"
    using assms(1) mod_eq_iff_dvd [of t m s] by (simp add: nat_eq_iff2)
  ultimately show ?thesis by (simp add: nth_list_update)
qed

lemma held_update:
  assumes "rb_ok b" "rb_buffer b' = (rb_buffer b)[nat (s mod rb_window_size b) := Some p]"
    "rb_window_size b' = rb_window_size b"
  shows "held b' t = (if rb_window_size b dvd (t - s)
     then if sequence_number p = t \<and> valid p = 1
          then Some (take (nat (data_size p)) (drop 7 (data p))) else None
     else held b t)"
  using rb_okD(1,6) [OF assms(1)] assms(2,3) by (simp add: held_def nth_ring_update)

lemma rb_ok_update:
  assumes "rb_ok b" "length (data p) = 1407" "0 \<le> data_size p" "data_size p \<le> 1400"
  shows "rb_ok (b\<lparr>highest := hi, rb_buffer := (rb_buffer b)[i := Some p]\<rparr>)"
  using assms set_update_subset_insert [of "rb_buffer b" i "Some p"]
  by (auto simp: rb_ok_def packet_ok_def MAX_PACKET_SIZE_def)

interpretation receiver_ring: packet_ring rb_put held rb_window_size rb_accepts rb_ok
proof
  fix b s d b' t e
  assume a: "rb_ok b" "rb_accepts b s d"
  then obtain p hi where p: "length (data p) = 1407" and
    eq: "rb_put b s d = Inr (b\<lparr>highest := hi, rb_buffer := (rb_buffer b)[nat (s mod rb_window_size b) :=
       Some (stored_packet p s (data_pdu s d) (7 + int (length d)))]\<rparr>)"
    using rb_put_eq by blast
  have l: "length d \<le> 1400" using a(2) by (simp add: rb_accepts_def)
  show "\<exists>b'. rb_put b s d = Inr b'" using eq by blast
  assume "rb_put b s d = Inr b'"
  then have b': "b' = b\<lparr>highest := hi, rb_buffer := (rb_buffer b)[nat (s mod rb_window_size b) :=
       Some (stored_packet p s (data_pdu s d) (7 + int (length d)))]\<rparr>" using eq by simp
  show "rb_ok b'" unfolding b' using a(1) stored_packet_data(1) [OF p l]
    by (rule rb_ok_update) (use l in \<open>simp_all add: stored_packet_def\<close>)
  show "rb_window_size b' = rb_window_size b" by (simp add: b')
  show "rb_accepts b' t e = rb_accepts b t e" by (simp add: b' rb_accepts_def)
  have "rb_buffer b' = (rb_buffer b)[nat (s mod rb_window_size b) :=
       Some (stored_packet p s (data_pdu s d) (7 + int (length d)))]" by (simp add: b')
  then show "held b' t = (if t = s then Some d else if rb_window_size b dvd (t - s) then None else held b t)"
    using held_update [OF a(1), of b' s] stored_packet_data(2) [OF p l, of s]
    by (auto simp: b' stored_packet_def)
qed (simp add: rb_ok_def)

section \<open>Flushing\<close>

text \<open>
  \<open>flush_len\<close>: of a held payload all but the last seven bytes are written,
  because \<open>data_size\<close> already excludes the header that \<open>flushBuffer\<close>
  subtracts again.
\<close>

definition flushed :: "byte list \<Rightarrow> byte list" where
  "flushed d = take (length d - 7) d"

lemma flush_slot_held:
  assumes "rb_ok b" "held b (expected b) = Some d"
  obtains p where "flush_slot b = Inr (Some (expected b mod rb_window_size b, p))"
    "rb_buffer b ! nat (expected b mod rb_window_size b) = Some p"
    "length (data p) = 1407" "data_size p \<le> 1400" "d = take (nat (data_size p)) (drop 7 (data p))" "0 \<le> data_size p"
proof -
  note o = rb_okD [OF assms(1)]
  have w: "0 \<le> expected b mod rb_window_size b" "expected b mod rb_window_size b < rb_window_size b"
    using o(1) by simp_all
  obtain p where p: "rb_buffer b ! nat (expected b mod rb_window_size b) = Some p"
    "length (data p) = 1407" "data_size p \<le> 1400" "0 \<le> data_size p"
    using rb_ok_slot [OF assms(1) w] by metis
  have "flush_slot b = Inr (Some (expected b mod rb_window_size b, p))"
    using assms(2) o w p(1)
    by (auto simp: flush_slot_def check_def cmod_nonneg slot_def held_def Let_def split: if_splits)
  then show ?thesis using that p assms(2) by (auto simp: held_def split: if_splits)
qed

lemma flush_slot_missing:
  assumes "rb_ok b" "held b (expected b) = None"
  shows "flush_slot b = Inr None"
proof -
  note o = rb_okD [OF assms(1)]
  have w: "0 \<le> expected b mod rb_window_size b" "expected b mod rb_window_size b < rb_window_size b"
    using o(1) by simp_all
  then show ?thesis
    using assms(2) o
    by (auto simp: flush_slot_def check_def cmod_nonneg slot_def held_def Let_def
        split: option.splits if_splits)
qed

lemma flush_bytes_flushed:
  assumes "length (data p) = 1407" "data_size p \<le> 1400"
    "d = take (nat (data_size p)) (drop 7 (data p))" "7 \<le> length d"
  shows "flush_bytes p = Inr (flushed d)"
proof -
  have l: "length d = nat (data_size p)" using assms(1,2,3) by simp
  then have n: "7 \<le> data_size p" using assms(4) by linarith
  then have "s32 (data_size p - 7) = data_size p - 7"
    using assms(2) by (intro s32_id) (simp add: int_range_def)
  then show ?thesis
    using assms(1,2,3) l n
    by (simp add: flush_bytes_def flushed_def check_def Let_def min_def nat_diff_distrib)
qed

lemma flush_bytes_short:
  assumes "length (data p) = 1407" "0 \<le> data_size p" "data_size p < 7"
  shows "flush_bytes p = Inl OutOfBounds"
proof -
  have "s32 (data_size p - 7) = data_size p - 7"
    using assms(2,3) by (intro s32_id) (simp add: int_range_def)
  then show ?thesis using assms by (simp add: flush_bytes_def check_def Let_def)
qed

lemma clear_slot_facts:
  assumes "rb_ok b" "expected b + 1 + rb_window_size b < 2147483648" "index = expected b mod rb_window_size b"
  shows "rb_ok (clear_slot b index p)" "expected (clear_slot b index p) = expected b + 1"
    and "rb_window_size (clear_slot b index p) = rb_window_size b"
    and "held (clear_slot b index p) t =
      (if rb_window_size b dvd (t - expected b) then None else held b t)"
proof -
  have e: "s32 (expected b + 1) = expected b + 1"
    using rb_okD(1,2) [OF assms(1)] assms(2) by (intro s32_id) (simp add: int_range_def)
  show "rb_ok (clear_slot b index p)"
    using assms(1,2) e set_update_subset_insert [of "rb_buffer b" "nat index"]
    by (fastforce simp: clear_slot_def rb_ok_def packet_ok_def MAX_PACKET_SIZE_def)
  show "expected (clear_slot b index p) = expected b + 1" by (simp add: clear_slot_def e)
  show "rb_window_size (clear_slot b index p) = rb_window_size b" by (simp add: clear_slot_def)
  show "held (clear_slot b index p) t =
      (if rb_window_size b dvd (t - expected b) then None else held b t)"
    using held_update [OF assms(1), of "clear_slot b index p" "expected b"]
    by (simp add: clear_slot_def assms(3))
qed

lemma Ex_less_Suc_shift:
  "(\<exists>i < Suc n. (w::int) dvd (t - (e + int i))) \<longleftrightarrow> w dvd (t - e) \<or> (\<exists>i < n. w dvd (t - (e + 1 + int i)))"
  by (simp add: Ex_less_Suc2 algebra_simps)

lemma flush_loop_run:
  assumes "rb_ok b" "expected b + int (length ds) + rb_window_size b < 2147483648"
    "\<And>i. i < length ds \<Longrightarrow> held b (expected b + int i) = Some (ds ! i) \<and> 7 \<le> length (ds ! i)"
    "held b (expected b + int (length ds)) = None" "int (length ds) \<le> rb_window_size b"
  shows "\<exists>b'. flush_loop b out n = Inr (n + int (length ds), b', out @ concat (map flushed ds))
     \<and> rb_ok b' \<and> expected b' = expected b + int (length ds)
     \<and> rb_window_size b' = rb_window_size b \<and> highest b' = highest b
     \<and> (\<forall>t. held b' t = (if \<exists>i < length ds. rb_window_size b dvd (t - (expected b + int i))
                           then None else held b t))"
  using assms
proof (induction ds arbitrary: b out n)
  case Nil
  then show ?case by (simp add: flush_loop.simps [of b] flush_slot_missing)
next
  case (Cons d ds)
  have h: "held b (expected b) = Some d" "7 \<le> length d" using Cons.prems(3) [of 0] by simp_all
  obtain p where p: "flush_slot b = Inr (Some (expected b mod rb_window_size b, p))"
      "length (data p) = 1407" "data_size p \<le> 1400" "d = take (nat (data_size p)) (drop 7 (data p))"
    using flush_slot_held [OF Cons.prems(1) h(1)] by metis
  let ?b = "clear_slot b (expected b mod rb_window_size b) p"
  have step: "flush_loop b out n = flush_loop ?b (out @ flushed d) (n + 1)"
    by (simp add: flush_loop.simps [of b] p(1) flush_bytes_flushed [OF p(2-4) h(2)])
  have sz: "expected b + 1 + rb_window_size b < 2147483648" using Cons.prems(2) by simp
  note c = clear_slot_facts [OF Cons.prems(1) sz refl, of p]
  have hi: "highest ?b = highest b" by (simp add: clear_slot_def)
  have apart: "\<not> rb_window_size b dvd (expected b + 1 + int i - expected b)" if "i < length ds" for i
    using that Cons.prems(5) zdvd_imp_le [of "rb_window_size b" "1 + int i"] by auto
  have "\<exists>b'. flush_loop ?b (out @ flushed d) (n + 1) =
        Inr (n + 1 + int (length ds), b', (out @ flushed d) @ concat (map flushed ds))
     \<and> rb_ok b' \<and> expected b' = expected ?b + int (length ds)
     \<and> rb_window_size b' = rb_window_size ?b \<and> highest b' = highest ?b
     \<and> (\<forall>t. held b' t = (if \<exists>i < length ds. rb_window_size ?b dvd (t - (expected ?b + int i))
                           then None else held ?b t))"
  proof (rule Cons.IH)
    show "rb_ok ?b" by (rule c(1))
    show "expected ?b + int (length ds) + rb_window_size ?b < 2147483648"
      using Cons.prems(2) by (simp add: c(2,3))
    show "held ?b (expected ?b + int i) = Some (ds ! i) \<and> 7 \<le> length (ds ! i)" if "i < length ds" for i
      using Cons.prems(3) [of "Suc i"] that apart [OF that] by (simp add: c algebra_simps)
    show "held ?b (expected ?b + int (length ds)) = None"
      using Cons.prems(4) by (simp add: c algebra_simps)
    show "int (length ds) \<le> rb_window_size ?b" using Cons.prems(5) by (simp add: c(3))
  qed
  then obtain b' where b': "flush_loop ?b (out @ flushed d) (n + 1) =
        Inr (n + 1 + int (length ds), b', (out @ flushed d) @ concat (map flushed ds))"
     "rb_ok b'" "expected b' = expected b + 1 + int (length ds)"
     "rb_window_size b' = rb_window_size b" "highest b' = highest b"
     "\<And>t. held b' t = (if \<exists>i < length ds. rb_window_size b dvd (t - (expected b + 1 + int i))
                           then None else held ?b t)"
    by (auto simp: c(2,3) hi)
  have "held b' t = (if \<exists>i < length (d # ds). rb_window_size b dvd (t - (expected b + int i))
      then None else held b t)" for t
    using b'(6) [of t] by (auto simp: c(4) Ex_less_Suc_shift)
  then show ?case using step b' by (simp add: algebra_simps)
qed

text \<open>A payload of fewer than seven bytes in the run makes the length passed to \<open>fwrite\<close> wrap around.\<close>

lemma flush_loop_short:
  assumes "rb_ok b" "expected b + int (length ds) + rb_window_size b < 2147483648"
    "\<And>i. i < length ds \<Longrightarrow> held b (expected b + int i) = Some (ds ! i)"
    "int (length ds) \<le> rb_window_size b" "\<exists>d \<in> set ds. length d < 7"
  shows "flush_loop b out n = Inl OutOfBounds"
  using assms
proof (induction ds arbitrary: b out n)
  case (Cons d ds)
  have h: "held b (expected b) = Some d" using Cons.prems(3) [of 0] by simp
  obtain p where p: "flush_slot b = Inr (Some (expected b mod rb_window_size b, p))"
      "length (data p) = 1407" "data_size p \<le> 1400" "d = take (nat (data_size p)) (drop 7 (data p))" "0 \<le> data_size p"
    using flush_slot_held [OF Cons.prems(1) h] by metis
  show ?case
  proof (cases "length d < 7")
    case True
    then have "data_size p < 7" using p(2-5) by (simp add: min_def split: if_splits)
    then show ?thesis using p(1) flush_bytes_short [OF p(2,5)] by (simp add: flush_loop.simps [of b])
  next
    case False
    let ?b = "clear_slot b (expected b mod rb_window_size b) p"
    have "7 \<le> length d" using False by simp
    then have step: "flush_loop b out n = flush_loop ?b (out @ flushed d) (n + 1)"
      by (simp add: flush_loop.simps [of b] p(1) flush_bytes_flushed [OF p(2-4)])
    have sz: "expected b + 1 + rb_window_size b < 2147483648" using Cons.prems(2) by simp
    note c = clear_slot_facts [OF Cons.prems(1) sz refl, of p]
    have apart: "\<not> rb_window_size b dvd (expected b + 1 + int i - expected b)" if "i < length ds" for i
      using that Cons.prems(4) zdvd_imp_le [of "rb_window_size b" "1 + int i"] by auto
    have "flush_loop ?b (out @ flushed d) (n + 1) = Inl OutOfBounds"
    proof (rule Cons.IH)
      show "held ?b (expected ?b + int i) = Some (ds ! i)" if "i < length ds" for i
        using Cons.prems(3) [of "Suc i"] that apart [OF that] by (simp add: c algebra_simps)
    qed (use Cons.prems(2,4,5) False in \<open>auto simp: c\<close>)
    then show ?thesis by (simp add: step)
  qed
qed simp

section \<open>The sender's window as a ring\<close>

definition sw_ok :: "SenderWindow \<Rightarrow> bool" where
  "sw_ok w \<longleftrightarrow> 0 < sw_window_size w \<and> sw_window_size w < 2147483648
     \<and> int (length (sw_buffer w)) = sw_window_size w
     \<and> (\<forall>o' \<in> set (sw_buffer w). case o' of None \<Rightarrow> True | Some p \<Rightarrow> length (data p) = MAX_PACKET_SIZE)"

definition sw_slot :: "SenderWindow \<Rightarrow> int \<Rightarrow> Packet option" where
  "sw_slot w s = sw_buffer w ! nat (s mod sw_window_size w)"

definition in_flight :: "SenderWindow \<Rightarrow> int \<Rightarrow> byte list option" where
  "in_flight w s =
     (case sw_slot w s of None \<Rightarrow> None
      | Some p \<Rightarrow> if sequence_number p = s then Some (take (nat (data_size p)) (data p)) else None)"

definition sw_accepts :: "SenderWindow \<Rightarrow> int \<Rightarrow> byte list \<Rightarrow> bool" where
  "sw_accepts w s d \<longleftrightarrow> 0 \<le> s \<and> length d \<le> 1407 \<and> sw_slot w s \<noteq> None"

definition sw_put :: "SenderWindow \<Rightarrow> int \<Rightarrow> byte list \<Rightarrow> fault + SenderWindow" where
  "sw_put w s d = insertPacketIntoWindow w s d (int (length d))"

lemma sw_okD:
  assumes "sw_ok w"
  shows "0 < sw_window_size w" "int (length (sw_buffer w)) = sw_window_size w"
    "sw_slot w s = Some p \<Longrightarrow> length (data p) = 1407"
proof -
  show 1: "0 < sw_window_size w" "int (length (sw_buffer w)) = sw_window_size w"
    using assms by (simp_all add: sw_ok_def)
  have "nat (s mod sw_window_size w) < length (sw_buffer w)"
    using 1 pos_mod_bound [OF 1(1), of s] by linarith
  then have "sw_slot w s \<in> set (sw_buffer w)" by (simp add: sw_slot_def)
  then show "sw_slot w s = Some p \<Longrightarrow> length (data p) = 1407"
    using assms by (fastforce simp: sw_ok_def MAX_PACKET_SIZE_def)
qed

lemma sender_slot_eq:
  assumes "sw_ok w" "0 \<le> s"
  shows "sender_index w s = Inr (s mod sw_window_size w)"
    "slot (sw_buffer w) (s mod sw_window_size w) = Inr (sw_slot w s)"
    "sender_slot w s = Inr (sw_slot w s)"
proof -
  note o = sw_okD(1,2) [OF assms(1)]
  show 1: "sender_index w s = Inr (s mod sw_window_size w)"
    using o assms(2) by (simp add: sender_index_def check_def cmod_nonneg)
  show 2: "slot (sw_buffer w) (s mod sw_window_size w) = Inr (sw_slot w s)"
    using o by (simp add: slot_def sw_slot_def)
  show "sender_slot w s = Inr (sw_slot w s)" by (simp add: sender_slot_def 1 2)
qed

definition sent_packet :: "Packet \<Rightarrow> int \<Rightarrow> byte list \<Rightarrow> Packet" where
  "sent_packet p s d = p\<lparr>sequence_number := s, data := memcpy_at (data p) 0 d,
     data_size := int (length d), ACK := 0\<rparr>"

lemma sw_put_eq:
  assumes "sw_ok w" "sw_accepts w s d"
  obtains p where "sw_slot w s = Some p" "length (data p) = 1407"
    "sw_put w s d = Inr (w\<lparr>sw_buffer := (sw_buffer w)[nat (s mod sw_window_size w) := Some (sent_packet p s d)]\<rparr>)"
proof -
  obtain p where p: "sw_slot w s = Some p" using assms(2) by (auto simp: sw_accepts_def)
  note l = sw_okD(3) [OF assms(1) p]
  have "sw_put w s d = Inr (w\<lparr>sw_buffer := (sw_buffer w)[nat (s mod sw_window_size w) := Some (sent_packet p s d)]\<rparr>)"
    using assms(2) p l sender_slot_eq [OF assms(1), of s]
    by (simp add: sw_put_def insertPacketIntoWindow_def sw_accepts_def check_def sent_packet_def Let_def)
  then show ?thesis using that p l by blast
qed

lemma sw_slot_update:
  assumes "sw_ok w" "sw_buffer w' = (sw_buffer w)[nat (s mod sw_window_size w) := x]"
    "sw_window_size w' = sw_window_size w"
  shows "sw_slot w' t = (if sw_window_size w dvd (t - s) then x else sw_slot w t)"
  using sw_okD(1,2) [OF assms(1)] assms(2,3) by (simp add: sw_slot_def nth_ring_update)

lemma sw_ok_update:
  assumes "sw_ok w" "\<And>p. x = Some p \<Longrightarrow> length (data p) = 1407"
  shows "sw_ok (w\<lparr>sw_buffer := (sw_buffer w)[i := x]\<rparr>)"
  using assms set_update_subset_insert [of "sw_buffer w" i x]
  by (fastforce simp: sw_ok_def MAX_PACKET_SIZE_def split: option.splits)

interpretation sender_ring: packet_ring sw_put in_flight sw_window_size sw_accepts sw_ok
proof
  fix w s d w' t e
  assume a: "sw_ok w" "sw_accepts w s d"
  then obtain p where p: "sw_slot w s = Some p" "length (data p) = 1407" and
    eq: "sw_put w s d = Inr (w\<lparr>sw_buffer := (sw_buffer w)[nat (s mod sw_window_size w) := Some (sent_packet p s d)]\<rparr>)"
    using sw_put_eq by blast
  have l: "length d \<le> 1407" using a(2) by (simp add: sw_accepts_def)
  have sp: "length (data (sent_packet p s d)) = 1407"
    "take (length d) (data (sent_packet p s d)) = d"
    using p(2) l by (simp_all add: sent_packet_def memcpy_at_def)
  show "\<exists>w'. sw_put w s d = Inr w'" using eq by blast
  assume "sw_put w s d = Inr w'"
  then have w': "w' = w\<lparr>sw_buffer := (sw_buffer w)[nat (s mod sw_window_size w) := Some (sent_packet p s d)]\<rparr>"
    using eq by simp
  show "sw_ok w'" unfolding w' by (rule sw_ok_update [OF a(1)]) (use sp in auto)
  show "sw_window_size w' = sw_window_size w" by (simp add: w')
  have u: "sw_slot w' t = (if sw_window_size w dvd (t - s) then Some (sent_packet p s d) else sw_slot w t)" for t
    by (rule sw_slot_update [OF a(1)]) (simp_all add: w')
  have same: "sw_slot w t = sw_slot w s" if "sw_window_size w dvd (t - s)" for t
    using that mod_eq_iff_dvd [of t "sw_window_size w" s] by (simp add: sw_slot_def)
  show "sw_accepts w' t e = sw_accepts w t e"
    using p(1) same [of t] by (auto simp: sw_accepts_def u)
  show "in_flight w' t = (if t = s then Some d else if sw_window_size w dvd (t - s) then None else in_flight w t)"
    using sp(2) by (auto simp: in_flight_def u) (simp_all add: sent_packet_def)
qed (simp add: sw_ok_def)

section \<open>Sliding the window\<close>

lemma release_slots_eq:
  assumes "sw_ok w" "0 \<le> i"
  shows "\<exists>w'. release_slots w i n = Inr w' \<and> sw_ok w' \<and> sw_window_size w' = sw_window_size w
     \<and> lower w' = lower w \<and> upper w' = upper w \<and> current w' = current w
     \<and> (\<forall>t. sw_slot w' t =
          (if \<exists>k < n. sw_window_size w dvd (t - (i + int k)) then None else sw_slot w t))"
  using assms
proof (induction n arbitrary: w i)
  case (Suc n)
  let ?w = "w\<lparr>sw_buffer := (sw_buffer w)[nat (i mod sw_window_size w) := None]\<rparr>"
  have ok: "sw_ok ?w" by (rule sw_ok_update [OF Suc.prems(1)]) simp
  have u: "sw_slot ?w t = (if sw_window_size w dvd (t - i) then None else sw_slot w t)" for t
    by (rule sw_slot_update [OF Suc.prems(1)]) simp_all
  obtain w' where w': "release_slots ?w (i + 1) n = Inr w'" "sw_ok w'"
      "sw_window_size w' = sw_window_size w"
      "lower w' = lower w" "upper w' = upper w" "current w' = current w"
      "\<And>t. sw_slot w' t =
        (if \<exists>k < n. sw_window_size w dvd (t - (i + 1 + int k)) then None else sw_slot ?w t)"
    using Suc.IH [OF ok, of "i + 1"] Suc.prems(2) by auto
  have ex: "(\<exists>k < Suc n. sw_window_size w dvd (t - (i + int k))) \<longleftrightarrow>
      sw_window_size w dvd (t - i) \<or> (\<exists>k < n. sw_window_size w dvd (t - (i + 1 + int k)))" for t
    by (simp add: Ex_less_Suc2 algebra_simps)
  have "release_slots w i (Suc n) = Inr w'"
    using w'(1) sender_slot_eq(1,2) [OF Suc.prems] by simp
  then show ?case using w' u ex by (intro exI [of _ w']) auto
qed simp

lemma advanceSenderWindow_eq:
  assumes "sw_ok w" "0 \<le> lower w" "lower w < n" "n + sw_window_size w \<le> 2147483648"
  shows "\<exists>w'. advanceSenderWindow w n = Inr w' \<and> sw_ok w' \<and> sw_window_size w' = sw_window_size w
     \<and> lower w' = n \<and> upper w' = n + sw_window_size w - 1 \<and> current w' = current w
     \<and> (\<forall>t. sw_slot w' t =
          (if \<exists>k. lower w \<le> k \<and> k < n \<and> sw_window_size w dvd (t - k) then None else sw_slot w t))"
proof -
  obtain w' where w': "release_slots w (lower w) (nat (n - lower w)) = Inr w'" "sw_ok w'"
      "sw_window_size w' = sw_window_size w" "current w' = current w"
      "\<And>t. sw_slot w' t =
        (if \<exists>k < nat (n - lower w). sw_window_size w dvd (t - (lower w + int k)) then None else sw_slot w t)"
    using release_slots_eq [OF assms(1,2), of "nat (n - lower w)"] by auto
  have ex: "(\<exists>k < nat (n - lower w). sw_window_size w dvd (t - (lower w + int k))) \<longleftrightarrow>
      (\<exists>k. lower w \<le> k \<and> k < n \<and> sw_window_size w dvd (t - k))" for t
  proof
    assume "\<exists>k. lower w \<le> k \<and> k < n \<and> sw_window_size w dvd (t - k)"
    then obtain k where "lower w \<le> k" "k < n" "sw_window_size w dvd (t - k)" by blast
    then show "\<exists>k < nat (n - lower w). sw_window_size w dvd (t - (lower w + int k))"
      by (intro exI [of _ "nat (k - lower w)"]) auto
  next
    assume "\<exists>k < nat (n - lower w). sw_window_size w dvd (t - (lower w + int k))"
    then obtain k where "k < nat (n - lower w)" "sw_window_size w dvd (t - (lower w + int k))" by blast
    then show "\<exists>k. lower w \<le> k \<and> k < n \<and> sw_window_size w dvd (t - k)"
      by (intro exI [of _ "lower w + int k"]) auto
  qed
  have up: "s32 (s32 (n + sw_window_size w) - 1) = n + sw_window_size w - 1"
  proof -
    have "s32 (s32 x - 1) = s32 (x - 1)" for x
      by (simp add: s32_def)
    then show ?thesis using assms sw_okD(1) [OF assms(1)] by (simp add: int_range_def)
  qed
  have slot_cong: "sw_slot (w'\<lparr>lower := a, upper := b\<rparr>) t = sw_slot w' t" for a b t
    by (simp add: sw_slot_def)
  have "sw_ok (w'\<lparr>lower := a, upper := b\<rparr>)" for a b using w'(2) by (simp add: sw_ok_def)
  then show ?thesis using w' up assms(3) ex
    by (simp add: advanceSenderWindow_def slot_cong)
qed

lemma advanceSenderWindow_stale: "n \<le> lower w \<Longrightarrow> advanceSenderWindow w n = Inr w"
  by (simp add: advanceSenderWindow_def)

section \<open>Initialisation\<close>

lemma alloc_packets_ok:
  assumes "\<And>j. k \<le> j \<Longrightarrow> h j \<noteq> None"
  shows "\<exists>ps. alloc_packets h k n = (Some ps, k + n) \<and> length ps = n
     \<and> (\<forall>p \<in> set ps. length (data p) = 1407)"
  using assms
proof (induction n arbitrary: k)
  case (Suc n)
  obtain g where g: "h k = Some g" using Suc.prems [of k] by auto
  obtain ps where "alloc_packets h (Suc k) n = (Some ps, Suc k + n)" "length ps = n"
      "\<forall>p \<in> set ps. length (data p) = 1407"
    using Suc.IH [of "Suc k"] Suc.prems by auto
  with g show ?case by (simp add: fresh_packet_def junk_bytes_def MAX_PACKET_SIZE_def)
qed simp

lemma initReceiverBuffer_ok:
  assumes "\<And>j. k \<le> j \<Longrightarrow> h j \<noteq> None" "0 < ws" "ws < 2147483648"
  obtains b k' where "initReceiverBuffer h k bs ws = (Some b, k')" "rb_ok b" "expected b = 0"
    "highest b = - 1" "rb_window_size b = ws" "rb_buffer_size b = bs" "\<And>t. held b t = None"
proof -
  obtain g where g: "h k = Some g" using assms(1) [of k] by auto
  obtain ps where ps: "alloc_packets h (k + 2) (nat ws) = (Some ps, k + 2 + nat ws)" "length ps = nat ws"
    using alloc_packets_ok [of "k + 2" h "nat ws"] assms(1) by auto
  obtain b where b: "initReceiverBuffer h k bs ws = (Some b, k + 2 + nat ws)"
    "rb_buffer b = map (\<lambda>p. Some (blank_packet p)) ps" "rb_window_size b = ws" "rb_buffer_size b = bs"
    "expected b = 0" "highest b = - 1"
    using g ps(1) assms(1) [of "k + 1"] assms(2) by (auto simp: initReceiverBuffer_def)
  have "rb_ok b"
    using b ps(2) assms(2,3)
    by (auto simp: rb_ok_def packet_ok_def blank_packet_def MAX_PACKET_SIZE_def)
  moreover have "held b t = None" for t
  proof -
    have "nat (t mod ws) < length ps" using assms(2) ps(2) pos_mod_bound [of ws t] by simp
    then show ?thesis using b by (simp add: held_def blank_packet_def)
  qed
  ultimately show ?thesis using that b by blast
qed

lemma initSenderWindow_ok:
  assumes "\<And>j. k \<le> j \<Longrightarrow> h j \<noteq> None" "0 < ws" "ws < 2147483648"
  obtains w k' where "initSenderWindow h k ws = (Some w, k')" "sw_ok w" "lower w = 0"
    "upper w = ws" "current w = 0" "sw_window_size w = ws" "\<And>t. sw_slot w t \<noteq> None"
proof -
  obtain g where g: "h k = Some g" using assms(1) [of k] by auto
  obtain ps where ps: "alloc_packets h (k + 2) (nat ws) = (Some ps, k + 2 + nat ws)" "length ps = nat ws"
      "\<forall>p \<in> set ps. length (data p) = 1407"
    using alloc_packets_ok [of "k + 2" h "nat ws"] assms(1) by auto
  obtain w where w: "initSenderWindow h k ws = (Some w, k + 2 + nat ws)" "sw_buffer w = map Some ps"
    "sw_window_size w = ws" "lower w = 0" "upper w = ws" "current w = 0"
    using g ps(1) assms(1) [of "k + 1"] assms(2) by (auto simp: initSenderWindow_def)
  have "sw_ok w" using w ps assms(2,3) by (auto simp: sw_ok_def MAX_PACKET_SIZE_def)
  moreover have "sw_slot w t \<noteq> None" for t
  proof -
    have "nat (t mod ws) < length ps" using assms(2) ps(2) pos_mod_bound [of ws t] by simp
    then show ?thesis using w by (simp add: sw_slot_def)
  qed
  ultimately show ?thesis using that w by blast
qed

end
