(* ===== verification/World.thy ===== *)
theory World
  imports PollLib ErrorChannel Window
begin

text \<open>
  The process environment of both programs: the poll set and the packet manager (their
  libraries' global state), and what the operating system answers. Answers of
  \<open>poll(2)\<close> and \<open>recvfrom(2)\<close> are scripts that the calls consume; a
  call with no answer left blocks and the run ends there. Whether a \<open>sendto(2)\<close>
  succeeds, what an allocation returns and the random numbers are functions of the
  call's number. \<open>sent\<close> lists the datagrams handed to \<open>sendto(2)\<close>.

  The programs extend the record by their own globals, so every operation here works
  on any extension and leaves the extension alone.
\<close>

section \<open>State\<close>

text \<open>A socket address; the port is in network byte order.\<close>

record sockaddr =
  sin6_addr :: "128 word"
  sin6_port :: u16

datatype recv_event = RecvError | Datagram sockaddr "byte list"

type_synonym datagram = "int \<times> sockaddr \<times> byte list"

text \<open>The other system calls, with the arguments that matter.\<close>

datatype sys_event =
    Sys_socket bool
  | Sys_bind int "128 word" u16
  | Sys_getsockname int
  | Sys_listen int int
  | Sys_accept int
  | Sys_connect int sockaddr
  | Sys_fork
  | Sys_waitpid
  | Sys_send int

record world =
  pset :: pollset
  pmgr :: PacketManager
  poll_q :: "(int \<times> int list) list"
  recv_q :: "recv_event list"
  send_ok :: "nat \<Rightarrow> bool"
  send_no :: nat
  sent :: "datagram list"
  closed :: "int list"
  sys_q :: "int list"
  sys_log :: "sys_event list"
  addr_info :: "byte list \<Rightarrow> (128 word) option"
  fs :: "byte list \<rightharpoonup> byte list"
  writable :: "byte list \<Rightarrow> bool"
  heap_fn :: heap
  heap_no :: nat
  drand48 :: "int \<Rightarrow> nat \<Rightarrow> rat"
  to_float :: "floating \<Rightarrow> floating"
  to_double :: "floating \<Rightarrow> floating"
  time_now :: int
  stack_junk :: "nat \<Rightarrow> byte"
  static_next :: byte

text \<open>
  \<open>stack_junk\<close> are the bytes an uninitialised local array holds;
  \<open>static_next\<close> is the byte of static storage behind the 113-byte filename buffer,
  which \<open>doSendFilenameState\<close> sends along. \<open>addr_info\<close> is the first
  address \<open>getaddrinfo(3)\<close> finds for a host. The remaining system calls take their
  answers from \<open>sys_q\<close> and are listed in \<open>sys_log\<close>.
\<close>

definition local_array :: "nat \<Rightarrow> 'z world_scheme \<Rightarrow> byte list" where
  "local_array n w = map (stack_junk w) [0..<n]"

definition syscall :: "sys_event \<Rightarrow> 'z world_scheme \<Rightarrow> ('z world_scheme, int) res" where
  "syscall e w =
     (case sys_q w of
        [] \<Rightarrow> Stop Blocked w
      | r # q \<Rightarrow> Ok r (w\<lparr>sys_q := q, sys_log := sys_log w @ [e]\<rparr>))"

section \<open>The poll set\<close>

definition on_pset :: "(pollset \<Rightarrow> (pollset, 'a) res) \<Rightarrow> 'z world_scheme \<Rightarrow> ('z world_scheme, 'a) res" where
  "on_pset m w = (case m (pset w) of Ok a ps \<Rightarrow> Ok a (w\<lparr>pset := ps\<rparr>) | Stop s ps \<Rightarrow> Stop s (w\<lparr>pset := ps\<rparr>))"

definition setupPollSet :: "'z world_scheme \<Rightarrow> ('z world_scheme, unit) res" where
  "setupPollSet w =
     on_pset (PollLib.setupPollSet (heap_fn w (heap_no w) \<noteq> None)) (w\<lparr>heap_no := heap_no w + 1\<rparr>)"

definition addToPollSet :: "int \<Rightarrow> 'z world_scheme \<Rightarrow> ('z world_scheme, unit) res" where
  "addToPollSet s w =
     on_pset (PollLib.addToPollSet (heap_fn w (heap_no w)) s) (w\<lparr>heap_no := heap_no w + 1\<rparr>)"

definition removeFromPollSet :: "int \<Rightarrow> 'z world_scheme \<Rightarrow> ('z world_scheme, unit) res" where
  "removeFromPollSet s w = on_pset (PollLib.removeFromPollSet s) w"

definition pollCall :: "int \<Rightarrow> 'z world_scheme \<Rightarrow> ('z world_scheme, int) res" where
  "pollCall timeInMilliSeconds w =
     (case poll_q w of
        [] \<Rightarrow> Stop Blocked w
      | a # q \<Rightarrow> on_pset (PollLib.pollCall a) (w\<lparr>poll_q := q\<rparr>))"

definition close_socket :: "int \<Rightarrow> 'z world_scheme \<Rightarrow> ('z world_scheme, unit) res" where
  "close_socket s w = Ok () (w\<lparr>closed := closed w @ [s]\<rparr>)"

section \<open>Datagrams\<close>

text \<open>
  \<open>recvfrom\<close>: \<open>buf\<close> is the buffer before the call; the result is the
  return value, the buffer after the call and the sender's address.
\<close>

definition recvfrom :: "byte list \<Rightarrow> nat \<Rightarrow> 'z world_scheme \<Rightarrow>
    ('z world_scheme, int \<times> byte list \<times> sockaddr option) res" where
  "recvfrom buf len w =
     (case recv_q w of
        [] \<Rightarrow> Stop Blocked w
      | RecvError # q \<Rightarrow> Ok (- 1, buf, None) (w\<lparr>recv_q := q\<rparr>)
      | Datagram src bs # q \<Rightarrow>
          let n = min len (length bs) in
          if length buf < n then Stop (Faulted OutOfBounds) w
          else Ok (int n, memcpy_at buf 0 (take n bs), Some src) (w\<lparr>recv_q := q\<rparr>))"

text \<open>
  \<open>PacketManager::sendto_Err\<close>. The datagram goes through the events on a copy; a
  dropped one is reported with its full length.
\<close>

definition deliver :: "int \<Rightarrow> int \<Rightarrow> sockaddr \<Rightarrow> int \<Rightarrow> byte list \<Rightarrow> 'z world_scheme \<Rightarrow>
    ('z world_scheme, int) res" where
  "deliver s len dest nResult pBuf w =
     (if nResult < 0 then Ok nResult w
      else if nResult = 0 \<or> nResult = 1
      then (if send_ok w (send_no w)
            then Ok len (w\<lparr>send_no := send_no w + 1, sent := sent w @ [(s, dest, pBuf)]\<rparr>)
            else Ok (- 1) (w\<lparr>send_no := send_no w + 1\<rparr>))
      else Ok len w)"

definition sendtoErr :: "int \<Rightarrow> byte list \<Rightarrow> int \<Rightarrow> sockaddr \<Rightarrow> 'z world_scheme \<Rightarrow>
    ('z world_scheme, int) res" where
  "sendtoErr s buf len dest w =
     (if len = 0 then Stop (Exited 1) w
      else bnd (lift (check (0 \<le> len \<and> len \<le> int (length buf) \<and> 7 \<le> length buf) OutOfBounds) w) (\<lambda>_ w.
        let pm = (pmgr w)\<lparr>m_MsgNo := m_MsgNo (pmgr w) + 1\<rparr>;
            bufTmp = take (nat len) buf
        in bnd (lift (processEvents (to_float w) (drand48 w (rand_seed pm)) pm bufTmp (m_MsgNo pm)) w)
          (\<lambda>(nResult, pBuf, pm) w. deliver s len dest nResult pBuf (w\<lparr>pmgr := pm\<rparr>))))"

text \<open>The call \<open>sendErr_init(rate, DROP_ON, FLIP_OFF, DEBUG_OFF, random)\<close> of both programs.\<close>

definition init_errors :: "floating \<Rightarrow> bool \<Rightarrow> 'z world_scheme \<Rightarrow> 'z world_scheme" where
  "init_errors rate random w =
     w\<lparr>pmgr := sendErr_init (to_float w) (time_now w) rate True False random (pmgr w)\<rparr>"

text \<open>
  \<open>forkMod\<close>, which replaces \<open>fork\<close>: every fork uses up a seed, and
  the child is seeded with it. The flag \<open>childProcess\<close> only affects logging.
\<close>

definition forkMod :: "'z world_scheme \<Rightarrow> ('z world_scheme, int) res" where
  "forkMod w =
     (let tempNextSeed = nextSeed (pmgr w);
          w = w\<lparr>pmgr := (pmgr w)\<lparr>nextSeed := s32 (tempNextSeed + 1)\<rparr>\<rparr>
      in bnd (syscall Sys_fork w) (\<lambda>returnValue w.
           Ok returnValue (if returnValue = 0
             then w\<lparr>pmgr := setUserMode_SeedRand tempNextSeed (pmgr w)\<rparr> else w)))"

section \<open>Memory and files\<close>

definition malloc :: "nat \<Rightarrow> 'z world_scheme \<Rightarrow> ('z world_scheme, byte list option) res" where
  "malloc n w = Ok (map_option (\<lambda>g. junk_bytes g 0 n) (heap_fn w (heap_no w))) (w\<lparr>heap_no := heap_no w + 1\<rparr>)"

text \<open>A file name is a NUL-terminated string in an array.\<close>

definition cstring :: "byte list \<Rightarrow> byte list" where
  "cstring a = takeWhile (\<lambda>c. c \<noteq> 0) a"

text \<open>\<open>fopen\<close> for writing (\<open>wb\<close>), appending (\<open>ab\<close>) and reading (\<open>rb\<close>).\<close>

definition fopen_wb :: "byte list \<Rightarrow> 'z world_scheme \<Rightarrow> ('z world_scheme, bool) res" where
  "fopen_wb name w =
     (if writable w name then Ok True (w\<lparr>fs := (fs w)(name \<mapsto> [])\<rparr>) else Ok False w)"

definition fopen_ab :: "byte list \<Rightarrow> 'z world_scheme \<Rightarrow> ('z world_scheme, bool) res" where
  "fopen_ab name w =
     (if writable w name
      then Ok True (if fs w name = None then w\<lparr>fs := (fs w)(name \<mapsto> [])\<rparr> else w)
      else Ok False w)"

definition fopen_rb :: "byte list \<Rightarrow> 'z world_scheme \<Rightarrow> byte list option" where
  "fopen_rb name w = fs w name"

definition file_contents :: "'z world_scheme \<Rightarrow> byte list \<Rightarrow> byte list" where
  "file_contents w name = (case fs w name of None \<Rightarrow> [] | Some c \<Rightarrow> c)"

definition fwrite :: "byte list \<Rightarrow> byte list \<Rightarrow> 'z world_scheme \<Rightarrow> 'z world_scheme" where
  "fwrite name bs w = w\<lparr>fs := (fs w)(name \<mapsto> file_contents w name @ bs)\<rparr>"

section \<open>What the operations change\<close>

text \<open>Each operation is an update of the fields it owns.\<close>

lemma pollCall_Ok:
  assumes "pollCall t w = Ok r w'"
  obtains ps q where "w' = w\<lparr>poll_q := q, pset := ps\<rparr>" "Suc (length q) = length (poll_q w)"
    "\<exists>a. PollLib.pollCall a (pset w) = Ok r ps"
  using assms
  by (auto simp: pollCall_def on_pset_def split: list.splits res.splits)

lemma recvfrom_Ok:
  assumes "recvfrom buf len w = Ok (n, buf', src) w'"
  obtains q where "w' = w\<lparr>recv_q := q\<rparr>" "Suc (length q) = length (recv_q w)"
    "length buf' = length buf" "n \<le> int len"
  using assms
  by (auto simp: recvfrom_def Let_def not_less split: list.splits recv_event.splits if_splits)

lemma addToPollSet_Ok:
  "addToPollSet s w = Ok r w' \<Longrightarrow> \<exists>ps k. w' = w\<lparr>heap_no := k, pset := ps\<rparr>"
  by (auto simp: addToPollSet_def on_pset_def split: res.splits)

lemma removeFromPollSet_Ok:
  "removeFromPollSet s w = Ok r w' \<Longrightarrow> \<exists>ps. w' = w\<lparr>pset := ps\<rparr>"
  by (auto simp: removeFromPollSet_def on_pset_def split: res.splits)

lemma sendtoErr_Ok:
  assumes "sendtoErr s buf len dest w = Ok r w'"
  obtains pm k ds where "w' = w\<lparr>pmgr := pm, send_no := k, sent := sent w @ ds\<rparr>"
    "ds = [] \<or> (\<exists>bs. ds = [(s, dest, bs)])"
proof -
  have d: "\<exists>k ds. w' = w\<lparr>pmgr := pm, send_no := k, sent := sent w @ ds\<rparr>
      \<and> (ds = [] \<or> (\<exists>bs. ds = [(s, dest, bs)]))"
    if "deliver s len dest n bs (w\<lparr>pmgr := pm\<rparr>) = Ok r w'" for n bs pm
  proof -
    have "w' = w\<lparr>pmgr := pm, send_no := send_no w, sent := sent w @ []\<rparr> \<or>
        w' = w\<lparr>pmgr := pm, send_no := send_no w + 1, sent := sent w @ []\<rparr> \<or>
        w' = w\<lparr>pmgr := pm, send_no := send_no w + 1, sent := sent w @ [(s, dest, bs)]\<rparr>"
      using that by (auto simp: deliver_def split: if_splits)
    then show ?thesis by blast
  qed
  obtain n bs pm where "deliver s len dest n bs (w\<lparr>pmgr := pm\<rparr>) = Ok r w'"
    using assms by (auto simp: sendtoErr_def bnd_Ok_iff lift_Ok_iff Let_def split: if_splits)
  from d [OF this] show ?thesis using that by blast
qed

text \<open>
  The configuration of the two programs: the packet manager only logs and drops, and
  the random numbers are in the documented range.
\<close>

definition channel_ok :: "'z world_scheme \<Rightarrow> bool" where
  "channel_ok w \<longleftrightarrow> drop_channel (pmgr w) \<and> (\<forall>sd k. 0 \<le> drand48 w sd k \<and> drand48 w sd k < 1)"

text \<open>On such a channel a send never stops the program and never alters the bytes.\<close>

lemma sendtoErr_total:
  assumes "channel_ok w" "0 < len" "len \<le> int (length buf)" "7 \<le> len"
  obtains r pm k ds where "sendtoErr s buf len dest w =
      Ok r (w\<lparr>pmgr := pm, send_no := k, sent := sent w @ ds\<rparr>)"
    "ds = [] \<or> ds = [(s, dest, take (nat len) buf)]" "r = len \<or> r = - 1 \<and> ds = [] \<and> \<not> send_ok w (send_no w)"
    "channel_ok (w\<lparr>pmgr := pm, send_no := k, sent := sent w @ ds\<rparr>)"
proof -
  let ?pm = "(pmgr w)\<lparr>m_MsgNo := m_MsgNo (pmgr w) + 1\<rparr>"
  have d: "drop_channel ?pm" using assms(1) by (simp add: channel_ok_def drop_channel_def)
  have "4 \<le> length (take (nat len) buf)" using assms(3,4) by (simp add: le_nat_iff)
  then obtain r pm where p: "processEvents (to_float w) (drand48 w (rand_seed (pmgr w))) ?pm
      (take (nat len) buf) (m_MsgNo (pmgr w) + 1) = Inr (r, take (nat len) buf, pm)"
    "r = 0 \<or> r = 2" "drop_channel pm"
    using processEvents_drop_channel [OF d, of "take (nat len) buf"
        "drand48 w (rand_seed (pmgr w))" "to_float w" "m_MsgNo (pmgr w) + 1"] assms
    by (auto simp: channel_ok_def)
  have c: "channel_ok (w\<lparr>pmgr := pm, send_no := k, sent := l\<rparr>)" for k l
    using assms(1) p(3) by (simp add: channel_ok_def)
  have e: "7 \<le> length buf" using assms(3,4) by linarith
  show ?thesis
  proof (cases "r = 0")
    case True
    show ?thesis
    proof (cases "send_ok w (send_no w)")
      case True
      with p \<open>r = 0\<close> e assms show ?thesis
        by (intro that [where r = len and pm = pm and k = "send_no w + 1" and ds = "[(s, dest, take (nat len) buf)]"] c)
          (simp_all add: sendtoErr_def deliver_def check_def Let_def)
    next
      case False
      with p \<open>r = 0\<close> e assms show ?thesis
        by (intro that [where r = "- 1" and pm = pm and k = "send_no w + 1" and ds = "[]"] c)
          (simp_all add: sendtoErr_def deliver_def check_def Let_def)
    qed
  next
    case False
    with p e assms show ?thesis
      by (intro that [where r = len and pm = pm and k = "send_no w" and ds = "[]"] c) (simp_all add: sendtoErr_def deliver_def check_def Let_def)
  qed
qed

section \<open>A network that accepts every datagram\<close>

definition reliable :: "'z world_scheme \<Rightarrow> bool" where
  "reliable w \<longleftrightarrow> drop_channel (pmgr w) \<and> (\<forall>k. send_ok w k)"

lemma sendtoErr_drop_channel:
  assumes "sendtoErr s buf len dest w = Ok r w'" "drop_channel (pmgr w)"
  shows "drop_channel (pmgr w')" "0 < len" "len \<le> int (length buf)" "send_ok w' = send_ok w"
    "sent w' = sent w \<or> sent w' = sent w @ [(s, dest, take (nat len) buf)]"
    "r = len \<or> r = - 1 \<and> \<not> send_ok w (send_no w)"
proof -
  let ?pm = "(pmgr w)\<lparr>m_MsgNo := m_MsgNo (pmgr w) + 1\<rparr>"
  have "drop_channel ?pm" using assms(2) by (simp add: drop_channel_def)
  moreover obtain n bs pm where p: "processEvents (to_float w) (drand48 w (rand_seed ?pm)) ?pm
      (take (nat len) buf) (m_MsgNo ?pm) = Inr (n, bs, pm)"
    "deliver s len dest n bs (w\<lparr>pmgr := pm\<rparr>) = Ok r w'" "0 < len" "len \<le> int (length buf)"
    using assms(1) by (auto simp: sendtoErr_def bnd_Ok_iff lift_Ok_iff Let_def check_def split: if_splits)
  ultimately have "bs = take (nat len) buf" "n = 0 \<or> n = 2" "drop_channel pm"
    by (auto dest: processEvents_drop_channel_Inr)
  then show "drop_channel (pmgr w')" "0 < len" "len \<le> int (length buf)" "send_ok w' = send_ok w"
    "sent w' = sent w \<or> sent w' = sent w @ [(s, dest, take (nat len) buf)]"
    "r = len \<or> r = - 1 \<and> \<not> send_ok w (send_no w)"
    using p by (auto simp: deliver_def split: if_splits)
qed

lemma sendtoErr_reliable:
  assumes "sendtoErr s buf len dest w = Ok r w'" "reliable w"
  shows "r = len" "reliable w'" "0 < len" "len \<le> int (length buf)"
    "sent w' = sent w \<or> sent w' = sent w @ [(s, dest, take (nat len) buf)]"
  using sendtoErr_drop_channel [OF assms(1)] assms(2) by (auto simp: reliable_def)

text \<open>
  A network that also drops nothing: the error rate is below every random number.
\<close>

definition lossless :: "'z world_scheme \<Rightarrow> bool" where
  "lossless w \<longleftrightarrow> channel_ok w \<and> (\<forall>k. send_ok w k)
     \<and> (\<forall>sd k. m_ErrorRate (pmgr w) < to_float w (Finite (drand48 w sd k)))"

lemma lossless_frame [simp]:
  "lossless (w\<lparr>sent := l\<rparr>) = lossless w" "lossless (w\<lparr>send_no := k\<rparr>) = lossless w"
  "lossless (w\<lparr>poll_q := q\<rparr>) = lossless w" "lossless (w\<lparr>recv_q := r\<rparr>) = lossless w"
  "lossless (w\<lparr>heap_no := h\<rparr>) = lossless w" "lossless (w\<lparr>fs := f\<rparr>) = lossless w"
  "lossless (w\<lparr>pset := ps\<rparr>) = lossless w"
  by (simp_all add: lossless_def channel_ok_def)

lemma sendtoErr_lossless:
  assumes "lossless w" "7 \<le> len" "len \<le> int (length buf)"
  obtains pm k where "sendtoErr s buf len dest w = Ok len (w\<lparr>pmgr := pm, send_no := k,
      sent := sent w @ [(s, dest, take (nat len) buf)]\<rparr>)"
    "drop_channel pm" "m_ErrorRate pm = m_ErrorRate (pmgr w)"
proof -
  let ?pm = "(pmgr w)\<lparr>m_MsgNo := m_MsgNo (pmgr w) + 1\<rparr>"
  have d: "drop_channel ?pm" "\<And>k. \<not> to_float w (Finite (drand48 w (rand_seed (pmgr w)) k)) \<le> m_ErrorRate ?pm"
    using assms(1) by (simp_all add: lossless_def channel_ok_def drop_channel_def floating_less_not_le)
  have l: "4 \<le> length (take (nat len) buf)" using assms(2,3) by (simp add: le_nat_iff)
  have c: "\<forall>e \<in> set (m_ErrorCase_Constant ?pm). only_logs e" using d(1) by (simp add: drop_channel_def)
  obtain es where es: "runMsgEvents (drand48 w (rand_seed (pmgr w))) (rand_pos ?pm) (m_ErrorCase_Constant ?pm)
      (take (nat len) buf) (m_MsgNo ?pm) False = Inr (of_bool False, es, take (nat len) buf, rand_pos ?pm)"
      "\<forall>e \<in> set es. only_logs e"
    using runMsgEvents_logs [OF c l, of "drand48 w (rand_seed (pmgr w))" "rand_pos ?pm" "m_MsgNo ?pm" False]
    by blast
  let ?pm' = "?pm\<lparr>m_ErrorCase_Constant := es, rand_pos := rand_pos ?pm + 1\<rparr>"
  have p: "processEvents (to_float w) (drand48 w (rand_seed (pmgr w))) ?pm (take (nat len) buf)
      (m_MsgNo ?pm) = Inr (0, take (nat len) buf, ?pm')"
    using es(1) d(2) by (simp add: processEvents_def Let_def)
  have "7 \<le> length buf" "send_ok w (send_no w)" using assms by (auto simp: lossless_def)
  then show ?thesis
    using p assms(2,3) d(1) es(2)
    by (intro that [where pm = ?pm' and k = "send_no w + 1"])
      (simp_all add: sendtoErr_def deliver_def check_def Let_def drop_channel_def)
qed

lemma lossless_init_errors:
  assumes "channel_ok w" "\<forall>k. send_ok w k" "\<not> env_ErrRate (pmgr w)"
    "\<forall>sd k. to_float w rate < to_float w (Finite (drand48 w sd k))"
  shows "lossless (init_errors rate rnd w)"
proof -
  have "m_ErrorRate (sendErr_init f n rate True False rnd (pmgr w)) = f rate" for f n
    using assms(3)
    by (simp add: sendErr_init_def Let_def setUserMode_ErrRate_def setUserMode_ErrDrop_def
        setUserMode_ErrFlip_def setUserMode_SeedRand_def addMsgEvent_Standard_def addMsgEvent_Random_def)
  then show ?thesis
    using assms by (simp add: lossless_def channel_ok_def init_errors_def sendErr_init_drop_channel)
qed

section \<open>Facts about every run\<close>

text \<open>
  The interface between the handlers and the facts proved about whole runs: a
  reflexive and transitive relation between the state before and after.
\<close>

locale effect_order =
  fixes R :: "'w \<Rightarrow> 'w \<Rightarrow> bool"
  assumes R_refl: "R w w"
    and R_trans: "R u v \<Longrightarrow> R v w \<Longrightarrow> R u w"
begin

lemma bnd_R:
  assumes "bnd m f = Ok b w2" "\<And>a w1. m = Ok a w1 \<Longrightarrow> R w w1"
    "\<And>a w1. m = Ok a w1 \<Longrightarrow> f a w1 = Ok b w2 \<Longrightarrow> R w1 w2"
  shows "R w w2"
  using assms by (auto elim!: bnd_Ok_E intro: R_trans)

lemma bnd_final:
  assumes "R w (final m)" "\<And>a w1. m = Ok a w1 \<Longrightarrow> R w w1 \<Longrightarrow> R w1 (final (f a w1))"
  shows "R w (final (bnd m f))"
  using assms by (cases m) (auto intro: R_trans)

lemma lift_final [simp]: "R w (final (lift m w))"
  by (cases m) (auto simp: R_refl)

lemma lift_R: "lift m w = Ok a w' \<Longrightarrow> R w w'"
  by (auto simp: lift_Ok_iff R_refl)

end


text \<open>The world a call leaves behind, whether it returns or stops.\<close>

lemma final_pollCall: "\<exists>ps q. final (pollCall t w) = w\<lparr>poll_q := q, pset := ps\<rparr>"
proof (cases "poll_q w")
  case Nil
  then have "final (pollCall t w) = w\<lparr>poll_q := poll_q w, pset := pset w\<rparr>" by (simp add: pollCall_def)
  then show ?thesis by blast
next
  case (Cons a q)
  then show ?thesis by (auto simp: pollCall_def on_pset_def split: res.splits)
qed

lemma final_recvfrom: "\<exists>q. final (recvfrom buf len w) = w\<lparr>recv_q := q\<rparr>"
proof -
  have "final (recvfrom buf len w) = w\<lparr>recv_q := recv_q w\<rparr> \<or>
      final (recvfrom buf len w) = w\<lparr>recv_q := tl (recv_q w)\<rparr>"
    by (auto simp: recvfrom_def Let_def split: list.splits recv_event.splits)
  then show ?thesis by blast
qed

lemma recv_q_recvfrom: "set (recv_q (final (recvfrom buf len w))) \<subseteq> set (recv_q w)"
  by (auto simp: recvfrom_def Let_def split: list.splits recv_event.splits)

lemma final_removeFromPollSet: "\<exists>ps. final (removeFromPollSet s w) = w\<lparr>pset := ps\<rparr>"
  by (auto simp: removeFromPollSet_def on_pset_def split: res.splits)

lemma final_addToPollSet: "\<exists>ps k. final (addToPollSet s w) = w\<lparr>heap_no := k, pset := ps\<rparr>"
  by (auto simp: addToPollSet_def on_pset_def split: res.splits)

lemma final_sendtoErr: "\<exists>pm k ds. final (sendtoErr s buf len dest w) = w\<lparr>pmgr := pm, send_no := k, sent := sent w @ ds\<rparr>
  \<and> (\<forall>d \<in> set ds. fst (snd d) = dest)"
proof (cases "sendtoErr s buf len dest w")
  case (Ok r w')
  obtain pm k ds where "w' = w\<lparr>pmgr := pm, send_no := k, sent := sent w @ ds\<rparr>"
      "ds = [] \<or> (\<exists>bs. ds = [(s, dest, bs)])"
    by (rule sendtoErr_Ok [OF Ok])
  with Ok show ?thesis by (intro exI [of _ pm] exI [of _ k] exI [of _ ds]) auto
next
  case (Stop r w')
  have "deliver s len dest n bs v \<noteq> Stop r w'" for n bs v by (simp add: deliver_def)
  then have "w' = w\<lparr>pmgr := pmgr w, send_no := send_no w, sent := sent w @ []\<rparr>"
    using Stop by (auto simp: sendtoErr_def Let_def bnd_Stop_iff lift_Stop_iff lift_Ok_iff split: if_splits)
  with Stop show ?thesis by (intro exI [of _ "pmgr w"] exI [of _ "send_no w"] exI [of _ "[]"]) simp
qed

lemma final_forkMod: "\<exists>pm q l. final (forkMod w) = w\<lparr>pmgr := pm, sys_q := q, sys_log := l\<rparr>"
proof (cases "sys_q w")
  case Nil
  then have "final (forkMod w) = w\<lparr>pmgr := (pmgr w)\<lparr>nextSeed := s32 (nextSeed (pmgr w) + 1)\<rparr>,
      sys_q := sys_q w, sys_log := sys_log w\<rparr>"
    by (simp add: forkMod_def Let_def syscall_def)
  then show ?thesis by blast
next
  case (Cons a q)
  let ?pm = "(pmgr w)\<lparr>nextSeed := s32 (nextSeed (pmgr w) + 1)\<rparr>"
  have "final (forkMod w) = w\<lparr>pmgr := (if a = 0 then setUserMode_SeedRand (nextSeed (pmgr w)) ?pm else ?pm),
      sys_q := q, sys_log := sys_log w @ [Sys_fork]\<rparr>"
    using Cons by (simp add: forkMod_def Let_def syscall_def)
  then show ?thesis by blast
qed

section \<open>One ready socket\<close>

text \<open>The answer of \<open>poll(2)\<close> when there is something to read on \<open>s\<close> and nothing below it.\<close>

definition ready :: "int \<Rightarrow> int \<times> int list" where
  "ready s = (1, replicate (nat s) 0 @ [1])"

lemma first_ready_at:
  assumes "k < length ps" "0 < revents (ps ! k)" "\<And>j. j < k \<Longrightarrow> \<not> 0 < revents (ps ! j)"
  shows "first_ready ps i = i + int k"
  using assms
proof (induction ps i arbitrary: k rule: first_ready.induct)
  case (2 p ps i)
  show ?case
  proof (cases k)
    case (Suc j)
    have "\<not> 0 < revents p" using "2.prems"(3) [of 0] Suc by simp
    moreover have "first_ready ps (i + 1) = i + 1 + int j"
      using "2.IH" [of j] calculation "2.prems" Suc by fastforce
    ultimately show ?thesis using Suc by simp
  qed (use "2.prems" in simp)
qed simp

lemma writes_keep: "ps_ok ps \<Longrightarrow> ps_ok (poll_writes revs ps)"
  "ps_ok ps \<Longrightarrow> registered ps s \<Longrightarrow> registered (poll_writes revs ps) s"
proof -
  have 1: "ps_ok (poll_writes revs ps)" if "ps_ok ps"
  proof -
    have "maxFileDescriptor (poll_writes revs ps) = maxFileDescriptor ps"
      "currentPollSetSize (poll_writes revs ps) = currentPollSetSize ps" by (simp_all add: poll_writes_def)
    then show ?thesis using that by (simp add: ps_ok_def)
  qed
  then show "ps_ok ps \<Longrightarrow> ps_ok (poll_writes revs ps)" .
  have "nat s < length (pollFileDescriptors ps)" if "ps_ok ps" "registered ps s"
    using that by (auto simp: ps_ok_def registered_def)
  moreover have "maxFileDescriptor (poll_writes revs ps) = maxFileDescriptor ps" by (simp add: poll_writes_def)
  ultimately show "ps_ok ps \<Longrightarrow> registered ps s \<Longrightarrow> registered (poll_writes revs ps) s"
    by (simp add: registered_def)
qed

lemma pollCall_ready:
  assumes "ps_ok (pset w)" "registered (pset w) s" "0 < s" "poll_q w = ready s # q"
  obtains ps where "pollCall t w = Ok s (w\<lparr>poll_q := q, pset := ps\<rparr>)" "ps_ok ps" "registered ps s"
proof -
  define revs where "revs = replicate (nat s) 0 @ [1 :: int]"
  let ?ps = "poll_writes revs (pset w)"
  let ?l = "take (nat (maxFileDescriptor ?ps)) (pollFileDescriptors ?ps)"
  have m: "maxFileDescriptor ?ps = maxFileDescriptor (pset w)" by (simp add: poll_writes_def)
  have n: "nat s < nat (maxFileDescriptor (pset w))"
      "nat (maxFileDescriptor (pset w)) \<le> length (pollFileDescriptors (pset w))"
    using assms(1-3) by (auto simp: registered_def ps_ok_def)
  have r: "revents (?l ! j) = revs ! j" if "j \<le> nat s" for j
  proof -
    have "j < nat (maxFileDescriptor (pset w))" "j < length (pollFileDescriptors (pset w))" using n that by linarith+
    then show ?thesis using that by (simp add: m) (simp add: revs_def)
  qed
  have "first_ready ?l 0 = 0 + int (nat s)"
    by (rule first_ready_at) (use n m r in \<open>auto simp: revs_def nth_append\<close>)
  then have "first_ready ?l 0 = s" using assms(3) by simp
  then have "pollCall t w = Ok s (w\<lparr>poll_q := q, pset := ?ps\<rparr>)"
    using assms(4) by (simp add: pollCall_def on_pset_def PollLib.pollCall_def Let_def ready_def revs_def)
  then show ?thesis by (rule that) (use writes_keep assms(1,2) in auto)
qed

lemma pollCall_timeout:
  "poll_q w = (0, revs) # q \<Longrightarrow> pollCall t w = Ok (- 1) (w\<lparr>poll_q := q, pset := poll_writes revs (pset w)\<rparr>)"
  by (simp add: pollCall_def on_pset_def PollLib.pollCall_def Let_def)

end
