(* ===== verification/Checksum.thy ===== *)
theory Checksum
  imports Prelude
begin

text \<open>
  The Internet checksum of \<^verbatim>\<open>libcpe464/checksum.c\<close> (\<open>in_cksum\<close>):
  16-bit words of the buffer are added in a 32-bit accumulator, the carries are
  folded back, and the complement is returned. The theory proves that this is the
  checksum of RFC 1071 and which bytes are read for it, that a packet
  whose checksum field was filled in verifies to zero, and that flipping one byte
  is always noticed.
\<close>

section \<open>The code\<close>

text \<open>
  The loop over the shorts of the buffer, with the odd byte mopped up at the end;
  the accumulator \<open>acc\<close> (\<open>sum\<close> in the code) is a 32-bit \<open>int\<close>.
\<close>

fun cksum_loop :: "int \<Rightarrow> byte list \<Rightarrow> int" where
  "cksum_loop acc (a # b # r) = cksum_loop (s32 (acc + uint (load16 [a, b] 0))) r"
| "cksum_loop acc [a] = s32 (acc + uint a)"
| "cksum_loop acc [] = acc"

text \<open>Folding the carries back in and complementing.\<close>

definition fold_carries :: "int \<Rightarrow> u16" where
  "fold_carries acc =
     (let t = s32 (drop_bit 16 acc + (acc AND 0xFFFF));
          u = s32 (t + drop_bit 16 t)
      in word_of_int (NOT u))"

definition in_cksum :: "byte list \<Rightarrow> u16" where
  "in_cksum bs = fold_carries (cksum_loop 0 bs)"

text \<open>
  The same loop with the pointer and the count of the code: \<open>mem\<close> is the memory from
  \<open>addr\<close> to the end of its block, \<open>p\<close> the offset of the pointer and
  \<open>nleft\<close> the count. Every read is checked against the block, so that the
  bytes the function reads can be told from those it is given.
\<close>

fun cksum_at :: "byte list \<Rightarrow> nat \<Rightarrow> nat \<Rightarrow> int \<Rightarrow> fault + int" where
  "cksum_at mem p nleft acc =
     (if 1 < nleft then
        sbind (check (p + 2 \<le> length mem) OutOfBounds) (\<lambda>_.
          cksum_at mem (p + 2) (nleft - 2) (s32 (acc + uint (load16 mem p))))
      else if nleft = 1 then
        sbind (check (p + 1 \<le> length mem) OutOfBounds) (\<lambda>_. Inr (s32 (acc + uint (mem ! p))))
      else Inr acc)"

declare cksum_at.simps [simp del]

definition in_cksum_at :: "byte list \<Rightarrow> nat \<Rightarrow> fault + u16" where
  "in_cksum_at mem len = sbind (cksum_at mem 0 len 0) (\<lambda>acc. Inr (fold_carries acc))"

lemma cksum_at_eq:
  "cksum_at mem p n acc =
     (if p + n \<le> length mem \<or> n = 0 then Inr (cksum_loop acc (take n (drop p mem))) else Inl OutOfBounds)"
proof (induction mem p n acc rule: cksum_at.induct)
  case (1 mem p n acc)
  consider "n = 0" | "n = 1" | "1 < n" "p + 2 \<le> length mem" | "1 < n" "\<not> p + 2 \<le> length mem" by linarith
  then show ?case
  proof cases
    case 2
    then show ?thesis
      by (auto simp: cksum_at.simps [of mem p "Suc 0"] check_def take_Suc_conv_app_nth not_le Cons_nth_drop_Suc [symmetric])
  next
    case 3
    have e: "drop p mem = mem ! p # drop (Suc p) mem" "drop (Suc p) mem = mem ! Suc p # drop (Suc (Suc p)) mem"
      using 3(2) by (simp_all add: Cons_nth_drop_Suc)
    obtain k where k: "n = Suc (Suc k)" using less_imp_Suc_add [OF 3(1)] by auto
    have d: "take n (drop p mem) = mem ! p # mem ! (p + 1) # take (n - 2) (drop (p + 2) mem)"
      unfolding k e by simp
    have l: "load16 mem p = load16 [mem ! p, mem ! (p + 1)] 0" by (simp add: load16_def)
    show ?thesis using 1 [OF 3(1)] 3 by (auto simp: cksum_at.simps [of mem p n] check_def d l)
  qed (auto simp: cksum_at.simps [of mem p n] cksum_at.simps [of mem p 0] check_def)
qed

text \<open>\<open>in_cksum\<close> is what the function returns for a block of exactly \<open>len\<close> bytes or more.\<close>

lemma in_cksum_at_eq:
  "in_cksum_at mem len = (if len \<le> length mem then Inr (in_cksum (take len mem)) else Inl OutOfBounds)"
  by (auto simp: in_cksum_at_def cksum_at_eq in_cksum_def)

section \<open>The sum without wrap-around\<close>

fun wsum :: "byte list \<Rightarrow> int" where
  "wsum (a # b # r) = uint a + 256 * uint b + wsum r"
| "wsum [a] = uint a"
| "wsum [] = 0"

lemma wsum_nonneg: "0 \<le> wsum bs"
  by (induction bs rule: wsum.induct) auto

lemma wsum_bound: "2 * wsum bs \<le> 65535 * (int (length bs) + 1)"
proof (induction bs rule: wsum.induct)
  case (1 a b r)
  have "uint a < 256" "uint b < 256"
    using uint_lt2p [of a] uint_lt2p [of b] by simp_all
  with 1 show ?case by simp
next
  case (2 a)
  then show ?case using uint_lt2p [of a] by simp
qed simp

lemma cksum_loop_wsum:
  "0 \<le> s \<Longrightarrow> s + wsum bs < 2147483648 \<Longrightarrow> cksum_loop s bs = s + wsum bs"
proof (induction s bs rule: cksum_loop.induct)
  case (1 s a b r)
  have nn: "0 \<le> wsum r" "0 \<le> uint a" "0 \<le> uint b"
    by (simp_all add: wsum_nonneg)
  have u: "uint (load16 [a, b] 0) = uint a + 256 * uint b"
    by (simp add: uint_load16)
  have "int_range (s + (uint a + 256 * uint b))"
    unfolding int_range_def using 1(2,3) nn unfolding wsum.simps by linarith
  then have "s32 (s + (uint a + 256 * uint b)) = s + (uint a + 256 * uint b)"
    by (rule s32_id)
  then show ?case using 1 u by simp
next
  case (2 s a)
  have "0 \<le> uint a" by simp
  with 2 have "int_range (s + uint a)" unfolding int_range_def wsum.simps by linarith
  then have "s32 (s + uint a) = s + uint a" by (rule s32_id)
  then show ?case by simp
qed simp

text \<open>For every buffer up to 65534 bytes the 32-bit accumulator never wraps.\<close>

lemma cksum_loop_exact: "length bs \<le> 65534 \<Longrightarrow> cksum_loop 0 bs = wsum bs"
proof -
  assume "length bs \<le> 65534"
  then have "int (length bs) \<le> 65534" by simp
  then have "wsum bs < 2147483648" using wsum_bound [of bs] by (simp add: algebra_simps)
  then show ?thesis using cksum_loop_wsum [of 0 bs] by simp
qed

section \<open>Folding\<close>

text \<open>
  The folded sum is congruent to the sum modulo 65535, lies in the 16-bit range,
  and is zero only for the zero sum.
\<close>

definition ones_fold :: "int \<Rightarrow> int" where
  "ones_fold s = (let t = s div 65536 + s mod 65536 in if t < 65536 then t else t - 65535)"

lemma ones_fold_props:
  assumes "0 \<le> s" "s < 2147483648"
  shows "0 \<le> ones_fold s" "ones_fold s \<le> 65535" "ones_fold s mod 65535 = s mod 65535"
    and "ones_fold s = 0 \<longleftrightarrow> s = 0"
proof -
  define q r where "q = s div 65536" and "r = s mod 65536"
  have s: "s = 65536 * q + r" and r: "0 \<le> r" "r < 65536" and q: "0 \<le> q" "q < 32768"
    using assms by (auto simp: q_def r_def)
  have f: "ones_fold s = (if q + r < 65536 then q + r else q + r - 65535)"
    by (simp add: ones_fold_def q_def r_def Let_def)
  show "0 \<le> ones_fold s" "ones_fold s \<le> 65535" "ones_fold s = 0 \<longleftrightarrow> s = 0"
    using f r q s by auto
  have "s = (q + r) + 65535 * q" using s by simp
  then have "s mod 65535 = (q + r) mod 65535" by (metis mod_mult_self2)
  moreover have "(q + r - 65535) mod 65535 = (q + r) mod 65535"
    by (metis minus_mod_self2)
  ultimately show "ones_fold s mod 65535 = s mod 65535" using f by auto
qed

lemma complement_mod:
  assumes "65536 * k \<le> x" "x < 65536 * k + 65536"
  shows "(- 1 - x) mod 65536 = 65536 * k + 65535 - (x::int)"
proof -
  have "(- 1 - x) mod 65536 = (65536 * k + 65535 - x + 65536 * (- k - 1)) mod 65536"
    by (simp add: algebra_simps)
  also have "\<dots> = (65536 * k + 65535 - x) mod 65536" by (rule mod_mult_self2)
  also have "\<dots> = 65536 * k + 65535 - x" using assms by simp
  finally show ?thesis .
qed

lemma fold_carries_eq:
  assumes "0 \<le> s" "s < 2147483648"
  shows "uint (fold_carries s) = 65535 - ones_fold s"
proof -
  define q r where "q = s div 65536" and "r = s mod 65536"
  have r: "0 \<le> r" "r < 65536" and q: "0 \<le> q" "q < 32768"
    using assms by (auto simp: q_def r_def)
  have m: "(65535::int) = mask 16" by (simp add: mask_eq_exp_minus_1)
  have a: "drop_bit 16 s + (s AND 65535) = q + r"
    unfolding m take_bit_eq_mask [symmetric]
    by (simp add: q_def r_def drop_bit_eq_div take_bit_eq_mod)
  have b: "s32 (q + r) = q + r" using r q by (intro s32_id) (auto simp: int_range_def)
  have c: "s32 (q + r + drop_bit 16 (q + r)) = q + r + (q + r) div 65536"
    using r q by (simp add: drop_bit_eq_div, intro s32_id) (auto simp: int_range_def)
  have n: "NOT x = - 1 - x" for x :: int by (simp add: not_int_def)
  have u: "uint (word_of_int x :: u16) = x mod 65536" for x
    by (simp add: unsigned_of_int take_bit_eq_mod)
  have "fold_carries s = word_of_int (- 1 - (q + r + (q + r) div 65536))"
    by (simp only: fold_carries_def Let_def a b c n)
  then have d: "uint (fold_carries s) = (- 1 - (q + r + (q + r) div 65536)) mod 65536"
    by (simp only: u)
  have e: "ones_fold s = (if q + r < 65536 then q + r else q + r - 65535)"
    by (simp add: ones_fold_def q_def r_def Let_def)
  show ?thesis
  proof (cases "q + r < 65536")
    case True
    then have "(q + r) div 65536 = 0" using r q by simp
    then show ?thesis using d e True complement_mod [of 0 "q + r"] r q by simp
  next
    case False
    then have "(q + r) div 65536 = 1" using r q by simp
    moreover have "(- 1 - (q + r + 1)) mod 65536 = 131070 - (q + r)"
      using complement_mod [of 1 "q + r + 1"] False r q by simp
    ultimately show ?thesis using d e False by simp
  qed
qed

section \<open>Correctness\<close>

lemma uint_in_cksum:
  assumes "length bs \<le> 65534"
  shows "uint (in_cksum bs) = 65535 - ones_fold (wsum bs)"
proof -
  have "int (length bs) \<le> 65534" using assms by simp
  then have "wsum bs < 2147483648" using wsum_bound [of bs] by (simp add: algebra_simps)
  then show ?thesis
    using fold_carries_eq wsum_nonneg by (simp add: in_cksum_def cksum_loop_exact [OF assms])
qed

text \<open>
  The checksum of a buffer is zero exactly when its word sum is a positive
  multiple of 65535.
\<close>

lemma in_cksum_zero_iff:
  assumes "length bs \<le> 65534"
  shows "in_cksum bs = 0 \<longleftrightarrow> wsum bs \<noteq> 0 \<and> wsum bs mod 65535 = 0"
proof -
  have "int (length bs) \<le> 65534" using assms by simp
  then have b: "0 \<le> wsum bs" "wsum bs < 2147483648"
    using wsum_bound [of bs] wsum_nonneg [of bs] by (simp_all add: algebra_simps)
  note p = ones_fold_props [OF b]
  have "in_cksum bs = 0 \<longleftrightarrow> uint (in_cksum bs) = 0"
    by (rule uint_0_iff [symmetric])
  also have "\<dots> \<longleftrightarrow> ones_fold (wsum bs) = 65535" using uint_in_cksum [OF assms] by auto
  also have "\<dots> \<longleftrightarrow> ones_fold (wsum bs) \<noteq> 0 \<and> ones_fold (wsum bs) mod 65535 = 0"
  proof -
    have "x = 65535" if "0 \<le> x" "x \<le> 65535" "x \<noteq> 0" "x mod 65535 = 0" for x :: int
      using that by (cases "x < 65535") auto
    then show ?thesis using p(1,2) by auto
  qed
  finally show ?thesis using p(3,4) by simp
qed

text \<open>Replacing an aligned 16-bit field changes the word sum by the field's value.\<close>

lemma wsum_append: "even (length xs) \<Longrightarrow> wsum (xs @ ys) = wsum xs + wsum ys"
  by (induction xs rule: wsum.induct) auto

lemma wsum_bytes16: "wsum (bytes16 c) = uint c"
proof -
  have "uint (load16 (bytes16 c) 0) = uint (bytes16 c ! 0) + 256 * uint (bytes16 c ! (0 + 1))"
    by (rule uint_load16)
  then show ?thesis by (simp add: bytes16_def [of c]) (simp add: bytes16_def [symmetric])
qed

lemma wsum_replicate_zero [simp]: "wsum (replicate n 0) = 0"
proof (induction n rule: less_induct)
  case (less n)
  show ?case
  proof (cases "n < 2")
    case True
    then show ?thesis by (cases n) (auto simp: less_2_cases_iff)
  next
    case False
    then obtain m where "n = Suc (Suc m)" by (metis add_2_eq_Suc le_Suc_ex not_less)
    then show ?thesis using less [of m] by simp
  qed
qed

text \<open>
  A buffer with a zero checksum field at an even offset, into which its own checksum
  is stored, has checksum zero: the receiver's test.
\<close>

lemma in_cksum_sealed:
  assumes "even (length xs)" "length (xs @ [0, 0] @ ys) \<le> 65534"
  shows "in_cksum (xs @ bytes16 (in_cksum (xs @ [0, 0] @ ys)) @ ys) = 0"
proof -
  define s where "s = wsum (xs @ [0, 0] @ ys)"
  have len: "length (xs @ bytes16 c @ ys) \<le> 65534" for c using assms(2) by simp
  have "int (length (xs @ [0, 0] @ ys)) \<le> 65534" using assms(2) by simp
  then have b: "0 \<le> s" "s < 2147483648"
    using wsum_bound [of "xs @ [0, 0] @ ys"] wsum_nonneg [of "xs @ [0, 0] @ ys"]
    unfolding s_def by (simp_all add: algebra_simps)
  have s: "s = wsum xs + wsum ys" using assms(1) by (simp add: s_def wsum_append)
  have c: "uint (in_cksum (xs @ [0, 0] @ ys)) = 65535 - ones_fold s"
    using uint_in_cksum [OF assms(2)] by (simp only: s_def)
  have w: "wsum (xs @ bytes16 (in_cksum (xs @ [0, 0] @ ys)) @ ys) = s + (65535 - ones_fold s)"
    using assms(1) c by (simp add: wsum_append wsum_bytes16 s)
  note p = ones_fold_props [OF b]
  have "s + (65535 - ones_fold s) \<noteq> 0"
    using p b by (cases "s = 0") auto
  moreover have "(s + (65535 - ones_fold s)) mod 65535 = 0"
  proof -
    have "(s - ones_fold s) mod 65535 = 0" using p(3) by (metis mod_eq_dvd_iff dvd_imp_mod_0)
    then have "(s - ones_fold s + 65535) mod 65535 = 0" by (simp only: mod_add_self2)
    then show ?thesis by (simp only: algebra_simps)
  qed
  ultimately show ?thesis using in_cksum_zero_iff [OF len] w by simp
qed

text \<open>
  Zero bytes behind the data do not change the checksum, so a zero-padded copy of
  a packet and the packet itself have the same checksum.
\<close>

lemma wsum_append_zeros: "wsum (bs @ replicate n 0) = wsum bs"
proof (induction bs rule: wsum.induct)
  case (2 a)
  show ?case
  proof (cases n)
    case (Suc m)
    then have "wsum ([a] @ replicate n 0) = uint a + wsum (replicate m 0)" by simp
    then show ?thesis by simp
  qed simp
qed auto

lemma in_cksum_append_zeros:
  assumes "length bs + n \<le> 65534"
  shows "in_cksum (bs @ replicate n 0) = in_cksum bs"
proof -
  have "uint (in_cksum (bs @ replicate n 0)) = uint (in_cksum bs)"
    using assms by (simp add: uint_in_cksum wsum_append_zeros)
  then show ?thesis by (simp only: word_uint_eq_iff)
qed

text \<open>
  Flipping all bits of one byte (what \<^verbatim>\<open>errorFlipBits\<close> does to a datagram)
  changes the word sum by an amount that is no multiple of 65535.
\<close>

lemma uint_flip: "uint (b XOR 0xFF :: byte) = 255 - uint b"
proof -
  have "(0xFF :: byte) = - 1" by simp
  then have "b XOR 0xFF = NOT b" by (simp only: bit.xor_one_right)
  then have "b XOR 0xFF = - b - 1" by (simp add: not_eq_complement)
  moreover have "uint (- b - 1) = 255 - uint b"
  proof -
    have "uint (- b - 1) = (- uint b - 1) mod 256" by (simp add: uint_word_ariths mod_simps)
    also have "- uint b - 1 = 255 - uint b + 256 * (- 1)" by simp
    also have "(255 - uint b + 256 * (- 1)) mod 256 = (255 - uint b) mod 256"
      by (rule mod_mult_self2)
    also have "\<dots> = 255 - uint b"
    proof (rule mod_pos_pos_trivial)
      show "0 \<le> 255 - uint b" using uint_lt2p [of b] by simp
      have "0 \<le> uint b" by simp
      then show "255 - uint b < 256" by linarith
    qed
    finally show ?thesis .
  qed
  ultimately show ?thesis by simp
qed

lemma wsum_update:
  "i < length bs \<Longrightarrow> wsum (bs[i := c]) =
     wsum bs + (uint c - uint (bs ! i)) * (if even i then 1 else 256)"
proof (induction bs arbitrary: i rule: wsum.induct)
  case (1 a b r)
  show ?case
  proof (cases "i < 2")
    case True
    then show ?thesis by (auto simp: less_2_cases_iff algebra_simps)
  next
    case False
    then obtain j where j: "i = Suc (Suc j)" by (metis add_2_eq_Suc le_Suc_ex not_less)
    with 1 show ?thesis by simp
  qed
qed auto

lemma in_cksum_detects_flip:
  assumes "length bs \<le> 65534" "in_cksum bs = 0" "i < length bs"
  shows "in_cksum (bs[i := bs ! i XOR 0xFF]) \<noteq> 0"
proof
  assume z: "in_cksum (bs[i := bs ! i XOR 0xFF]) = 0"
  define d where "d = (255 - 2 * uint (bs ! i)) * (if even i then 1 else 256)"
  have w: "wsum (bs[i := bs ! i XOR 0xFF]) = wsum bs + d"
    using assms(3) by (simp add: wsum_update uint_flip d_def)
  have b: "0 \<le> uint (bs ! i)" "uint (bs ! i) < 256" using uint_lt2p [of "bs ! i"] by simp_all
  have "d \<noteq> 0" unfolding d_def by (auto, presburger+)
  moreover have "- 65535 < d" "d < 65535"
  proof -
    have "- 65535 < (255 - 2 * u) * (if e then 1 else 256)"
      "(255 - 2 * u) * (if e then 1 else 256) < 65535" if "0 \<le> u" "u < 256" for u :: int and e
      using that by (cases e; simp)+
    then show "- 65535 < d" "d < 65535" using b by (simp_all add: d_def)
  qed
  moreover have "65535 dvd d"
  proof -
    have "65535 dvd wsum bs" "65535 dvd wsum bs + d"
      using z w assms in_cksum_zero_iff [of bs] in_cksum_zero_iff [of "bs[i := bs ! i XOR 0xFF]"]
      by (simp_all add: dvd_eq_mod_eq_0)
    then show ?thesis by (simp add: dvd_add_right_iff)
  qed
  ultimately show False using zdvd_not_zless [of "\<bar>d\<bar>" 65535] by auto
qed

text \<open>
  A field filled with the checksum of other data \<open>zs\<close> verifies exactly when the
  word sums agree, as long as they differ by less than 65535.
\<close>

lemma wsum_append_odd: "odd (length xs) \<Longrightarrow> wsum (xs @ [j]) = wsum xs + 256 * uint j"
  by (induction xs rule: wsum.induct) auto

lemma in_cksum_of_other:
  assumes "even (length xs)" "length (xs @ [0, 0] @ ys) \<le> 65534" "length zs \<le> 65534"
    and "wsum zs = wsum (xs @ [0, 0] @ ys) + d" "\<bar>d\<bar> < 65535" "wsum (xs @ [0, 0] @ ys) \<noteq> 0"
  shows "in_cksum (xs @ bytes16 (in_cksum zs) @ ys) = 0 \<longleftrightarrow> d = 0"
proof -
  define s where "s = wsum (xs @ [0, 0] @ ys)"
  have len: "length (xs @ bytes16 c @ ys) \<le> 65534" for c using assms(2) by simp
  have "int (length zs) \<le> 65534" using assms(3) by simp
  then have b: "0 \<le> wsum zs" "wsum zs < 2147483648"
    using wsum_bound [of zs] wsum_nonneg [of zs] by (simp_all add: algebra_simps)
  note p = ones_fold_props [OF b]
  have w: "wsum (xs @ bytes16 (in_cksum zs) @ ys) = s + (65535 - ones_fold (wsum zs))"
    using assms(1) uint_in_cksum [OF assms(3)] by (simp add: wsum_append wsum_bytes16 s_def)
  have "0 < s" using assms(6) wsum_nonneg [of "xs @ [0, 0] @ ys"] by (simp add: s_def)
  then have "s + (65535 - ones_fold (wsum zs)) \<noteq> 0" using p(2) by linarith
  then have "in_cksum (xs @ bytes16 (in_cksum zs) @ ys) = 0 \<longleftrightarrow> (s + (65535 - ones_fold (wsum zs))) mod 65535 = 0"
    using in_cksum_zero_iff [OF len] w by simp
  also have "\<dots> \<longleftrightarrow> (65535::int) dvd s - ones_fold (wsum zs)"
  proof -
    have "s + (65535 - ones_fold (wsum zs)) = s - ones_fold (wsum zs) + 65535" by simp
    then show ?thesis by (simp only: mod_add_self2 dvd_eq_mod_eq_0)
  qed
  also have "\<dots> \<longleftrightarrow> (65535::int) dvd d"
  proof -
    have "(65535::int) dvd wsum zs - ones_fold (wsum zs)" using p(3) by (metis mod_eq_dvd_iff)
    moreover have "s - ones_fold (wsum zs) = wsum zs - ones_fold (wsum zs) - d"
      using assms(4) by (simp add: s_def)
    ultimately show ?thesis by (metis dvd_diff_right_iff)
  qed
  also have "\<dots> \<longleftrightarrow> d = 0" using assms(5) zdvd_not_zless [of "\<bar>d\<bar>" 65535] by auto
  finally show ?thesis .
qed

section \<open>The reference definition\<close>

text \<open>
  RFC 1071: the complement of the one's complement sum of the 16-bit words, an odd
  last byte padded with zero. The one's complement sum adds the carry of every
  single addition back in at the lowest bit.
\<close>

definition end_around_add :: "u16 \<Rightarrow> u16 \<Rightarrow> u16" where
  "end_around_add a b = (if uint a + uint b < 65536 then a + b else a + b + 1)"

fun rfc1071_sum :: "byte list \<Rightarrow> u16" where
  "rfc1071_sum (a # b # r) = end_around_add (load16 [a, b] 0) (rfc1071_sum r)"
| "rfc1071_sum [a] = ucast a"
| "rfc1071_sum [] = 0"

lemma uint_end_around_add:
  "uint (end_around_add a b) =
     (if uint a + uint b < 65536 then uint a + uint b else uint a + uint b - 65535)"
proof -
  have b: "0 \<le> uint a" "uint a < 65536" "0 \<le> uint b" "uint b < 65536"
    using uint_lt2p [of a] uint_lt2p [of b] by simp_all
  have p: "uint (x + y) = (uint x + uint y) mod 65536" for x y :: u16
    using uint_word_ariths(1) [of x y] by simp
  have "uint (a + b + 1) = ((uint a + uint b) mod 65536 + 1) mod 65536"
    by (simp only: p uint_1)
  also have "\<dots> = (uint a + uint b + 1) mod 65536" by (rule mod_add_left_eq)
  finally have "uint (a + b + 1) = (uint a + uint b + 1) mod 65536" .
  moreover have "uint (a + b) = (uint a + uint b) mod 65536" by (rule p)
  moreover have "(uint a + uint b + 1) mod 65536 = uint a + uint b - 65535" if "\<not> uint a + uint b < 65536"
  proof -
    have "uint a + uint b + 1 = uint a + uint b - 65535 + 65536" by simp
    then have "(uint a + uint b + 1) mod 65536 = (uint a + uint b - 65535 + 65536) mod 65536"
      by (simp only:)
    also have "\<dots> = (uint a + uint b - 65535) mod 65536" by (rule mod_add_self2)
    also have "\<dots> = uint a + uint b - 65535" using b that by (intro mod_pos_pos_trivial) simp_all
    finally show ?thesis .
  qed
  ultimately show ?thesis using b by (simp add: end_around_add_def)
qed

text \<open>Both sums are congruent modulo 65535 and are zero for zero data only.\<close>

lemma rfc1071_sum_props:
  "uint (rfc1071_sum bs) mod 65535 = wsum bs mod 65535 \<and> (rfc1071_sum bs = 0 \<longleftrightarrow> wsum bs = 0)"
proof (induction bs rule: wsum.induct)
  case (1 a b r)
  let ?w = "uint (load16 [a, b] 0)" and ?s = "uint (rfc1071_sum r)"
  have w: "?w = uint a + 256 * uint b" by (simp add: uint_load16)
  have n: "0 \<le> ?w" "0 \<le> ?s" "0 \<le> wsum r" by (simp_all add: wsum_nonneg)
  have e: "uint (rfc1071_sum (a # b # r)) = (if ?w + ?s < 65536 then ?w + ?s else ?w + ?s - 65535)"
    by (simp only: rfc1071_sum.simps uint_end_around_add)
  have "(?w + ?s - 65535) mod 65535 = (?w + ?s) mod 65535" by (metis minus_mod_self2)
  then have "uint (rfc1071_sum (a # b # r)) mod 65535 = (?w + ?s) mod 65535" using e by simp
  also have "\<dots> = (?w + wsum r) mod 65535" using 1 by (metis mod_add_right_eq)
  finally have m: "uint (rfc1071_sum (a # b # r)) mod 65535 = wsum (a # b # r) mod 65535"
    by (simp add: w)
  have "rfc1071_sum (a # b # r) = 0 \<longleftrightarrow> ?w = 0 \<and> ?s = 0"
    unfolding uint_0_iff [symmetric] e by (simp add: add_nonneg_eq_0_iff)
  also have "\<dots> \<longleftrightarrow> wsum (a # b # r) = 0"
  proof -
    have "?s = 0 \<longleftrightarrow> wsum r = 0" using 1 by (simp add: uint_0_iff)
    moreover have "wsum (a # b # r) = ?w + wsum r" by (simp add: w)
    ultimately show ?thesis using n by (simp add: add_nonneg_eq_0_iff)
  qed
  finally show ?case using m by blast
next
  case (2 a)
  have "uint (ucast a :: u16) = uint a"
    using uint_lt2p [of a] by (simp add: unsigned_ucast_eq take_bit_eq_mod)
  then show ?case by (simp add: uint_0_iff [symmetric] del: uint_0_iff)
qed simp

lemma residue_unique:
  fixes x y :: int
  assumes "0 \<le> x" "x \<le> 65535" "0 \<le> y" "y \<le> 65535" "x mod 65535 = y mod 65535" "x = 0 \<longleftrightarrow> y = 0"
  shows "x = y"
proof -
  have "x mod 65535 = (if x = 65535 then 0 else x)" "y mod 65535 = (if y = 65535 then 0 else y)"
    using assms(1-4) by auto
  then show ?thesis using assms(5,6) by (auto split: if_splits)
qed

text \<open>
  The value of a list of bytes: its deferred folding of carries gives exactly the RFC 1071
  value, the complement of the one's complement sum of the words.
\<close>

lemma in_cksum_rfc1071:
  assumes "length bs \<le> 65534"
  shows "in_cksum bs = NOT (rfc1071_sum bs)"
proof -
  have "int (length bs) \<le> 65534" using assms by simp
  then have b: "0 \<le> wsum bs" "wsum bs < 2147483648"
    using wsum_bound [of bs] wsum_nonneg [of bs] by (simp_all add: algebra_simps)
  note p = ones_fold_props [OF b]
  have "ones_fold (wsum bs) = uint (rfc1071_sum bs)"
  proof (rule residue_unique)
    show "uint (rfc1071_sum bs) \<le> 65535" using uint_lt2p [of "rfc1071_sum bs"] by simp
  qed (use p rfc1071_sum_props [of bs] in \<open>simp_all add: uint_0_iff\<close>)
  moreover have "uint (NOT x) = 65535 - uint x" for x :: u16
  proof -
    have "uint (NOT x) = (- uint x - 1) mod 65536"
      by (simp add: not_eq_complement uint_word_ariths mod_simps)
    also have "- uint x - 1 = - 1 - uint x" by simp
    finally have "uint (NOT x) = (- 1 - uint x) mod 65536" .
    then show ?thesis using complement_mod [of 0 "uint x"] uint_lt2p [of x] by simp
  qed
  ultimately have "uint (in_cksum bs) = uint (NOT (rfc1071_sum bs))"
    using uint_in_cksum [OF assms] by simp
  then show ?thesis by (simp only: word_uint_eq_iff)
qed

text \<open>
  C24. \<open>in_cksum\<close> is the Internet checksum for every length up to 65534, even or
  odd: it returns exactly the RFC 1071 value of the first \<open>len\<close> bytes, and reads
  these and no others, so it goes outside the block if and only if the block is shorter than
  \<open>len\<close>. The comment above the function says that an odd length needs a zero byte
  behind the data, because the function goes off the end by one byte; the code does
  not, since its last step takes the odd byte alone.
\<close>

theorem in_cksum_is_rfc1071:
  assumes "len \<le> 65534"
  shows "in_cksum_at mem len =
    (if len \<le> length mem then Inr (NOT (rfc1071_sum (take len mem))) else Inl OutOfBounds)"
  using assms by (simp add: in_cksum_at_eq in_cksum_rfc1071)

text \<open>Five bytes of a block of five, and of a block with something else behind them.\<close>

theorem in_cksum_is_rfc1071_witness:
  "in_cksum_at [0xFF, 0xFF, 1, 0, 5] 5 = Inr (NOT 6) \<and> in_cksum_at [0xFF, 0xFF, 1, 0, 5, 9] 5 = Inr (NOT 6)
   \<and> in_cksum_at [0xFF, 0xFF, 1, 0] 5 = Inl OutOfBounds"
proof -
  have "rfc1071_sum [0xFF, 0xFF, 1, 0, 5] = 6" by code_simp
  then show ?thesis
    using in_cksum_is_rfc1071 [of 5 "[0xFF, 0xFF, 1, 0, 5]"] in_cksum_is_rfc1071 [of 5 "[0xFF, 0xFF, 1, 0, 5, 9]"]
      in_cksum_is_rfc1071 [of 5 "[0xFF, 0xFF, 1, 0]"] by simp
qed

end
