(* ===== verification/Pdu.thy ===== *)
theory Pdu
  imports Checksum
begin

text \<open>
  What the packets of both programs have in common: a packet is built with a zero
  checksum field, its checksum is calculated over a zero-padded copy, and the
  checksum is stored at offset 4. The locale \<open>sealed_pdu\<close> is the
  interface of these steps; theories \<open>RcopyPdu\<close> and
  \<open>ServerPdu\<close> interpret it for every packet kind.
\<close>

section \<open>A filled-in checksum field\<close>

locale sealed_pdu =
  fixes calc :: "byte list \<Rightarrow> u16"
    and seal :: "byte list \<Rightarrow> u16 \<Rightarrow> byte list"
    and len :: nat
  assumes calc_cksum: "length b = len \<Longrightarrow> calc b = in_cksum b"
    and seal_field: "length b = len \<Longrightarrow> seal b c = memcpy_at b 4 (bytes16 c)"
    and len_bounds: "6 \<le> len \<and> len \<le> 65534"
begin

lemma seal_length: "length b = len \<Longrightarrow> length (seal b c) = len"
  using len_bounds by (simp add: seal_field)

lemma seal_nth:
  "length b = len \<Longrightarrow> i < len \<Longrightarrow> i \<noteq> 4 \<Longrightarrow> i \<noteq> 5 \<Longrightarrow> seal b c ! i = b ! i"
  using len_bounds by (auto simp: seal_field nth_memcpy_at)

lemma seal_take: "length b = len \<Longrightarrow> take 4 (seal b c) = take 4 b"
  using len_bounds by (simp add: seal_field memcpy_at_def)

lemma seal_drop: "length b = len \<Longrightarrow> 6 \<le> k \<Longrightarrow> drop k (seal b c) = drop k b"
  using len_bounds by (simp add: seal_field memcpy_at_def)

lemma sealed_verifies:
  assumes "length b = len" "take 2 (drop 4 b) = [0, 0]"
  shows "calc (seal b (calc b)) = 0" and "in_cksum (seal b (calc b)) = 0"
proof -
  have b: "b = take 4 b @ [0, 0] @ drop 6 b"
  proof -
    have "drop 6 b = drop 2 (drop 4 b)" by simp
    then have "drop 4 b = [0, 0] @ drop 6 b"
      using append_take_drop_id [of 2 "drop 4 b"] assms(2) by simp
    then show ?thesis using append_take_drop_id [of 4 b] by simp
  qed
  have e: "even (length (take 4 b))" "length (take 4 b @ [0, 0] @ drop 6 b) \<le> 65534"
    using assms(1) len_bounds by auto
  have "seal b (calc b) = take 4 b @ bytes16 (in_cksum b) @ drop 6 b"
    using assms(1) by (simp add: seal_field calc_cksum memcpy_at_def)
  then show z: "in_cksum (seal b (calc b)) = 0"
    using in_cksum_sealed [OF e] b by simp
  then show "calc (seal b (calc b)) = 0"
    using assms(1) by (simp add: calc_cksum seal_length)
qed

lemma sealed_detects_flip:
  assumes "length b = len" "take 2 (drop 4 b) = [0, 0]" "i < len"
  shows "calc ((seal b (calc b))[i := seal b (calc b) ! i XOR 0xFF]) \<noteq> 0"
  using in_cksum_detects_flip [of "seal b (calc b)" i] sealed_verifies(2) [OF assms(1,2)]
    assms len_bounds by (simp add: calc_cksum seal_length)

end

section \<open>Filling a buffer from the front\<close>

lemma memcpy_at_replicate:
  "length src \<le> n \<Longrightarrow> memcpy_at (replicate n x) 0 src = src @ replicate (n - length src) x"
  by (simp add: memcpy_at_def)

lemma memcpy_at_append:
  "length xs = off \<Longrightarrow> length src = length ys \<Longrightarrow> memcpy_at (xs @ ys @ zs) off src = xs @ src @ zs"
  by (simp add: memcpy_at_def)

lemma padded_cksum:
  assumes "length b = n" "n + 1 \<le> m" "m < k" "k \<le> 65534"
  shows "in_cksum (memcpy_at (memcpy_at (replicate k 0) 0 b) m [0]) = in_cksum b"
proof -
  have "memcpy_at (memcpy_at (replicate k 0) 0 b) m [0] = b @ replicate (k - n) 0"
    using assms
    by (intro nth_equalityI) (auto simp: nth_memcpy_at memcpy_at_replicate nth_append)
  then show ?thesis using assms by (simp add: in_cksum_append_zeros)
qed

lemma memcpy_at_front:
  "length xs = off \<Longrightarrow> length src \<le> n \<Longrightarrow>
     memcpy_at (xs @ replicate n x) off src = (xs @ src) @ replicate (n - length src) x"
  by (simp add: memcpy_at_def)

lemma padded_calc:
  assumes "\<And>b. calc b =
      in_cksum (memcpy_at (memcpy_at (replicate k 0) 0 (take n b)) m [0])"
    and "\<And>b c. seal b c = memcpy_at b 4 (bytes16 c)"
    and "6 \<le> n" "n + 1 \<le> m" "m < k" "k \<le> 65534"
  shows "sealed_pdu calc seal n"
  using assms by unfold_locales (simp_all add: padded_cksum)

end
