(* ===== verification/RcopyPdu.thy ===== *)
theory RcopyPdu
  imports Pdu Floating
begin

text \<open>
  The datagrams that \<^verbatim>\<open>rcopy.c\<close> builds: the filename request, the
  7-byte acknowledgement, and the 11-byte RR and SREJ control packets. The
  locale \<open>sealed_pdu\<close> of theory \<open>Pdu\<close> is interpreted for every kind.

  The functions return \<open>static\<close> buffers. Each call overwrites every byte of
  its buffer, so the returned contents do not depend on earlier calls. The
  \<open>static\<close> scratch arrays of the checksum functions start as zero and only
  ever get the same prefix and one more zero byte written.
\<close>

section \<open>Command-line parameters\<close>

text \<open>
  \<open>struct RcopyParams\<close>. The character arrays are byte lists of their full
  size; \<open>double\<close> values are rationals.
\<close>

record RcopyParams =
  src_filename :: "byte list"
  dest_filename :: "byte list"
  window_size :: int
  buffer_size :: int
  error_rate :: floating
  remote_machine :: "byte list"
  remote_port :: int

section \<open>The filename request\<close>

definition makeFilenamePDUBeforeChecksum :: "RcopyParams \<Rightarrow> byte list" where
  "makeFilenamePDUBeforeChecksum params =
     (let buffer = replicate (7 + 100 + 2 + 4) 0;
          sequence_num = ntohl 1;
          buffer = memcpy_at buffer 0 (bytes32 sequence_num);
          buffer = memcpy_at buffer 4 (bytes16 0);
          buffer = memcpy_at buffer 6 [8];
          buffer = memcpy_at buffer 7 (take 100 (src_filename params));
          netowrk_buffer_size = htons (word_of_int (buffer_size params));
          buffer = memcpy_at buffer 107 (bytes16 netowrk_buffer_size);
          netowrk_window_size = htonl (word_of_int (window_size params));
          buffer = memcpy_at buffer 109 (bytes32 netowrk_window_size)
      in buffer)"

definition calculateFilenameChecksum :: "byte list \<Rightarrow> u16" where
  "calculateFilenameChecksum buffer =
     (let temp_buff = replicate (2 * (7 + 100 + 2 + 4 + 1)) 0;
          temp_buff = memcpy_at temp_buff 0 (take 113 buffer);
          temp_buff = memcpy_at temp_buff (2 * 113) [0]
      in in_cksum temp_buff)"

definition makeFilenamePDUAfterChecksum :: "byte list \<Rightarrow> u16 \<Rightarrow> byte list" where
  "makeFilenamePDUAfterChecksum buffer calculated_checksum =
     memcpy_at buffer 4 (bytes16 calculated_checksum)"

section \<open>Acknowledgements\<close>

definition makeFilenameACKBeforeChecksum :: "byte \<Rightarrow> byte list" where
  "makeFilenameACKBeforeChecksum flag =
     (let buffer = replicate 7 0;
          sequence_num = ntohl 1;
          buffer = memcpy_at buffer 0 (bytes32 sequence_num);
          buffer = memcpy_at buffer 4 (bytes16 0);
          buffer = memcpy_at buffer 6 [flag]
      in buffer)"

definition calculateFilenameChecksumACK :: "byte list \<Rightarrow> u16" where
  "calculateFilenameChecksumACK buffer =
     (let temp_buff = replicate (2 * 8) 0;
          temp_buff = memcpy_at temp_buff 0 (take 7 buffer);
          temp_buff = memcpy_at temp_buff (2 * 7) [0]
      in in_cksum temp_buff)"

definition makeFilenameACKAfterChecksum :: "byte list \<Rightarrow> u16 \<Rightarrow> byte list" where
  "makeFilenameACKAfterChecksum buffer calculated_checksum =
     memcpy_at buffer 4 (bytes16 calculated_checksum)"

section \<open>RR and SREJ control packets\<close>

definition makeRRPacketBeforeChecksum :: "u32 \<Rightarrow> u32 \<Rightarrow> byte list" where
  "makeRRPacketBeforeChecksum localSeq rrSequence =
     (let buffer = replicate 11 0;
          buffer = memcpy_at buffer 0 (bytes32 (htonl localSeq));
          buffer = memcpy_at buffer 4 (bytes16 0);
          buffer = memcpy_at buffer 6 [5];
          buffer = memcpy_at buffer 7 (bytes32 (htonl rrSequence))
      in buffer)"

definition makeSREJPacketBeforeChecksum :: "u32 \<Rightarrow> u32 \<Rightarrow> byte list" where
  "makeSREJPacketBeforeChecksum localSeq missingPacket =
     (let buffer = replicate 11 0;
          buffer = memcpy_at buffer 0 (bytes32 (htonl localSeq));
          buffer = memcpy_at buffer 4 (bytes16 0);
          buffer = memcpy_at buffer 6 [6];
          buffer = memcpy_at buffer 7 (bytes32 (htonl missingPacket))
      in buffer)"

definition calculateRR_SREJPacketChecksum :: "byte list \<Rightarrow> u16" where
  "calculateRR_SREJPacketChecksum buffer =
     (let temp_buff = replicate (2 * (11 + 1)) 0;
          temp_buff = memcpy_at temp_buff 0 (take 11 buffer);
          temp_buff = memcpy_at temp_buff (2 * 11) [0]
      in in_cksum temp_buff)"

definition makeRR_SREJPacketAfterChecksum :: "byte list \<Rightarrow> u16 \<Rightarrow> byte list" where
  "makeRR_SREJPacketAfterChecksum buffer calculated_sum =
     memcpy_at buffer 4 (bytes16 calculated_sum)"

section \<open>Layout of the packets\<close>

text \<open>Each builder writes its fields one behind the other.\<close>

lemma makeFilenamePDUBeforeChecksum_layout:
  assumes "100 \<le> length (src_filename params)"
  shows "makeFilenamePDUBeforeChecksum params =
     bytes32 (ntohl 1) @ [0, 0] @ [8] @ take 100 (src_filename params)
     @ bytes16 (htons (word_of_int (buffer_size params)))
     @ bytes32 (htonl (word_of_int (window_size params)))"
proof -
  have z: "bytes16 0 = [0, 0]" by (simp add: bytes16_def)
  show ?thesis
    unfolding makeFilenamePDUBeforeChecksum_def Let_def z
    using assms
    by (simp add: memcpy_at_replicate memcpy_at_front del: append_assoc)
qed

lemma makeFilenameACKBeforeChecksum_layout:
  "makeFilenameACKBeforeChecksum flag = bytes32 (ntohl 1) @ [0, 0] @ [flag]"
  by (simp add: makeFilenameACKBeforeChecksum_def Let_def memcpy_at_def bytes16_def [of 0])

lemma makeRRPacketBeforeChecksum_layout:
  "makeRRPacketBeforeChecksum l r = bytes32 (htonl l) @ [0, 0] @ [5] @ bytes32 (htonl r)"
  by (simp add: makeRRPacketBeforeChecksum_def Let_def memcpy_at_def bytes16_def [of 0])

lemma makeSREJPacketBeforeChecksum_layout:
  "makeSREJPacketBeforeChecksum l r = bytes32 (htonl l) @ [0, 0] @ [6] @ bytes32 (htonl r)"
  by (simp add: makeSREJPacketBeforeChecksum_def Let_def memcpy_at_def bytes16_def [of 0])

lemmas pdu_layouts = makeFilenamePDUBeforeChecksum_layout makeFilenameACKBeforeChecksum_layout
  makeRRPacketBeforeChecksum_layout makeSREJPacketBeforeChecksum_layout

section \<open>The three packet kinds fit the interface\<close>

interpretation filename_pdu:
  sealed_pdu calculateFilenameChecksum makeFilenamePDUAfterChecksum 113
  by (rule padded_calc [OF calculateFilenameChecksum_def [unfolded Let_def]
        makeFilenamePDUAfterChecksum_def]) simp_all

interpretation ack_pdu:
  sealed_pdu calculateFilenameChecksumACK makeFilenameACKAfterChecksum 7
  by (rule padded_calc [OF calculateFilenameChecksumACK_def [unfolded Let_def]
        makeFilenameACKAfterChecksum_def]) simp_all

interpretation control_pdu:
  sealed_pdu calculateRR_SREJPacketChecksum makeRR_SREJPacketAfterChecksum 11
  by (rule padded_calc [OF calculateRR_SREJPacketChecksum_def [unfolded Let_def]
        makeRR_SREJPacketAfterChecksum_def]) simp_all

section \<open>The request\<close>

definition sealed_request :: "RcopyParams \<Rightarrow> byte list" where
  "sealed_request params =
     makeFilenamePDUAfterChecksum (makeFilenamePDUBeforeChecksum params)
       (calculateFilenameChecksum (makeFilenamePDUBeforeChecksum params))"

lemma sealed_request_layout:
  assumes "length (src_filename params) = 101"
  shows "\<exists>c. sealed_request params = bytes32 (ntohl 1) @ bytes16 c @ [8] @ take 100 (src_filename params)
      @ bytes16 (htons (word_of_int (buffer_size params))) @ bytes32 (htonl (word_of_int (window_size params)))"
    "calculateFilenameChecksum (sealed_request params) = 0" "length (sealed_request params) = 113"
    "i < 113 \<Longrightarrow> calculateFilenameChecksum ((sealed_request params)[i := sealed_request params ! i XOR 0xFF]) \<noteq> 0"
proof -
  note l = makeFilenamePDUBeforeChecksum_layout [of params]
  have b: "length (makeFilenamePDUBeforeChecksum params) = 113"
      "take 2 (drop 4 (makeFilenamePDUBeforeChecksum params)) = [0, 0]"
    using l assms by simp_all
  show "\<exists>c. sealed_request params = bytes32 (ntohl 1) @ bytes16 c @ [8] @ take 100 (src_filename params)
      @ bytes16 (htons (word_of_int (buffer_size params))) @ bytes32 (htonl (word_of_int (window_size params)))"
    using l assms by (auto simp: sealed_request_def makeFilenamePDUAfterChecksum_def memcpy_at_def)
  show "calculateFilenameChecksum (sealed_request params) = 0"
    unfolding sealed_request_def by (rule filename_pdu.sealed_verifies(1) [OF b])
  show "length (sealed_request params) = 113"
    unfolding sealed_request_def by (rule filename_pdu.seal_length [OF b(1)])
  show "i < 113 \<Longrightarrow> calculateFilenameChecksum ((sealed_request params)[i := sealed_request params ! i XOR 0xFF]) \<noteq> 0"
    unfolding sealed_request_def by (rule filename_pdu.sealed_detects_flip [OF b])
qed

end
