(* ===== verification/RcopyData.thy ===== *)
theory RcopyData
  imports World RcopyPdu
begin

text \<open>
  The receiving half of \<^verbatim>\<open>rcopy.c\<close>: \<open>doGetDataState\<close> and the
  IN_ORDER / BUFFERING / FLUSHING machine below it. The C \<open>static\<close> variable
  \<open>subState\<close>, the sequence counters of control packets and the server's address
  are fields of the client state; the receiver buffer is passed along as in the code.
  An output file is named by its path, \<open>fwrite\<close> appends to it.
\<close>

section \<open>State\<close>

text \<open>
  \<open>ReceiveState\<close> of \<^verbatim>\<open>rcopy.h\<close>. The handlers also return
  \<open>DONE\<close>, an enumerator of the other enum of \<^verbatim>\<open>rcopy.c\<close> with value
  3, which no \<open>case\<close> of the receiver's \<open>switch\<close> matches: \<open>RS_DONE\<close>.
\<close>

datatype ReceiveState = IN_ORDER | BUFFERING | FLUSHING | RS_DONE

datatype state = SEND_FILENAME | FILE_VALID | GET_DATA | DONE

record client = world +
  server :: sockaddr
  current_server_port :: int
  rr_seq_num :: u32
  srej_seq_num :: u32
  subState :: ReceiveState

definition pdu_seq :: "byte list \<Rightarrow> u32" where
  "pdu_seq buffer = ntohl (load32 buffer 0)"

section \<open>Helpers\<close>

definition writePayloadToFile :: "byte list \<Rightarrow> byte list \<Rightarrow> RcopyParams \<Rightarrow> client \<Rightarrow> (client, unit) res" where
  "writePayloadToFile buffer file params w =
     (let payloadSize = buffer_size params in
      if payloadSize \<le> 0 then Ok () w
      else bnd (lift (check (7 + payloadSize \<le> int (length buffer)) OutOfBounds) w) (\<lambda>_ w.
        Ok () (fwrite file (take (nat payloadSize) (drop 7 buffer)) w)))"

definition resendLastControl :: "ReceiverBuffer \<Rightarrow> int \<Rightarrow> client \<Rightarrow> (client, unit) res" where
  "resendLastControl rbuf socketNum w =
     (if hasLastControl rbuf \<noteq> 0
      then bnd (sendtoErr socketNum (lastControlPacket rbuf) (lastControlPacketSize rbuf) (server w) w)
             (\<lambda>_ w. Ok () w)
      else Ok () w)"

text \<open>
  What both retry loops do with an answer: a data packet with the awaited number ends
  the loop (its payload is not used).
\<close>

definition awaited_data :: "int \<Rightarrow> byte list \<Rightarrow> u32 \<Rightarrow> bool" where
  "awaited_data received_bytes responseBuffer sq \<longleftrightarrow>
     received_bytes > 0 \<and> pdu_seq responseBuffer = sq \<and> responseBuffer ! 6 = 16"

definition response_size :: "RcopyParams \<Rightarrow> nat" where
  "response_size params = nat (s32 (7 + buffer_size params))"

text \<open>
  The part both retry loops share: poll for one second and, when the socket is ready,
  read a packet and test it.
\<close>

definition poll_for_awaited :: "int \<Rightarrow> RcopyParams \<Rightarrow> u32 \<Rightarrow> client \<Rightarrow> (client, bool) res" where
  "poll_for_awaited socketNum params sq w =
     bnd (pollCall 1000 w) (\<lambda>pollResult w.
       if pollResult = socketNum then
         bnd (recvfrom (local_array (response_size params) w) (response_size params) w)
           (\<lambda>(received_bytes, responseBuffer, _) w.
             Ok (awaited_data received_bytes responseBuffer sq) w)
       else Ok False w)"

section \<open>IN_ORDER\<close>

text \<open>
  The loop that sends the RR. Leaving it by \<open>break\<close> reaches the same
  \<open>return DONE\<close> as nine failures.
\<close>

function send_rr_loop :: "int \<Rightarrow> RcopyParams \<Rightarrow> byte list \<Rightarrow> u32 \<Rightarrow> nat \<Rightarrow> client \<Rightarrow> (client, ReceiveState) res" where
  "send_rr_loop socketNum params finalRRBuff expct retries w =
     (if retries < 9 then
        bnd (sendtoErr socketNum finalRRBuff 11 (server w) w) (\<lambda>bytes_sent w.
          if bytes_sent \<ge> 0 then Ok RS_DONE w
          else bnd (poll_for_awaited socketNum params expct (w\<lparr>rr_seq_num := rr_seq_num w + 1\<rparr>)) (\<lambda>hit w.
            if hit then Ok IN_ORDER w
            else send_rr_loop socketNum params finalRRBuff expct (retries + 1) w))
      else Ok RS_DONE w)"
  by pat_completeness auto
termination
  by (relation "measure (\<lambda>(_, _, _, _, n, _). 9 - n)") auto

declare send_rr_loop.simps [simp del]

definition final_rr :: "u32 \<Rightarrow> u32 \<Rightarrow> byte list" where
  "final_rr localSeq rrSequence =
     (let rrBefore = makeRRPacketBeforeChecksum localSeq rrSequence;
          rrCsum = calculateRR_SREJPacketChecksum rrBefore
      in makeRR_SREJPacketAfterChecksum rrBefore rrCsum)"

definition doInOrderState :: "ReceiverBuffer \<Rightarrow> byte list \<Rightarrow> int \<Rightarrow> RcopyParams \<Rightarrow> byte list \<Rightarrow> client \<Rightarrow>
    (client, ReceiverBuffer \<times> ReceiveState) res" where
  "doInOrderState rbuf fp socketNum params buffer w =
     (let seqExpected = (word_of_int (expected rbuf) :: u32);
          seqIncoming = pdu_seq buffer
      in if seqIncoming = seqExpected then
           bnd (writePayloadToFile buffer fp params w) (\<lambda>_ w.
             let rbuf = rbuf\<lparr>expected := s32 (expected rbuf + 1)\<rparr>;
                 finalRRBuff = final_rr (rr_seq_num w) (word_of_int (expected rbuf));
                 rbuf = rbuf\<lparr>lastControlPacket := finalRRBuff, lastControlPacketSize := 11,
                             hasLastControl := 1\<rparr>
             in bnd (send_rr_loop socketNum params finalRRBuff (word_of_int (expected rbuf)) 0 w)
                  (\<lambda>st w. Ok (rbuf, st) w))
         else if seqIncoming > seqExpected then Ok (rbuf, BUFFERING) w
         else Ok (rbuf, IN_ORDER) w)"

section \<open>BUFFERING\<close>

definition final_srej :: "u32 \<Rightarrow> u32 \<Rightarrow> byte list" where
  "final_srej localSeq missing =
     (let srejBefore = makeSREJPacketBeforeChecksum localSeq missing;
          srejCsum = calculateRR_SREJPacketChecksum srejBefore
      in makeRR_SREJPacketAfterChecksum srejBefore srejCsum)"

function send_srej_loop :: "int \<Rightarrow> RcopyParams \<Rightarrow> u32 \<Rightarrow> nat \<Rightarrow> client \<Rightarrow> (client, ReceiveState) res" where
  "send_srej_loop socketNum params seqExpected retries w =
     (if retries < 10 then
        bnd (sendtoErr socketNum (final_srej (srej_seq_num w) seqExpected) 11 (server w) w) (\<lambda>_ w.
          bnd (poll_for_awaited socketNum params seqExpected (w\<lparr>srej_seq_num := srej_seq_num w + 1\<rparr>)) (\<lambda>hit w.
            if hit then Ok FLUSHING w
            else send_srej_loop socketNum params seqExpected (retries + 1) w))
      else Ok RS_DONE w)"
  by pat_completeness auto
termination
  by (relation "measure (\<lambda>(_, _, _, n, _). 10 - n)") auto

declare send_srej_loop.simps [simp del]

text \<open>
  \<open>sizeof(receivedBuffer)\<close> is the size of a pointer, 8 bytes, whatever was
  received.
\<close>

definition sizeof_pointer :: int where "sizeof_pointer = 8"

definition doBufferState :: "ReceiverBuffer \<Rightarrow> int \<Rightarrow> RcopyParams \<Rightarrow> byte list \<Rightarrow> client \<Rightarrow>
    (client, ReceiverBuffer \<times> ReceiveState) res" where
  "doBufferState rbuf socketNum params receivedBuffer w =
     (let seqExpected = (word_of_int (expected rbuf) :: u32);
          seqIncoming = pdu_seq receivedBuffer
      in bnd (lift (insertReceiverPacket rbuf receivedBuffer sizeof_pointer) w) (\<lambda>rbuf w.
           let rbuf = (if seqIncoming > word_of_int (highest rbuf)
                       then rbuf\<lparr>highest := sint seqIncoming\<rparr> else rbuf)
           in bnd (send_srej_loop socketNum params seqExpected 0 w) (\<lambda>st w. Ok (rbuf, st) w)))"

section \<open>FLUSHING\<close>

definition doFlushingState :: "ReceiverBuffer \<Rightarrow> byte list \<Rightarrow> client \<Rightarrow>
    (client, ReceiverBuffer \<times> ReceiveState) res" where
  "doFlushingState rbuf fp w =
     bnd (lift (flushBuffer rbuf) w) (\<lambda>(flushedPackets, rbuf, out) w.
       let w = (if out = [] then w else fwrite fp out w) in
       if expected rbuf > highest rbuf then Ok (rbuf, IN_ORDER) w
       else Ok (rbuf, BUFFERING) w)"

section \<open>The dispatcher\<close>

definition handleDataPacket :: "ReceiverBuffer \<Rightarrow> byte list \<Rightarrow> ReceiveState \<Rightarrow> int \<Rightarrow> RcopyParams \<Rightarrow>
    byte list \<Rightarrow> client \<Rightarrow> (client, ReceiverBuffer \<times> ReceiveState) res" where
  "handleDataPacket rbuf fp currentState socketNum params buffer w =
     (if pdu_seq buffer < word_of_int (expected rbuf) then
        bnd (resendLastControl rbuf socketNum w) (\<lambda>_ w. Ok (rbuf, currentState) w)
      else case currentState of
        IN_ORDER \<Rightarrow> doInOrderState rbuf fp socketNum params buffer w
      | BUFFERING \<Rightarrow> doBufferState rbuf socketNum params buffer w
      | FLUSHING \<Rightarrow> doFlushingState rbuf fp w
      | RS_DONE \<Rightarrow> Ok (rbuf, currentState) w)"

section \<open>What a step changes\<close>

text \<open>
  Facts about whole runs are relations between the state before and after. The first
  interface lists what such a relation has to hold of for the retry loops to
  keep it; the second adds the file, for the whole receiver.
\<close>

locale receiver_effects = effect_order R for R :: "client \<Rightarrow> client \<Rightarrow> bool" +
  assumes R_pollCall [simp]: "R w (final (pollCall t w))"
    and R_recvfrom [simp]: "R w (final (recvfrom buf len w))"
    and R_malloc [simp]: "R w (final (malloc n w))"
    and R_sendtoErr [simp]: "R w (final (sendtoErr s buf sz (server w) w))"
    and R_rr_seq_num [simp]: "R w (w\<lparr>rr_seq_num := k\<rparr>)"
    and R_srej_seq_num [simp]: "R w (w\<lparr>srej_seq_num := k\<rparr>)"
begin

lemma R_self [simp]: "R w w"
  by (rule R_refl)

lemma R_poll_for_awaited [simp]: "R w (final (poll_for_awaited s p e w))"
  unfolding poll_for_awaited_def
  by (intro bnd_final) (auto intro!: bnd_final)

lemma R_poll_after [simp]:
  "R w (final (poll_for_awaited s p e (w\<lparr>rr_seq_num := n\<rparr>)))"
  "R w (final (poll_for_awaited s p e (w\<lparr>srej_seq_num := n\<rparr>)))"
  by (rule R_trans [OF R_rr_seq_num R_poll_for_awaited],
      rule R_trans [OF R_srej_seq_num R_poll_for_awaited])

lemma R_send_rr_loop [simp]: "R w (final (send_rr_loop s p b e n w))"
proof (induction s p b e n w rule: send_rr_loop.induct)
  case (1 s p b e n w)
  have "R w2 (final (send_rr_loop s p b e (Suc n) w2))"
    if "n < 9" "sendtoErr s b 11 (server w) w = Ok r w1" "\<not> 0 \<le> r"
      "poll_for_awaited s p e (w1\<lparr>rr_seq_num := rr_seq_num w1 + 1\<rparr>) = Ok False w2" for r w1 w2
    using 1 [OF that] by simp
  then show ?case
    unfolding send_rr_loop.simps [of s p b e n w] by (auto intro!: bnd_final)
qed

lemma R_send_srej_loop [simp]: "R w (final (send_srej_loop s p e n w))"
proof (induction s p e n w rule: send_srej_loop.induct)
  case (1 s p e n w)
  show ?case
    unfolding send_srej_loop.simps [of s p e n w]
    by (auto intro!: bnd_final intro: 1 [unfolded Suc_eq_plus1 [symmetric]])
qed

lemma R_resendLastControl [simp]: "R w (final (resendLastControl b s w))"
  unfolding resendLastControl_def by (auto intro!: bnd_final)

lemma R_doBufferState [simp]: "R w (final (doBufferState rbuf s p b w))"
  unfolding doBufferState_def by (auto simp: Let_def intro!: bnd_final)

end

locale receiver_writes = receiver_effects R for R :: "client \<Rightarrow> client \<Rightarrow> bool" +
  assumes R_fwrite [simp]: "R w (fwrite fp bs w)"
begin

lemma R_writePayloadToFile [simp]: "R w (final (writePayloadToFile b fp p w))"
  unfolding writePayloadToFile_def by (auto simp: Let_def intro!: bnd_final)

lemma R_doInOrderState [simp]: "R w (final (doInOrderState rbuf fp s p b w))"
  unfolding doInOrderState_def by (auto simp: Let_def intro!: bnd_final)

lemma R_doFlushingState [simp]: "R w (final (doFlushingState rbuf fp w))"
  unfolding doFlushingState_def by (auto simp: Let_def intro!: bnd_final)

lemma R_handleDataPacket [simp]: "R w (final (handleDataPacket rbuf fp st s p b w))"
  unfolding handleDataPacket_def by (auto split: ReceiveState.split intro!: bnd_final)

end

text \<open>
  What every receiving step respects: poll answers are only consumed, datagrams are
  only added and only go to the server, no socket is closed and the server's address
  does not change.
\<close>

definition evolves :: "client \<Rightarrow> client \<Rightarrow> bool" where
  "evolves w w' \<longleftrightarrow> length (poll_q w') \<le> length (poll_q w) \<and> server w' = server w
     \<and> closed w' = closed w \<and> set (recv_q w') \<subseteq> set (recv_q w) \<and> heap_fn w' = heap_fn w
     \<and> (\<exists>ds. sent w' = sent w @ ds \<and> (\<forall>d \<in> set ds. fst (snd d) = server w))"

lemma evolves_sendtoErr: "evolves w (final (sendtoErr s buf len (server w) w))"
proof -
  obtain pm k ds where "final (sendtoErr s buf len (server w) w)
      = w\<lparr>pmgr := pm, send_no := k, sent := sent w @ ds\<rparr>" "\<forall>d \<in> set ds. fst (snd d) = server w"
    using final_sendtoErr [of s buf len "server w" w] by blast
  then show ?thesis by (simp add: evolves_def)
qed

lemma length_poll_q_pollCall: "length (poll_q (final (pollCall t w))) \<le> length (poll_q w)"
  by (auto simp: pollCall_def on_pset_def split: list.split res.splits)

interpretation evolving: receiver_writes evolves
proof
  show "evolves w w" for w by (simp add: evolves_def)
  show "evolves u w" if "evolves u v" "evolves v w" for u v w
    using that by (fastforce simp: evolves_def)
  show "evolves w (final (pollCall t w))" for t w
    using final_pollCall [of t w] length_poll_q_pollCall [of t w] by (auto simp: evolves_def)
  show "evolves w (final (recvfrom buf len w))" for buf len w
    using final_recvfrom [of buf len w] recv_q_recvfrom [of buf len w] by (auto simp: evolves_def)
qed (simp_all add: evolves_sendtoErr, simp_all add: evolves_def malloc_def fwrite_def)

lemma poll_q_handleDataPacket:
  assumes "handleDataPacket rbuf fp st s p b w = Ok r w'"
  shows "length (poll_q w') \<le> length (poll_q w)"
  using evolving.R_handleDataPacket [of w rbuf fp st s p b] assms by (simp add: evolves_def)

section \<open>doGetDataState\<close>

text \<open>
  The receive loop. \<open>recvfrom\<close> is called with the size of the packed struct
  \<open>RPacket\<close> (1407 bytes) on a block of \<open>7 + buffer_size\<close> bytes.
\<close>

definition sizeof_RPacket :: nat where "sizeof_RPacket = 1407"

definition finishGetData :: "ReceiverBuffer \<Rightarrow> client \<Rightarrow> (client, state) res" where
  "finishGetData rbuf w = bnd (lift (freeReceiverBuffer rbuf) w) (\<lambda>_ w. Ok DONE w)"

function getDataLoop :: "int \<Rightarrow> RcopyParams \<Rightarrow> byte list \<Rightarrow> ReceiverBuffer \<Rightarrow> int \<Rightarrow> client \<Rightarrow> (client, state) res" where
  "getDataLoop socketNum params fp rbuf attempts w =
     bnd (pollCall 1000 w) (\<lambda>pollResult w.
       if pollResult > 0 then
         bnd (malloc (response_size params) w) (\<lambda>m w.
           case m of None \<Rightarrow> Stop (Exited 1) w
           | Some receivedBuffer \<Rightarrow>
             bnd (recvfrom receivedBuffer sizeof_RPacket w) (\<lambda>(bytes, receivedBuffer, _) w.
               if bytes < 0 then Ok DONE w
               else if bytes = 0 then Ok DONE w
               else bnd (handleDataPacket rbuf fp (subState w) socketNum params receivedBuffer w)
                 (\<lambda>(rbuf, st) w.
                   let w = w\<lparr>subState := st\<rparr> in
                   if receivedBuffer ! 6 = 10 then Ok DONE w
                   else getDataLoop socketNum params fp rbuf attempts w)))
       else
         if attempts + 1 > 9 then Ok DONE w
         else finishGetData rbuf w)"
  by pat_completeness auto
termination
  by (relation "measure (\<lambda>(_, _, _, _, _, w). length (poll_q w))")
    (auto simp: malloc_def elim!: pollCall_Ok recvfrom_Ok dest!: poll_q_handleDataPacket)

declare getDataLoop.simps [simp del]

definition doGetDataState :: "int \<Rightarrow> RcopyParams \<Rightarrow> client \<Rightarrow> (client, state) res" where
  "doGetDataState socketNum params w =
     (let fp = cstring (dest_filename params) in
      bnd (fopen_ab fp w) (\<lambda>opened w.
        if \<not> opened then Ok DONE w
        else
          case initReceiverBuffer (heap_fn w) (heap_no w) (buffer_size params) (window_size params) of
            (rbuf, k) \<Rightarrow>
              (let w = w\<lparr>heap_no := k\<rparr> in
               case rbuf of None \<Rightarrow> Ok DONE w
               | Some rbuf \<Rightarrow> getDataLoop socketNum params fp rbuf 0 w)))"

section \<open>What reaches the file\<close>

text \<open>
  Sending, polling and receiving leave the files and the receiver's sub-state alone,
  a network that accepts every datagram stays one, the datagrams still to be
  received are among those before, and the heap is the same.
\<close>

definition quiet :: "client \<Rightarrow> client \<Rightarrow> bool" where
  "quiet w w' \<longleftrightarrow> fs w' = fs w \<and> subState w' = subState w \<and> (reliable w \<longrightarrow> reliable w')
     \<and> set (recv_q w') \<subseteq> set (recv_q w) \<and> heap_fn w' = heap_fn w"

lemma quiet_sendtoErr: "quiet w (final (sendtoErr s buf len dest w))"
proof -
  obtain pm k ds where f: "final (sendtoErr s buf len dest w)
      = w\<lparr>pmgr := pm, send_no := k, sent := sent w @ ds\<rparr>"
    using final_sendtoErr by blast
  have "reliable (final (sendtoErr s buf len dest w))" if "reliable w"
  proof (cases "sendtoErr s buf len dest w")
    case (Ok r w')
    then show ?thesis using sendtoErr_reliable [OF Ok that] by simp
  next
    case (Stop r w')
    then have "w' = w" by (auto simp: sendtoErr_def Let_def bnd_Stop_iff lift_Stop_iff lift_Ok_iff
          deliver_def split: if_splits)
    then show ?thesis using Stop that by simp
  qed
  then show ?thesis using f by (simp add: quiet_def)
qed

interpretation quietly: receiver_effects quiet
proof
  show "quiet w (final (pollCall t w))" for t w
    using final_pollCall [of t w] by (auto simp: quiet_def reliable_def)
  show "quiet w (final (recvfrom buf len w))" for buf len w
    using final_recvfrom [of buf len w] recv_q_recvfrom [of buf len w] by (auto simp: quiet_def reliable_def)
qed (simp_all add: quiet_sendtoErr, simp_all add: quiet_def malloc_def reliable_def, blast?)

lemma quiet_heap_no [simp]: "quiet w (w\<lparr>heap_no := k\<rparr>)"
  by (simp add: quiet_def reliable_def)

lemma quiet_finishGetData [simp]: "quiet w (final (finishGetData b w))"
  unfolding finishGetData_def by (auto intro!: quietly.bnd_final)

text \<open>
  \<open>doBufferState\<close> stores 8 bytes of each packet, so a held packet has one
  byte of payload. Such a buffer never yields bytes when it is flushed: the length
  passed to \<open>fwrite\<close> would be \<open>1 - 7\<close>.
\<close>

definition header_only :: "ReceiverBuffer \<Rightarrow> bool" where
  "header_only b \<longleftrightarrow> (\<forall>p. Some p \<in> set (rb_buffer b) \<longrightarrow> valid p = 1 \<longrightarrow> data_size p = 1)"

lemma header_only_flush_slot:
  assumes "header_only b" "flush_slot b = Inr (Some (i, p))"
  shows "flush_bytes p = Inl OutOfBounds"
proof -
  note s = flush_slot_Some [OF assms(2)]
  have "Some p \<in> set (rb_buffer b)"
    using s(1,2,3) by (metis nat_less_iff nth_mem)
  then have "data_size p = 1" using assms(1) s(4) by (simp add: header_only_def)
  moreover have "s32 (1 - 7) = - 6" by (simp add: s32_id int_range_def)
  ultimately show ?thesis by (simp add: flush_bytes_def check_def)
qed

lemma header_only_flushBuffer:
  assumes "header_only b" "flushBuffer b = Inr (n, b', out)"
  shows "out = []" "n = 0" "b' = b\<lparr>expected := s32 (expected b + 1)\<rparr>" "header_only b'"
proof -
  have h: "header_only (b\<lparr>expected := s32 (expected b + 1)\<rparr>)"
    using assms(1) by (simp add: header_only_def)
  show e: "out = []" "n = 0" "b' = b\<lparr>expected := s32 (expected b + 1)\<rparr>"
    using assms(2) header_only_flush_slot [OF h] unfolding flushBuffer_def
    by (subst (asm) flush_loop.simps; auto split: sum.splits option.splits)+
  then show "header_only b'" using h by simp
qed

lemma header_only_insert:
  assumes "header_only b" "insertReceiverPacket b r sizeof_pointer = Inr b'"
  shows "header_only b'"
  using assms
  by (auto simp: header_only_def insertReceiverPacket_def sizeof_pointer_def sbind_Inr_iff Let_def
      split: if_splits dest!: subsetD [OF set_update_subset_insert])

lemma header_only_init:
  assumes "initReceiverBuffer h k bs ws = (Some b, k')"
  shows "header_only b"
  using assms
  by (auto simp: initReceiverBuffer_def header_only_def blank_packet_def
      split: option.splits if_splits prod.splits)

lemma handle_header_only:
  assumes "handleDataPacket rbuf fp st s p b w = Ok (rbuf', st') w'" "header_only rbuf"
  shows "header_only rbuf'"
proof (cases st)
  case BUFFERING
  then show ?thesis
    using assms header_only_insert [OF assms(2)]
    by (auto simp: handleDataPacket_def doBufferState_def Let_def lift_Ok_iff header_only_def
        elim!: bnd_Ok_E split: if_splits)
next
  case FLUSHING
  then show ?thesis
    using assms header_only_flushBuffer(4) [OF assms(2)]
    by (auto simp: handleDataPacket_def doFlushingState_def Let_def lift_Ok_iff
        elim!: bnd_Ok_E split: if_splits)
qed (use assms in \<open>auto simp: handleDataPacket_def doInOrderState_def Let_def header_only_def
        elim!: bnd_Ok_E split: if_splits\<close>)

lemma handle_done: "handleDataPacket rbuf fp RS_DONE s p b w = Ok (rbuf', st') w' \<Longrightarrow> st' = RS_DONE"
  by (auto simp: handleDataPacket_def elim!: bnd_Ok_E split: if_splits)

lemma send_rr_loop_reliable:
  assumes "send_rr_loop s p b e 0 w = Ok st w'" "reliable w"
  shows "st = RS_DONE" "reliable w'" "sent w' = sent w \<or> sent w' = sent w @ [(s, server w, take 11 b)]"
proof -
  obtain r w1 where r: "sendtoErr s b 11 (server w) w = Ok r w1"
      "(if 0 \<le> r then Ok RS_DONE w1
        else bnd (poll_for_awaited s p e (w1\<lparr>rr_seq_num := rr_seq_num w1 + 1\<rparr>)) (\<lambda>hit w.
          if hit then Ok IN_ORDER w else send_rr_loop s p b e (0 + 1) w)) = Ok st w'"
    using assms(1) unfolding send_rr_loop.simps [of s p b e 0 w] by (auto elim!: bnd_Ok_E)
  note q = sendtoErr_reliable [OF r(1) assms(2)]
  then have "st = RS_DONE \<and> w' = w1" using r(2) by simp
  then show "st = RS_DONE" "reliable w'" "sent w' = sent w \<or> sent w' = sent w @ [(s, server w, take 11 b)]"
    using q by auto
qed

lemma handle_quiet:
  assumes "st \<noteq> IN_ORDER" "header_only rbuf"
  shows "quiet w (final (handleDataPacket rbuf fp st s p b w))"
proof -
  have f: "quiet w (final (doFlushingState rbuf fp w))"
    using header_only_flushBuffer(1) [OF assms(2)]
    by (auto simp: doFlushingState_def Let_def lift_Ok_iff intro!: quietly.bnd_final)
  show ?thesis
    using assms(1) f
    by (auto simp: handleDataPacket_def split: ReceiveState.splits
        intro!: quietly.bnd_final)
qed

text \<open>
  What writing a packet adds to the file: the \<open>buffer_size\<close> bytes behind the
  header in the receive block \<open>b\<close>.
\<close>

definition wrote :: "byte list \<Rightarrow> RcopyParams \<Rightarrow> byte list \<Rightarrow> client \<Rightarrow> client \<Rightarrow> bool" where
  "wrote fp p b w w' \<longleftrightarrow> 7 + buffer_size p \<le> int (length b) \<and> 0 < buffer_size p
     \<and> fs w' = (fs w)(fp \<mapsto> file_contents w fp @ take (nat (buffer_size p)) (drop 7 b))"

lemma writePayloadToFile_wrote:
  assumes "writePayloadToFile b fp p w = Ok u w'"
  shows "quiet w w' \<or> wrote fp p b w w'" "subState w' = subState w" "reliable w \<longrightarrow> reliable w'"
proof -
  let ?d = "take (nat (buffer_size p)) (drop 7 b)"
  have "w' = w \<or> 7 + buffer_size p \<le> int (length b) \<and> 0 < buffer_size p \<and> w' = fwrite fp ?d w"
    using assms by (auto simp: writePayloadToFile_def Let_def lift_Ok_iff check_def
        elim!: bnd_Ok_E split: if_splits)
  then show "quiet w w' \<or> wrote fp p b w w'" "subState w' = subState w"
      "reliable w \<longrightarrow> reliable w'"
    by (auto simp: fwrite_def reliable_def wrote_def)
qed

lemma handle_in_order:
  assumes "reliable w"
  shows "quiet w (final (handleDataPacket rbuf fp IN_ORDER s p b w)) \<or>
    (wrote fp p b w (final (handleDataPacket rbuf fp IN_ORDER s p b w)) \<and>
     (\<forall>r st w'. handleDataPacket rbuf fp IN_ORDER s p b w = Ok (r, st) w' \<longrightarrow> st = RS_DONE))"
proof (cases "pdu_seq b < word_of_int (expected rbuf) \<or> pdu_seq b \<noteq> word_of_int (expected rbuf)")
  case True
  then have "quiet w (final (handleDataPacket rbuf fp IN_ORDER s p b w))"
    by (auto simp: handleDataPacket_def doInOrderState_def Let_def intro!: quietly.bnd_final)
  then show ?thesis ..
next
  case False
  show ?thesis
  proof (cases "writePayloadToFile b fp p w")
    case (Stop r w')
    then have "w' = w"
      by (auto simp: writePayloadToFile_def Let_def bnd_Stop_iff lift_Stop_iff split: if_splits)
    with False Stop show ?thesis by (simp add: handleDataPacket_def doInOrderState_def Let_def)
  next
    case (Ok u w1)
    note o = writePayloadToFile_wrote [OF Ok]
    define e where "e = (word_of_int (s32 (expected rbuf + 1)) :: u32)"
    define m where "m = send_rr_loop s p (final_rr (rr_seq_num w1) e) e 0 w1"
    obtain rb where eq: "handleDataPacket rbuf fp IN_ORDER s p b w = bnd m (\<lambda>st w. Ok (rb, st) w)"
      using False Ok by (auto simp: handleDataPacket_def doInOrderState_def Let_def m_def e_def)
    have q: "quiet w1 (final m)" unfolding m_def by simp
    have fin: "final (handleDataPacket rbuf fp IN_ORDER s p b w) = final m"
      unfolding eq by (cases m) auto
    have d: "st = RS_DONE" if "handleDataPacket rbuf fp IN_ORDER s p b w = Ok (r, st) w'" for r st w'
      using that send_rr_loop_reliable(1) [of s p _ _ w1] o(3) assms unfolding eq m_def
      by (auto elim!: bnd_Ok_E)
    from o(1) show ?thesis
    proof
      assume "quiet w w1"
      then have "quiet w (final m)" using q by (rule quietly.R_trans)
      then show ?thesis by (simp add: fin)
    next
      assume "wrote fp p b w w1"
      then have "wrote fp p b w (final m)" using q by (simp add: wrote_def quiet_def)
      then show ?thesis using d by (simp add: fin)
    qed
  qed
qed

text \<open>
  The promise of a whole run: nothing is written once the sub-state is
  \<open>RS_DONE\<close>, and at most one payload is written before; it is the payload of
  a receive block that holds a datagram of \<open>E\<close>, in memory of any contents.
\<close>

definition received_block :: "heap \<Rightarrow> recv_event set \<Rightarrow> RcopyParams \<Rightarrow> byte list \<Rightarrow> bool" where
  "received_block h E p b \<longleftrightarrow> (\<exists>a d g j. Datagram a d \<in> E \<and> h j = Some g
     \<and> length (take sizeof_RPacket d) \<le> response_size p
     \<and> b = memcpy_at (junk_bytes g 0 (response_size p)) 0 (take sizeof_RPacket d))"

definition one_payload :: "heap \<Rightarrow> recv_event set \<Rightarrow> byte list \<Rightarrow> RcopyParams \<Rightarrow> client \<Rightarrow> client \<Rightarrow> bool" where
  "one_payload h E fp p w v \<longleftrightarrow>
     (subState w = RS_DONE \<longrightarrow> fs v = fs w) \<and>
     (fs v = fs w \<or> (\<exists>b. received_block h E p b \<and> wrote fp p b w v))"

lemma one_payload_quiet: "quiet w v \<Longrightarrow> one_payload h E fp p w v"
  by (simp add: one_payload_def quiet_def)

lemma one_payload_trans: "quiet w u \<Longrightarrow> one_payload h E fp p u v \<Longrightarrow> one_payload h E fp p w v"
  by (simp add: one_payload_def quiet_def wrote_def file_contents_def)

lemma one_payload_bnd:
  assumes "quiet w (final m)" "\<And>a u. m = Ok a u \<Longrightarrow> quiet w u \<Longrightarrow> one_payload h E fp p u (final (f a u))"
  shows "one_payload h E fp p w (final (bnd m f))"
  using assms by (cases m) (auto intro: one_payload_quiet one_payload_trans)

lemma recvfrom_block:
  assumes "recvfrom blk sizeof_RPacket w = Ok (n, b, src) w'" "0 \<le> n"
    "h j = Some g" "blk = junk_bytes g 0 (response_size p)"
  shows "received_block h (set (recv_q w)) p b"
proof -
  have t: "take (min (length d) sizeof_RPacket) d = take sizeof_RPacket d" for d :: "byte list"
    by (simp add: min_def)
  obtain a d q where d: "recv_q w = Datagram a d # q" "b = memcpy_at blk 0 (take sizeof_RPacket d)"
      "length (take sizeof_RPacket d) \<le> length blk"
    using assms(1,2) t
    by (auto simp: recvfrom_def Let_def not_less min.commute split: list.splits recv_event.splits if_splits)
  then have "Datagram a d \<in> set (recv_q w)" by simp
  moreover have "length blk = response_size p" by (simp add: assms(4) junk_bytes_def)
  ultimately show ?thesis using d(2,3) assms(3,4) unfolding received_block_def by metis
qed

lemma one_payload_step:
  assumes h: "header_only rbuf" "reliable w" "received_block h E p b"
    and next': "\<And>rbuf' st' u. header_only rbuf' \<Longrightarrow> reliable u \<Longrightarrow> set (recv_q u) \<subseteq> set (recv_q w) \<Longrightarrow>
      heap_fn u = heap_fn w \<Longrightarrow>
      handleDataPacket rbuf fp (subState w) s p b w = Ok (rbuf', st') u \<Longrightarrow>
      one_payload h E fp p (u\<lparr>subState := st'\<rparr>) (final (f (rbuf', st') u))"
    and reliable': "\<And>r u. handleDataPacket rbuf fp (subState w) s p b w = Ok r u \<Longrightarrow> reliable u"
  shows "one_payload h E fp p w (final (bnd (handleDataPacket rbuf fp (subState w) s p b w) f))"
proof -
  let ?H = "handleDataPacket rbuf fp (subState w) s p b w"
  have cases: "quiet w (final ?H) \<or> subState w = IN_ORDER \<and> wrote fp p b w (final ?H) \<and>
      (\<forall>r st u. ?H = Ok (r, st) u \<longrightarrow> st = RS_DONE)"
    using handle_quiet [OF _ h(1)] handle_in_order [OF h(2)] by (cases "subState w = IN_ORDER") auto
  show ?thesis
  proof (cases ?H)
    case (Stop r u)
    with cases h(3) show ?thesis by (auto simp: one_payload_def quiet_def)
  next
    case (Ok r u)
    obtain rbuf' st' where r: "r = (rbuf', st')" by (cases r)
    have q: "set (recv_q u) \<subseteq> set (recv_q w)" "heap_fn u = heap_fn w"
      using evolving.R_handleDataPacket [of w rbuf fp "subState w" s p b] Ok by (simp_all add: evolves_def)
    have n: "one_payload h E fp p (u\<lparr>subState := st'\<rparr>) (final (f (rbuf', st') u))"
      using next' [OF _ reliable' [OF Ok] q Ok [unfolded r]] handle_header_only Ok r h(1) by blast
    have d: "subState w = RS_DONE \<Longrightarrow> st' = RS_DONE" using handle_done Ok r by auto
    show ?thesis
      using cases n d Ok r h(3)
      by (auto simp: one_payload_def quiet_def wrote_def file_contents_def)
  qed
qed

lemma handle_reliable:
  assumes "handleDataPacket rbuf fp st s p b w = Ok r w'" "reliable w" "header_only rbuf"
  shows "reliable w'"
proof (cases "st = IN_ORDER \<and> pdu_seq b = word_of_int (expected rbuf)")
  case False
  then have "quiet w (final (handleDataPacket rbuf fp st s p b w))"
    using handle_quiet [OF _ assms(3)]
    by (cases "st = IN_ORDER")
      (auto simp: handleDataPacket_def [of _ _ IN_ORDER] doInOrderState_def Let_def
        intro!: quietly.bnd_final)
  then show ?thesis using assms(1,2) by (simp add: quiet_def)
next
  case True
  then obtain u w1 e st' where "writePayloadToFile b fp p w = Ok u w1"
      "send_rr_loop s p (final_rr (rr_seq_num w1) e) e 0 w1 = Ok st' w'"
    using assms(1) by (auto simp: handleDataPacket_def doInOrderState_def Let_def elim!: bnd_Ok_E)
  then show ?thesis
    using writePayloadToFile_wrote(3) send_rr_loop_reliable(2) assms(2) by blast
qed

lemma getDataLoop_one_payload:
  assumes "header_only rbuf" "reliable w" "set (recv_q w) \<subseteq> E" "heap_fn w = h"
  shows "one_payload h E fp p w (final (getDataLoop s p fp rbuf n w))"
  using assms
proof (induction s p fp rbuf n w rule: getDataLoop.induct)
  case (1 s p fp rbuf n w)
  show ?case
    unfolding getDataLoop.simps [of s p fp rbuf n w]
  proof (rule one_payload_bnd)
    fix r w1 assume r: "pollCall 1000 w = Ok r w1" "quiet w w1"
    let ?k = "\<lambda>receivedBuffer (rbuf', st') u. let u = u\<lparr>subState := st'\<rparr> in
      if receivedBuffer ! 6 = 10 then Ok DONE u else getDataLoop s p fp rbuf' n u"
    let ?h = "\<lambda>receivedBuffer w. bnd (handleDataPacket rbuf fp (subState w) s p receivedBuffer w)
      (?k receivedBuffer)"
    let ?g = "bnd (malloc (response_size p) w1) (\<lambda>m w. case m of None \<Rightarrow> Stop (Exited 1) w
      | Some receivedBuffer \<Rightarrow> bnd (recvfrom receivedBuffer sizeof_RPacket w) (\<lambda>(bytes, receivedBuffer, _) w.
          if bytes < 0 then Ok DONE w else if bytes = 0 then Ok DONE w else ?h receivedBuffer w))"
    have "one_payload h E fp p w1 (final ?g)" if pos: "0 < r"
    proof (rule one_payload_bnd)
      fix m w2 assume m: "malloc (response_size p) w1 = Ok m w2" "quiet w1 w2"
      show "one_payload h E fp p w2 (final (case m of None \<Rightarrow> Stop (Exited 1) w2
        | Some receivedBuffer \<Rightarrow> bnd (recvfrom receivedBuffer sizeof_RPacket w2) (\<lambda>(bytes, receivedBuffer, _) w.
            if bytes < 0 then Ok DONE w else if bytes = 0 then Ok DONE w else ?h receivedBuffer w)))"
      proof (cases m)
        case (Some blk)
        show ?thesis
          unfolding Some option.case
        proof (rule one_payload_bnd)
          fix a w3 assume a: "recvfrom blk sizeof_RPacket w2 = Ok a w3" "quiet w2 w3"
          obtain bytes buf src where abs: "a = (bytes, buf, src)" by (cases a)
          have q: "quiet w w3" using r m a quietly.R_trans by blast
          then have rel: "reliable w3" using "1.prems"(2) by (simp add: quiet_def)
          have E: "set (recv_q w2) \<subseteq> E" "set (recv_q w3) \<subseteq> E"
            using "1.prems"(3) r(2) m(2) a(2) by (auto simp: quiet_def)
          obtain j g where blk: "heap_fn w j = Some g" "blk = junk_bytes g 0 (response_size p)"
            using m(1) Some r(2) by (auto simp: malloc_def quiet_def)
          have "one_payload h E fp p w3 (final (?h buf w3))" if b: "\<not> bytes < 0" "bytes \<noteq> 0"
          proof (rule one_payload_step [OF "1.prems"(1) rel])
            have "received_block h (set (recv_q w2)) p buf"
              using recvfrom_block [where h = h, OF a(1) [unfolded abs] _ blk(1) [unfolded "1.prems"(4)] blk(2)] b(1) by simp
            then show "received_block h E p buf" using E(1) by (auto simp: received_block_def)
            fix rbuf' st' u
            assume u: "header_only rbuf'" "reliable u" "set (recv_q u) \<subseteq> set (recv_q w3)" "heap_fn u = heap_fn w3"
              "handleDataPacket rbuf fp (subState w3) s p buf w3 = Ok (rbuf', st') u"
            have "reliable (u\<lparr>subState := st'\<rparr>)" using u(2) by (simp add: reliable_def)
            with "1.IH" [OF r(1) pos m(1) Some a(1) abs refl b u(5) refl refl] u(1,3,4) E(2) q "1.prems"(4)
            show "one_payload h E fp p (u\<lparr>subState := st'\<rparr>) (final (?k buf (rbuf', st') u))"
              by (simp add: Let_def one_payload_quiet quiet_def)
          qed (use handle_reliable rel "1.prems"(1) in blast)
          then show "one_payload h E fp p w3 (final ((\<lambda>(bytes, receivedBuffer, _) w.
              if bytes < 0 then Ok DONE w else if bytes = 0 then Ok DONE w else ?h receivedBuffer w) a w3))"
            by (simp add: abs one_payload_quiet)
        qed simp
      qed (simp add: one_payload_quiet)
    qed simp
    then show "one_payload h E fp p w1 (final (if 0 < r then ?g
        else if 9 < n + 1 then Ok DONE w1 else finishGetData rbuf w1))"
      by (simp add: one_payload_quiet)
  qed simp
qed

text \<open>Every run of the state keeps what its steps keep.\<close>

locale receiver_runs = receiver_writes R for R :: "client \<Rightarrow> client \<Rightarrow> bool" +
  assumes R_subState: "R w (w\<lparr>subState := st\<rparr>)"
    and R_heap_no [simp]: "R w (w\<lparr>heap_no := h\<rparr>)"
    and R_fopen_ab [simp]: "R w (final (fopen_ab fp w))"
begin

lemma R_getDataLoop [simp]: "R w (final (getDataLoop s p fp rbuf n w))"
proof (induction s p fp rbuf n w rule: getDataLoop.induct)
  case (1 s p fp rbuf n w)
  have "R w3 (final ((\<lambda>(rbuf, st) w. let w = w\<lparr>subState := st\<rparr> in
      if buf ! 6 = 10 then Ok DONE w else getDataLoop s p fp rbuf n w) r w3))"
    if "pollCall 1000 w = Ok x w0" "0 < x" "malloc (response_size p) w0 = Ok (Some blk) w1"
      "recvfrom blk sizeof_RPacket w1 = Ok (bytes, buf, src) w2" "\<not> bytes < 0" "bytes \<noteq> 0"
      "handleDataPacket rbuf fp (subState w2) s p buf w2 = Ok r w3"
    for x w0 blk w1 bytes buf src w2 r w3
  proof (cases r)
    case (Pair rb st)
    have "R (w3\<lparr>subState := st\<rparr>) (final (getDataLoop s p fp rb n (w3\<lparr>subState := st\<rparr>)))"
      if "buf ! 6 \<noteq> 10"
      using 1 [OF \<open>pollCall 1000 w = Ok x w0\<close> \<open>0 < x\<close> \<open>malloc _ w0 = _\<close> refl \<open>recvfrom _ _ _ = _\<close>
          refl refl \<open>\<not> bytes < 0\<close> \<open>bytes \<noteq> 0\<close> \<open>handleDataPacket _ _ _ _ _ _ _ = _\<close> Pair refl that] .
    then show ?thesis
      using R_trans [OF R_subState] R_subState by (auto simp: Pair Let_def)
  qed
  then show ?case
    unfolding getDataLoop.simps [of s p fp rbuf n w]
    by (auto simp: finishGetData_def intro!: bnd_final split: option.split)
qed

lemma R_doGetDataState [simp]: "R w (final (doGetDataState s p w))"
  unfolding doGetDataState_def Let_def
  by (auto intro!: bnd_final R_trans [OF R_heap_no R_getDataLoop] split: prod.split option.split)

end

interpretation evolving: receiver_runs evolves
proof
  show "evolves w (final (fopen_ab fp w))" for fp w
    by (simp add: evolves_def fopen_ab_def)
qed (simp_all add: evolves_def)

lemma doGetDataState_file:
  assumes "reliable w" "set (recv_q w) \<subseteq> E" "heap_fn w = h"
  shows "\<exists>d. (d = [] \<or> (\<exists>b. received_block h E p b \<and> 7 + buffer_size p \<le> int (length b) \<and> 0 < buffer_size p
          \<and> d = take (nat (buffer_size p)) (drop 7 b))) \<and>
      file_contents (final (doGetDataState s p w)) (cstring (dest_filename p)) =
        file_contents w (cstring (dest_filename p)) @ d \<and>
      (\<forall>g. g \<noteq> cstring (dest_filename p) \<longrightarrow> fs (final (doGetDataState s p w)) g = fs w g)"
proof -
  let ?fp = "cstring (dest_filename p)" and ?v = "final (doGetDataState s p w)"
  have "fs ?v = fs w \<or> (\<exists>u. file_contents u ?fp = file_contents w ?fp \<and>
      (\<forall>g. g \<noteq> ?fp \<longrightarrow> fs u g = fs w g) \<and>
      (fs ?v = fs u \<or> (\<exists>b. received_block h E p b \<and> wrote ?fp p b u ?v)))"
  proof (cases "writable w ?fp")
    case False
    then show ?thesis by (simp add: doGetDataState_def fopen_ab_def)
  next
    case True
    define u where "u = (if fs w ?fp = None then w\<lparr>fs := (fs w)(?fp \<mapsto> [])\<rparr> else w)"
    have u: "reliable u" "file_contents u ?fp = file_contents w ?fp" "\<forall>g. g \<noteq> ?fp \<longrightarrow> fs u g = fs w g"
        "recv_q u = recv_q w" "heap_fn u = h"
      using assms by (auto simp: u_def reliable_def file_contents_def)
    obtain rb k where i: "initReceiverBuffer (heap_fn u) (heap_no u) (buffer_size p) (window_size p) = (rb, k)"
      by (cases "initReceiverBuffer (heap_fn u) (heap_no u) (buffer_size p) (window_size p)")
    have v: "?v = (case rb of None \<Rightarrow> u\<lparr>heap_no := k\<rparr>
        | Some b \<Rightarrow> final (getDataLoop s p ?fp b 0 (u\<lparr>heap_no := k\<rparr>)))"
      using True i by (simp add: doGetDataState_def fopen_ab_def u_def Let_def split: option.split)
    have "fs ?v = fs u \<or> (\<exists>b. received_block h E p b \<and> wrote ?fp p b u ?v)"
    proof (cases rb)
      case (Some b)
      have "one_payload h E ?fp p (u\<lparr>heap_no := k\<rparr>) (final (getDataLoop s p ?fp b 0 (u\<lparr>heap_no := k\<rparr>)))"
        using header_only_init i Some u(1,4,5) assms(2)
        by (intro getDataLoop_one_payload) (auto simp: reliable_def)
      then show ?thesis by (simp add: v Some one_payload_def wrote_def file_contents_def)
    qed (simp add: v)
    with u show ?thesis by blast
  qed
  then show ?thesis by (auto simp: wrote_def file_contents_def)
qed

section \<open>Properties\<close>

text \<open>
  A concrete client, for the instances below: all sends succeed, memory never runs
  out, nothing is dropped and \<open>poll\<close> has the answers \<open>pq\<close>.
\<close>

definition idle_client :: "(int \<times> int list) list \<Rightarrow> recv_event list \<Rightarrow> client" where
  "idle_client pq rq =
     \<lparr>pset = \<lparr>pollFileDescriptors = [\<lparr>fd = 0, events = 0, revents = 0\<rparr>, \<lparr>fd = 0, events = 0, revents = 0\<rparr>],
              maxFileDescriptor = 0, currentPollSetSize = 2\<rparr>,
      pmgr = \<lparr>m_ErrorRate = 0, m_MsgNo = 0, m_ErrorCase_Constant = [], m_ErrorCase_Chance = [],
              rand_seed = 0, rand_pos = 0, nextSeed = 1, env_ErrRate = False, env_ErrDrop = False,
              env_ErrFlip = False, env_SeedRand = False\<rparr>,
      poll_q = pq, recv_q = rq, send_ok = (\<lambda>_. True), send_no = 0, sent = [], closed = [],
      sys_q = [], sys_log = [], addr_info = (\<lambda>_. Some 1), fs = Map.empty,
      writable = (\<lambda>_. True), heap_fn = (\<lambda>_. Some (\<lambda>_. 0)), heap_no = 0,
      drand48 = (\<lambda>_ _. 0), to_float = (\<lambda>r. r), to_double = (\<lambda>r. r), time_now = 0, stack_junk = (\<lambda>_. 0),
      static_next = 0, server = \<lparr>sin6_addr = 1, sin6_port = 0\<rparr>, current_server_port = 0,
      rr_seq_num = 0, srej_seq_num = 0, subState = IN_ORDER\<rparr>"

lemma idle_client_reliable: "reliable (idle_client pq rq)" "channel_ok (idle_client pq rq)"
  by (simp_all add: reliable_def channel_ok_def drop_channel_def idle_client_def)

text \<open>The same client on a channel that loses nothing: no draw falls below the rate.\<close>

abbreviation lossless_client_at :: "(int \<times> int list) list \<Rightarrow> recv_event list \<Rightarrow> client" where
  "lossless_client_at pq rq \<equiv> (idle_client pq rq)\<lparr>drand48 := (\<lambda>_ _. 1 / 2)\<rparr>"

lemma lossless_client_at:
  "lossless (lossless_client_at pq rq)" "channel_ok (lossless_client_at pq rq)"
  "send_ok (lossless_client_at pq rq) k" "sent (lossless_client_at pq rq) = []"
  by (simp_all add: lossless_def channel_ok_def drop_channel_def idle_client_def)

lemma idle_client_simps [simp]: "file_contents (idle_client pq rq) f = []" "send_ok (idle_client pq rq) k"
  by (simp_all add: file_contents_def idle_client_def)

text \<open>
  Bounded damage: over an accepting network, a whole run of \<open>doGetDataState\<close>,
  whatever arrives and however it ends, leaves the destination file as it was or
  extended by one payload of exactly \<open>buffer_size\<close> bytes, and touches no other
  file. The transfer never gets further than one packet.
\<close>

theorem receiver_writes_one_payload:
  assumes "reliable w"
  shows "\<exists>d. (d = [] \<or> int (length d) = buffer_size p) \<and>
      file_contents (final (doGetDataState s p w)) (cstring (dest_filename p)) =
        file_contents w (cstring (dest_filename p)) @ d \<and>
      (\<forall>g. g \<noteq> cstring (dest_filename p) \<longrightarrow> fs (final (doGetDataState s p w)) g = fs w g)"
  using doGetDataState_file [OF assms order_refl refl, of p s] by fastforce

theorem receiver_writes_one_payload_witness:
  "reliable (idle_client [] []) \<and> (\<exists>d. (d = [] \<or> int (length d) = 4) \<and>
     file_contents (final (doGetDataState 3 \<lparr>src_filename = [97], dest_filename = [98, 0],
         window_size = 2, buffer_size = 4, error_rate = 0, remote_machine = [], remote_port = 1\<rparr>
       (idle_client [] []))) [98] = d)"
  using receiver_writes_one_payload [OF idle_client_reliable(1) [of "[]" "[]"], where s = 3 and
      p = "\<lparr>src_filename = [97], dest_filename = [98, 0], window_size = 2, buffer_size = 4,
        error_rate = 0, remote_machine = [], remote_port = 1\<rparr>"] idle_client_reliable(1) [of "[]" "[]"]
  by (auto simp: cstring_def)

lemma deliver_expected:
  assumes "channel_ok w" "\<And>k. send_ok w k"
    and "0 \<le> expected rbuf" "expected rbuf < 2147483647" "pdu_seq b = word_of_int (expected rbuf)"
    and "0 < buffer_size p" "7 + buffer_size p \<le> int (length b)"
  shows "\<exists>w'. handleDataPacket rbuf fp IN_ORDER s p b w =
      Ok (rbuf\<lparr>expected := expected rbuf + 1,
               lastControlPacket := final_rr (rr_seq_num w) (word_of_int (expected rbuf + 1)),
               lastControlPacketSize := 11, hasLastControl := 1\<rparr>, RS_DONE) w'
    \<and> fs w' = (fs w)(fp \<mapsto> file_contents w fp @ take (nat (buffer_size p)) (drop 7 b))
    \<and> (sent w' = sent w \<or>
       sent w' = sent w @ [(s, server w, final_rr (rr_seq_num w) (word_of_int (expected rbuf + 1)))])
    \<and> poll_q w' = poll_q w \<and> recv_q w' = recv_q w \<and> pset w' = pset w \<and> heap_fn w' = heap_fn w
    \<and> send_ok w' = send_ok w \<and> channel_ok w'
    \<and> (lossless w \<longrightarrow> lossless w' \<and>
       sent w' = sent w @ [(s, server w, final_rr (rr_seq_num w) (word_of_int (expected rbuf + 1)))])"
proof -
  define rr where "rr = final_rr (rr_seq_num w) (word_of_int (expected rbuf + 1))"
  define u where "u = fwrite fp (take (nat (buffer_size p)) (drop 7 b)) w"
  have e: "s32 (expected rbuf + 1) = expected rbuf + 1"
    using assms(3,4) by (simp add: s32_id int_range_def)
  have f: "fs u = (fs w)(fp \<mapsto> file_contents w fp @ take (nat (buffer_size p)) (drop 7 b))"
    "sent u = sent w" "server u = server w" "rr_seq_num u = rr_seq_num w" "send_ok u k" "channel_ok u" for k
    using assms(1,2) by (simp_all add: fwrite_def u_def channel_ok_def)
  have l: "length rr = 11"
    by (simp add: rr_def final_rr_def Let_def makeRR_SREJPacketAfterChecksum_def pdu_layouts)
  obtain r pm k ds where r: "sendtoErr s rr 11 (server u) u = Ok r (u\<lparr>pmgr := pm, send_no := k, sent := sent u @ ds\<rparr>)"
    "ds = [] \<or> ds = [(s, server u, take (nat 11) rr)]" "r = 11 \<or> r = - 1 \<and> ds = [] \<and> \<not> send_ok u (send_no u)"
    "channel_ok (u\<lparr>pmgr := pm, send_no := k, sent := sent u @ ds\<rparr>)"
    by (rule sendtoErr_total [OF f(6), of 11 rr s "server u"]) (auto simp: l)
  let ?w' = "u\<lparr>pmgr := pm, send_no := k, sent := sent u @ ds\<rparr>"
  have "send_rr_loop s p rr (word_of_int (expected rbuf + 1)) 0 u = Ok RS_DONE ?w'"
    unfolding send_rr_loop.simps [of s p rr "word_of_int (expected rbuf + 1)" 0 u] r(1)
    using r(3) f(5) by auto
  then have "handleDataPacket rbuf fp IN_ORDER s p b w = Ok (rbuf\<lparr>expected := expected rbuf + 1,
      lastControlPacket := rr, lastControlPacketSize := 11, hasLastControl := 1\<rparr>, RS_DONE) ?w'"
    using assms(5-7) f(4)
    by (simp add: handleDataPacket_def doInOrderState_def writePayloadToFile_def check_def Let_def e
        u_def [symmetric] rr_def)
  moreover have "sent ?w' = sent w \<or> sent ?w' = sent w @ [(s, server w, rr)]"
    using r(2) l f(2,3) by auto
  moreover have "pset u = pset w" "heap_fn u = heap_fn w" "poll_q u = poll_q w" "recv_q u = recv_q w" "send_ok u = send_ok w"
    by (simp_all add: u_def fwrite_def)
  moreover have "lossless ?w' \<and> sent ?w' = sent w @ [(s, server w, rr)]" if lw: "lossless w"
  proof -
    have "lossless u" using lw by (simp add: u_def fwrite_def lossless_def channel_ok_def)
    then obtain pm' k' where q: "sendtoErr s rr 11 (server u) u =
        Ok 11 (u\<lparr>pmgr := pm', send_no := k', sent := sent u @ [(s, server u, take (nat 11) rr)]\<rparr>)"
      "m_ErrorRate pm' = m_ErrorRate (pmgr u)"
      by (rule sendtoErr_lossless [of u 11 rr s "server u"]) (auto simp: l)
    then have "?w' = u\<lparr>pmgr := pm', send_no := k', sent := sent u @ [(s, server u, take (nat 11) rr)]\<rparr>"
      using r(1) by simp
    then show ?thesis
      using \<open>lossless u\<close> r(4) q(2) l f(2,3) by (simp add: lossless_def)
  qed
  ultimately show ?thesis using f(1) r(4) unfolding rr_def [symmetric] by (intro exI [of _ ?w']) simp
qed

text \<open>
  C15. The normal step: when the packet with the expected number arrives in state
  IN_ORDER, exactly its \<open>buffer_size\<close> payload bytes are appended to the file,
  \<open>expected\<close> moves on by one, and the RR for the new number is kept as the last
  control packet and sent to the server once: on a channel that loses nothing it is on
  the network afterwards, on any other channel nothing else can be. The new sub-state
  is \<open>DONE\<close>, not IN_ORDER.
\<close>

theorem expected_packet_is_delivered:
  assumes "channel_ok w" "\<And>k. send_ok w k"
    and "0 \<le> expected rbuf" "expected rbuf < 2147483647" "pdu_seq b = word_of_int (expected rbuf)"
    and "0 < buffer_size p" "7 + buffer_size p \<le> int (length b)"
  shows "\<exists>w'. handleDataPacket rbuf fp IN_ORDER s p b w =
      Ok (rbuf\<lparr>expected := expected rbuf + 1,
               lastControlPacket := final_rr (rr_seq_num w) (word_of_int (expected rbuf + 1)),
               lastControlPacketSize := 11, hasLastControl := 1\<rparr>, RS_DONE) w'
    \<and> fs w' = (fs w)(fp \<mapsto> file_contents w fp @ take (nat (buffer_size p)) (drop 7 b))
    \<and> (sent w' = sent w \<or>
       sent w' = sent w @ [(s, server w, final_rr (rr_seq_num w) (word_of_int (expected rbuf + 1)))])
    \<and> (lossless w \<longrightarrow> lossless w' \<and>
       sent w' = sent w @ [(s, server w, final_rr (rr_seq_num w) (word_of_int (expected rbuf + 1)))])"
  using deliver_expected [OF assms, of fp s] by blast

theorem expected_packet_is_delivered_witness:
  "\<exists>rbuf' w'. handleDataPacket \<lparr>rb_buffer = [], rb_buffer_size = 2, rb_window_size = 1, expected = 0,
        highest = - 1, lastControlPacket = [], lastControlPacketSize = 0, hasLastControl = 0\<rparr> [98] IN_ORDER 3
      \<lparr>src_filename = [97], dest_filename = [98, 0], window_size = 1, buffer_size = 2, error_rate = 0,
        remote_machine = [], remote_port = 1\<rparr> [0, 0, 0, 0, 0, 0, 16, 65, 66] (lossless_client_at [] [])
      = Ok (rbuf', RS_DONE) w' \<and> fs w' [98] = Some [65, 66] \<and> expected rbuf' = 1
        \<and> map (\<lambda>(_, _, d). d) (sent w') = [final_rr 0 1]"
proof -
  let ?rb = "\<lparr>rb_buffer = [], rb_buffer_size = 2, rb_window_size = 1, expected = 0,
        highest = - 1, lastControlPacket = [], lastControlPacketSize = 0, hasLastControl = 0\<rparr>"
  let ?p = "\<lparr>src_filename = [97], dest_filename = [98, 0], window_size = 1, buffer_size = 2, error_rate = 0,
        remote_machine = [], remote_port = 1\<rparr>"
  let ?b = "[0, 0, 0, 0, 0, 0, 16, 65, 66] :: byte list"
  let ?w = "lossless_client_at [] []"
  have s: "pdu_seq ?b = word_of_int (expected ?rb)"
    by (simp add: pdu_seq_def load32_def ntohl_def htonl_def bytes32_def)
  have n: "rr_seq_num ?w = 0" "file_contents ?w [98] = []" by (simp_all add: idle_client_def file_contents_def)
  show ?thesis
    using expected_packet_is_delivered [OF lossless_client_at(2,3) [of "[]" "[]"],
        where rbuf = ?rb and b = ?b and p = ?p and fp = "[98]" and s = 3] s n lossless_client_at(1,4) [of "[]" "[]"]
    by auto
qed

text \<open>
  C31. A datagram with a number below \<open>expected\<close> changes nothing but the
  network: in every sub-state the buffer, the sub-state and the files stay as they
  are. When a control packet was kept, that packet is sent to the server once more, byte for
  byte (it is on the network afterwards if the channel loses nothing); when none was kept
  the datagram is dropped without any effect.
\<close>

theorem old_packet_resends_last_control:
  assumes "channel_ok w" "pdu_seq b < word_of_int (expected rbuf)"
    and "lastControlPacketSize rbuf = 11" "length (lastControlPacket rbuf) = 11"
  shows "if hasLastControl rbuf = 0 then handleDataPacket rbuf fp st s p b w = Ok (rbuf, st) w
    else \<exists>w'. handleDataPacket rbuf fp st s p b w = Ok (rbuf, st) w' \<and> fs w' = fs w
      \<and> poll_q w' = poll_q w \<and> recv_q w' = recv_q w
      \<and> (sent w' = sent w \<or> sent w' = sent w @ [(s, server w, lastControlPacket rbuf)])
      \<and> (lossless w \<longrightarrow> sent w' = sent w @ [(s, server w, lastControlPacket rbuf)])"
proof (cases "hasLastControl rbuf = 0")
  case True
  then show ?thesis using assms(2) by (simp add: handleDataPacket_def resendLastControl_def)
next
  case False
  obtain r pm k ds where r: "sendtoErr s (lastControlPacket rbuf) 11 (server w) w =
      Ok r (w\<lparr>pmgr := pm, send_no := k, sent := sent w @ ds\<rparr>)"
    "ds = [] \<or> ds = [(s, server w, take (nat 11) (lastControlPacket rbuf))]"
    by (rule sendtoErr_total [OF assms(1), of 11 "lastControlPacket rbuf" s "server w"])
      (auto simp: assms(4))
  have "sent w @ ds = sent w @ [(s, server w, lastControlPacket rbuf)]" if lw: "lossless w"
  proof -
    obtain pm' k' where "sendtoErr s (lastControlPacket rbuf) 11 (server w) w =
        Ok 11 (w\<lparr>pmgr := pm', send_no := k', sent := sent w @ [(s, server w, take (nat 11) (lastControlPacket rbuf))]\<rparr>)"
      by (rule sendtoErr_lossless [OF lw, of 11 "lastControlPacket rbuf" s "server w"]) (auto simp: assms(4))
    with r(1) have "w\<lparr>pmgr := pm, send_no := k, sent := sent w @ ds\<rparr> =
        w\<lparr>pmgr := pm', send_no := k', sent := sent w @ [(s, server w, take (nat 11) (lastControlPacket rbuf))]\<rparr>"
      by simp
    from arg_cong [OF this, of sent] show ?thesis using assms(4) by simp
  qed
  then show ?thesis
    using assms(2-4) False r by (auto simp: handleDataPacket_def resendLastControl_def)
qed

theorem old_packet_resends_last_control_witness:
  "\<exists>w'. handleDataPacket \<lparr>rb_buffer = [], rb_buffer_size = 2, rb_window_size = 1, expected = 5,
        highest = - 1, lastControlPacket = final_rr 0 5, lastControlPacketSize = 11, hasLastControl = 1\<rparr>
      [98] IN_ORDER 3 \<lparr>src_filename = [97], dest_filename = [98, 0], window_size = 1, buffer_size = 2,
        error_rate = 0, remote_machine = [], remote_port = 1\<rparr> [0, 0, 0, 0, 0, 0, 16] (lossless_client_at [] [])
      = Ok (\<lparr>rb_buffer = [], rb_buffer_size = 2, rb_window_size = 1, expected = 5,
        highest = - 1, lastControlPacket = final_rr 0 5, lastControlPacketSize = 11, hasLastControl = 1\<rparr>,
        IN_ORDER) w' \<and> map (\<lambda>(_, _, d). d) (sent w') = [final_rr 0 5]"
proof -
  have "pdu_seq [0, 0, 0, 0, 0, 0, 16] < word_of_int 5" "length (final_rr 0 5) = 11"
    by (simp_all add: pdu_seq_def load32_def ntohl_def htonl_def bytes32_def final_rr_def Let_def
        makeRR_SREJPacketAfterChecksum_def pdu_layouts)
  then show ?thesis
    using old_packet_resends_last_control [OF lossless_client_at(2) [of "[]" "[]"], where st = IN_ORDER
      and rbuf = "\<lparr>rb_buffer = [], rb_buffer_size = 2, rb_window_size = 1, expected = 5, highest = - 1,
        lastControlPacket = final_rr 0 5, lastControlPacketSize = 11, hasLastControl = 1\<rparr>"]
      lossless_client_at(1,4) [of "[]" "[]"]
    by fastforce
qed

lemma not_above_all_ones: "\<not> (x :: u32) > word_of_int (- 1)"
  by (simp add: not_less)

lemma insertReceiverPacket_fields:
  assumes "insertReceiverPacket b r n = Inr b'" "highest b = - 1"
  shows "highest b' = - 1" "expected b' = expected b" "rb_window_size b' = rb_window_size b"
  using assms not_above_all_ones
  by (auto simp: insertReceiverPacket_def sbind_Inr_iff Let_def split: if_splits)

lemma flush_loop_fields:
  "flush_loop b out n = Inr (m, b', out') \<Longrightarrow> highest b' = highest b"
proof (induction b out n rule: flush_loop.induct)
  case (1 b out n)
  show ?case
    using "1.prems" unfolding flush_loop.simps [of b out n]
    by (auto split: sum.splits option.splits prod.splits dest!: "1.IH" [OF _ refl refl])
      (auto simp: clear_slot_def)
qed

text \<open>
  \<open>highest\<close> is never updated: it starts as \<open>-1\<close>, the comparison
  with the unsigned sequence number reads it as the largest number, and so every
  step of the receiver keeps it \<open>-1\<close>, whatever packets arrive.
\<close>

theorem highest_never_moves:
  assumes "handleDataPacket rbuf fp st s p b w = Ok (rbuf', st') w'" "highest rbuf = - 1"
  shows "highest rbuf' = - 1"
proof (cases st)
  case BUFFERING
  then show ?thesis
    using assms not_above_all_ones insertReceiverPacket_fields(1) [of rbuf]
    by (auto simp: handleDataPacket_def doBufferState_def Let_def lift_Ok_iff
        elim!: bnd_Ok_E split: if_splits)
next
  case FLUSHING
  then show ?thesis
    using assms flush_loop_fields [of "rbuf\<lparr>expected := s32 (expected rbuf + 1)\<rparr>"]
    by (auto simp: handleDataPacket_def doFlushingState_def flushBuffer_def Let_def lift_Ok_iff
        elim!: bnd_Ok_E split: if_splits)
qed (use assms in \<open>auto simp: handleDataPacket_def doInOrderState_def Let_def
        elim!: bnd_Ok_E split: if_splits\<close>)

theorem highest_never_moves_witness:
  "\<exists>w'. handleDataPacket \<lparr>rb_buffer = [], rb_buffer_size = 2, rb_window_size = 1, expected = 5,
        highest = - 1, lastControlPacket = [], lastControlPacketSize = 0, hasLastControl = 0\<rparr>
      [98] IN_ORDER 3 \<lparr>src_filename = [97], dest_filename = [98, 0], window_size = 1, buffer_size = 2,
        error_rate = 0, remote_machine = [], remote_port = 1\<rparr> (bytes32 (htonl 7)) (idle_client [] []) =
      Ok (\<lparr>rb_buffer = [], rb_buffer_size = 2, rb_window_size = 1, expected = 5, highest = - 1,
        lastControlPacket = [], lastControlPacketSize = 0, hasLastControl = 0\<rparr>, BUFFERING) w' \<and>
      highest \<lparr>rb_buffer = [], rb_buffer_size = 2, rb_window_size = 1, expected = 5, highest = - 1,
        lastControlPacket = [], lastControlPacketSize = 0, hasLastControl = 0\<rparr> = - 1"
proof -
  let ?rb = "\<lparr>rb_buffer = [], rb_buffer_size = 2, rb_window_size = 1, expected = 5, highest = - 1,
        lastControlPacket = [], lastControlPacketSize = 0, hasLastControl = 0\<rparr>"
  have "pdu_seq (bytes32 (htonl 7)) = 7" by (simp add: pdu_seq_def)
  then have r: "handleDataPacket ?rb [98] IN_ORDER 3 \<lparr>src_filename = [97], dest_filename = [98, 0], window_size = 1, buffer_size = 2,
        error_rate = 0, remote_machine = [], remote_port = 1\<rparr> (bytes32 (htonl 7)) (idle_client [] []) =
      Ok (?rb, BUFFERING) (idle_client [] [])"
    by (simp add: handleDataPacket_def doInOrderState_def)
  show ?thesis using r highest_never_moves [OF r] by auto
qed

text \<open>
  C32. A packet that arrives one early is stored so that the next flush is undefined:
  \<open>doBufferState\<close> stores 8 bytes of it, so once the flush reaches its slot, the
  length given to \<open>fwrite\<close> is \<open>1 - 7\<close> as a \<open>size_t\<close>, a read far outside the
  packet.
\<close>

theorem flushing_a_buffered_packet_faults:
  assumes "rb_ok b" "expected b + 1 + rb_window_size b < 2147483648"
    and "8 \<le> length r" "pdu_seq r = word_of_int (expected b + 1)"
  shows "\<exists>b'. insertReceiverPacket b r sizeof_pointer = Inr b' \<and> flushBuffer b' = Inl OutOfBounds"
proof -
  let ?s = "expected b + 1" and ?m = "rb_window_size b"
  note o = rb_okD [OF assms(1)]
  have i: "0 \<le> ?s mod ?m" "?s mod ?m < ?m" using o(1) by simp_all
  obtain p where p: "rb_buffer b ! nat (?s mod ?m) = Some p" "length (data p) = 1407"
    by (rule rb_ok_slot [OF assms(1) i])
  obtain hi where ins: "insertReceiverPacket b r 8 = Inr (b\<lparr>highest := hi,
      rb_buffer := (rb_buffer b)[nat (?s mod ?m) := Some (stored_packet p ?s r 8)]\<rparr>)"
    using insertReceiverPacket_eq [OF assms(1), of ?s 8 r p] o(1,2) assms(3,4) p
    by (auto simp: pdu_seq_def)
  let ?b = "b\<lparr>highest := hi, rb_buffer := (rb_buffer b)[nat (?s mod ?m) := Some (stored_packet p ?s r 8)]\<rparr>"
  have s: "s32 ?s = ?s" using o(1,2) assms(2) by (simp add: s32_id int_range_def)
  have "nat (?s mod ?m) < length (rb_buffer b)" using i o(6) by linarith
  moreover have "cmod ?s ?m = ?s mod ?m" using o(1,2) by (simp add: cmod_nonneg)
  ultimately have "flush_slot (?b\<lparr>expected := ?s\<rparr>) = Inr (Some (?s mod ?m, stored_packet p ?s r 8))"
    using i o(1,6) by (simp add: flush_slot_def slot_def check_def stored_packet_def)
  moreover have "flush_bytes (stored_packet p ?s r 8) = Inl OutOfBounds"
    by (simp add: flush_bytes_def stored_packet_def check_def s32_id int_range_def)
  ultimately have "flushBuffer ?b = Inl OutOfBounds"
    using s by (simp add: flushBuffer_def flush_loop.simps)
  with ins show ?thesis by (auto simp: sizeof_pointer_def)
qed

theorem flushing_a_buffered_packet_faults_witness:
  "\<exists>b k b'. initReceiverBuffer (\<lambda>_. Some (\<lambda>_. 0)) 0 2 2 = (Some b, k) \<and>
     insertReceiverPacket b (bytes32 (htonl 1) @ [0, 0, 16, 65]) sizeof_pointer = Inr b' \<and>
     flushBuffer b' = Inl OutOfBounds"
proof -
  obtain b k where b: "initReceiverBuffer (\<lambda>_. Some (\<lambda>_. 0)) 0 2 2 = (Some b, k)" "rb_ok b"
      "expected b = 0" "rb_window_size b = 2"
    by (rule initReceiverBuffer_ok [of 0 "\<lambda>_. Some (\<lambda>_. 0)" 2 2]) auto
  then show ?thesis
    using flushing_a_buffered_packet_faults [of b "bytes32 (htonl 1) @ [0, 0, 16, 65]"]
    by (auto simp: pdu_seq_def)
qed

text \<open>
  In the data phase the client only ever talks to the server it was given:
  whatever happens, \<open>doGetDataState\<close> keeps the server's address, closes no
  socket, only adds datagrams to what was sent, and every one it adds is addressed
  to that server.
\<close>

theorem data_phase_talks_to_server:
  "server (final (doGetDataState s p w)) = server w \<and> closed (final (doGetDataState s p w)) = closed w \<and>
   (\<exists>ds. sent (final (doGetDataState s p w)) = sent w @ ds \<and> list_all (\<lambda>(_, dest, _). dest = server w) ds)"
  using evolving.R_doGetDataState [of w s p]
  by (fastforce simp: evolves_def list_all_iff)

lemma load32_head: "4 \<le> length xs \<Longrightarrow> load32 (xs @ ys) 0 = load32 xs 0"
  by (auto simp: load32_def nth_append)

end
