(* ===== verification/Networks.thy ===== *)
theory Networks
  imports World
begin

text \<open>
  The socket set-up of \<^verbatim>\<open>networks.c\<close> with the name lookup of
  \<^verbatim>\<open>gethostbyname.c\<close> below it. Every failing system call ends the
  process; printing is left out. \<open>hostName\<close> is a C string without its NUL.
\<close>

section \<open>Host names\<close>

text \<open>
  \<open>getIPAddress46\<close> for the family \<open>AF_INET6\<close>: NULL when the lookup fails, otherwise the first address, also stored in the
  socket address.
\<close>

definition getIPAddress6 :: "byte list \<Rightarrow> sockaddr \<Rightarrow> 'z world_scheme \<Rightarrow> (128 word) option \<times> sockaddr" where
  "getIPAddress6 hostName aSockaddr w =
     (case addr_info w hostName of
        None \<Rightarrow> (None, aSockaddr)
      | Some a \<Rightarrow> (Some a, aSockaddr\<lparr>sin6_addr := a\<rparr>))"

definition gethostbyname6 :: "byte list \<Rightarrow> sockaddr option \<Rightarrow> 'z world_scheme \<Rightarrow> (128 word) option \<times> sockaddr option" where
  "gethostbyname6 hostName aSockaddr6 w =
     (case aSockaddr6 of
        None \<Rightarrow> (fst (getIPAddress6 hostName \<lparr>sin6_addr = 0, sin6_port = 0\<rparr> w), None)
      | Some a \<Rightarrow> (case getIPAddress6 hostName a w of (r, a) \<Rightarrow> (r, Some a)))"

text \<open>
  For the family \<open>AF_INET\<close>, which no program of the repository asks for;
  \<open>lookup\<close> is the first address \<open>getaddrinfo(3)\<close> finds.
\<close>

record sockaddr_in =
  sin_addr :: u32
  sin_port :: u16

definition getIPAddress4 :: "(byte list \<Rightarrow> u32 option) \<Rightarrow> byte list \<Rightarrow> sockaddr_in \<Rightarrow> u32 option \<times> sockaddr_in" where
  "getIPAddress4 lookup hostName aSockaddr =
     (case lookup hostName of
        None \<Rightarrow> (None, aSockaddr)
      | Some a \<Rightarrow> (Some a, aSockaddr\<lparr>sin_addr := a\<rparr>))"

definition gethostbyname4 :: "(byte list \<Rightarrow> u32 option) \<Rightarrow> byte list \<Rightarrow> sockaddr_in option \<Rightarrow> u32 option \<times> sockaddr_in option" where
  "gethostbyname4 lookup hostName aSockaddr =
     (case aSockaddr of
        None \<Rightarrow> (fst (getIPAddress4 lookup hostName \<lparr>sin_addr = 0, sin_port = 0\<rparr>), None)
      | Some a \<Rightarrow> (case getIPAddress4 lookup hostName a of (r, a) \<Rightarrow> (r, Some a)))"

text \<open>Both lookups return what was found, and store it without touching the port.\<close>

lemma lookups_keep_port:
  "gethostbyname4 lookup host (Some a) = (lookup host,
     Some (case lookup host of None \<Rightarrow> a | Some x \<Rightarrow> \<lparr>sin_addr = x, sin_port = sin_port a\<rparr>))"
  "gethostbyname6 host (Some b) w = (addr_info w host,
     Some (case addr_info w host of None \<Rightarrow> b | Some x \<Rightarrow> \<lparr>sin6_addr = x, sin6_port = sin6_port b\<rparr>))"
  by (simp_all add: gethostbyname4_def getIPAddress4_def gethostbyname6_def getIPAddress6_def split: option.split)

section \<open>Addresses as text\<close>

text \<open>
  The printing functions of \<^verbatim>\<open>gethostbyname.c\<close>. \<open>ntop6\<close> and
  \<open>ntop4\<close> are \<open>inet_ntop(3)\<close> for the two families; its result is shorter than the
  static array \<open>ipString\<close>, which is the result here. What is printed is the list of the
  arguments of \<open>printf\<close>.
\<close>

definition bytes_of :: "string \<Rightarrow> byte list" where
  "bytes_of s = map of_char s"

definition ipAddressToString :: "(128 word \<Rightarrow> byte list) \<Rightarrow> sockaddr \<Rightarrow> byte list" where
  "ipAddressToString ntop6 ipAddressStruct = ntop6 (sin6_addr ipAddressStruct)"

definition printIPInfo :: "(128 word \<Rightarrow> byte list) \<Rightarrow> sockaddr \<Rightarrow> byte list \<times> int" where
  "printIPInfo ntop6 ipAddressStruct =
     (ipAddressToString ntop6 ipAddressStruct, uint (ntohs (sin6_port ipAddressStruct)))"

definition getIPAddressString46 :: "('a \<Rightarrow> byte list) \<Rightarrow> 'a option \<Rightarrow> byte list" where
  "getIPAddressString46 ntop ipAddress =
     (case ipAddress of Some a \<Rightarrow> ntop a | None \<Rightarrow> bytes_of ''(IP not found)'')"

definition getIPAddressString4 :: "(u32 \<Rightarrow> byte list) \<Rightarrow> u32 option \<Rightarrow> byte list" where
  "getIPAddressString4 ntop4 ipAddress = getIPAddressString46 ntop4 ipAddress"

definition getIPAddressString6 :: "(128 word \<Rightarrow> byte list) \<Rightarrow> (128 word) option \<Rightarrow> byte list" where
  "getIPAddressString6 ntop6 ipAddress = getIPAddressString46 ntop6 ipAddress"

datatype looked_up = IPv6_line "byte list" "byte list" | IPv4_line "byte list" "byte list"

definition gethostbyname_test_lookup :: "(byte list \<Rightarrow> u32 option) \<Rightarrow> (u32 \<Rightarrow> byte list) \<Rightarrow> (128 word \<Rightarrow> byte list) \<Rightarrow>
    byte list \<Rightarrow> 'z world_scheme \<Rightarrow> looked_up list" where
  "gethostbyname_test_lookup lookup ntop4 ntop6 hostname w =
     (let ipAddress = fst (gethostbyname6 hostname None w);
          l6 = (if ipAddress \<noteq> None then [IPv6_line hostname (getIPAddressString6 ntop6 ipAddress)] else []);
          ipAddress = fst (gethostbyname4 lookup hostname None);
          l4 = (if ipAddress \<noteq> None then [IPv4_line hostname (getIPAddressString4 ntop4 ipAddress)] else [])
      in l6 @ l4)"

definition gethostbyname_test :: "(byte list \<Rightarrow> u32 option) \<Rightarrow> (u32 \<Rightarrow> byte list) \<Rightarrow> (128 word \<Rightarrow> byte list) \<Rightarrow>
    'z world_scheme \<Rightarrow> looked_up list" where
  "gethostbyname_test lookup ntop4 ntop6 w =
     concat (map (\<lambda>h. gethostbyname_test_lookup lookup ntop4 ntop6 h w)
       [bytes_of ''www.google.com'', bytes_of ''ipv6.google.com'', bytes_of ''my.calpoly.edu'', bytes_of ''does not exist''])"

text \<open>A line is printed exactly for each address that is found, the IPv6 one first; never the text for NULL.\<close>

lemma test_lookup_lines:
  "gethostbyname_test_lookup lookup ntop4 ntop6 host w =
     (case addr_info w host of None \<Rightarrow> [] | Some a \<Rightarrow> [IPv6_line host (ntop6 a)])
     @ (case lookup host of None \<Rightarrow> [] | Some a \<Rightarrow> [IPv4_line host (ntop4 a)])"
  by (simp add: gethostbyname_test_lookup_def gethostbyname6_def gethostbyname4_def getIPAddress6_def getIPAddress4_def
      getIPAddressString4_def getIPAddressString6_def getIPAddressString46_def Let_def split: option.split)

section \<open>TCP\<close>

definition LISTEN_BACKLOG :: int where "LISTEN_BACKLOG = 10"

text \<open>A checked system call: a negative answer ends the process with \<open>status\<close>.\<close>

definition must :: "int \<Rightarrow> sys_event \<Rightarrow> 'z world_scheme \<Rightarrow> ('z world_scheme, int) res" where
  "must status e w = bnd (syscall e w) (\<lambda>r w. if r < 0 then Stop (Exited status) w else Ok r w)"

definition tcpServerSetup :: "int \<Rightarrow> 'z world_scheme \<Rightarrow> ('z world_scheme, int) res" where
  "tcpServerSetup serverPort w =
     bnd (must 1 (Sys_socket True) w) (\<lambda>mainServerSocket w.
     bnd (must (- 1) (Sys_bind mainServerSocket 0 (htons (word_of_int serverPort))) w) (\<lambda>_ w.
     bnd (must (- 1) (Sys_getsockname mainServerSocket) w) (\<lambda>_ w.
     bnd (must (- 1) (Sys_listen mainServerSocket LISTEN_BACKLOG) w) (\<lambda>_ w.
       Ok mainServerSocket w))))"

definition tcpAccept :: "int \<Rightarrow> 'z world_scheme \<Rightarrow> ('z world_scheme, int) res" where
  "tcpAccept mainServerSocket w = must (- 1) (Sys_accept mainServerSocket) w"

text \<open>\<open>port\<close> is \<open>atoi(serverPort)\<close>.\<close>

definition tcpClientSetup :: "byte list \<Rightarrow> int \<Rightarrow> 'z world_scheme \<Rightarrow> ('z world_scheme, int) res" where
  "tcpClientSetup serverName port w =
     bnd (must (- 1) (Sys_socket True) w) (\<lambda>socket_num w.
       let serverAddress = \<lparr>sin6_addr = 0, sin6_port = htons (word_of_int port)\<rparr> in
       case gethostbyname6 serverName (Some serverAddress) w of
         (Some _, Some serverAddress) \<Rightarrow>
           bnd (must (- 1) (Sys_connect socket_num serverAddress) w) (\<lambda>_ w. Ok socket_num w)
       | _ \<Rightarrow> Stop (Exited (- 1)) w)"

section \<open>UDP\<close>

definition udpServerSetup :: "int \<Rightarrow> 'z world_scheme \<Rightarrow> ('z world_scheme, int) res" where
  "udpServerSetup serverPort w =
     bnd (must (- 1) (Sys_socket False) w) (\<lambda>socketNum w.
     bnd (must (- 1) (Sys_bind socketNum 0 (htons (word_of_int serverPort))) w) (\<lambda>_ w.
     bnd (syscall (Sys_getsockname socketNum) w) (\<lambda>_ w.
       Ok socketNum w)))"

definition setupUdpClientToServer :: "byte list \<Rightarrow> int \<Rightarrow> 'z world_scheme \<Rightarrow> ('z world_scheme, int \<times> sockaddr) res" where
  "setupUdpClientToServer hostName serverPort w =
     bnd (must (- 1) (Sys_socket False) w) (\<lambda>socketNum w.
       let serverAddress = \<lparr>sin6_addr = 0, sin6_port = ntohs (word_of_int serverPort)\<rparr> in
       case gethostbyname6 hostName (Some serverAddress) w of
         (Some _, Some serverAddress) \<Rightarrow> Ok (socketNum, serverAddress) w
       | _ \<Rightarrow> Stop (Exited (- 1)) w)"

section \<open>What set-up leaves behind\<close>

lemma must_Ok:
  "must st e w = Ok r w' \<longleftrightarrow> 0 \<le> r \<and> (\<exists>q. sys_q w = r # q \<and> w' = w\<lparr>sys_q := q, sys_log := sys_log w @ [e]\<rparr>)"
  by (cases "sys_q w") (auto simp: must_def syscall_def split: if_splits)

lemma syscall_Ok:
  "syscall e w = Ok r w' \<longleftrightarrow> (\<exists>q. sys_q w = r # q \<and> w' = w\<lparr>sys_q := q, sys_log := sys_log w @ [e]\<rparr>)"
  by (auto simp: syscall_def split: list.splits)

lemma udpServerSetup_Ok:
  assumes "udpServerSetup port w = Ok s w'"
  shows "0 \<le> s" "\<exists>q. w' = w\<lparr>sys_q := q,
      sys_log := sys_log w @ [Sys_socket False, Sys_bind s 0 (htons (word_of_int port)), Sys_getsockname s]\<rparr>"
  using assms by (auto simp: udpServerSetup_def bnd_Ok_iff must_Ok syscall_Ok)

lemma setupUdpClientToServer_Ok:
  assumes "setupUdpClientToServer host port w = Ok (s, a) w'"
  shows "0 \<le> s" "sin6_port a = htons (word_of_int port)" "addr_info w host = Some (sin6_addr a)"
    "\<exists>q. w' = w\<lparr>sys_q := q, sys_log := sys_log w @ [Sys_socket False]\<rparr>"
  using assms
  by (auto simp: setupUdpClientToServer_def bnd_Ok_iff must_Ok gethostbyname6_def getIPAddress6_def
      Let_def ntohs_def htons_def split: option.splits)

text \<open>The server's address that a client prints: what the lookup found, and the port of the command line.\<close>

lemma printed_server_address:
  assumes "setupUdpClientToServer host port w = Ok (s, a) w'" "0 \<le> port" "port < 65536"
  shows "\<exists>ip. addr_info w host = Some ip \<and> printIPInfo ntop6 a = (ntop6 ip, port)"
proof -
  note a = setupUdpClientToServer_Ok [OF assms(1)]
  have "uint (ntohs (htons (word_of_int port))) = port" using assms(2,3) by (simp add: unsigned_of_int take_bit_int_eq_self)
  then show ?thesis using a(2,3) by (simp add: printIPInfo_def ipAddressToString_def)
qed

section \<open>Properties\<close>

text \<open>
  \<open>udpServerSetup\<close> either returns a valid socket, bound to the wildcard
  address at the requested port in network byte order, or ends the process with
  \<open>exit(-1)\<close>, or waits for a system call; it never faults, and it touches nothing
  else of the process.
\<close>

lemma udp_server_setup_binds:
  "case udpServerSetup port w of
     Ok s w' \<Rightarrow> 0 \<le> s \<and> sys_log w' = sys_log w @ [Sys_socket False,
         Sys_bind s 0 (htons (word_of_int port)), Sys_getsockname s] \<and> sent w' = sent w \<and> pset w' = pset w
   | Stop r w' \<Rightarrow> (r = Exited (- 1) \<or> r = Blocked) \<and> sent w' = sent w \<and> pset w' = pset w"
  by (auto simp: udpServerSetup_def must_def syscall_def split: res.splits list.splits if_splits
      elim!: bnd_Ok_E simp: bnd_Stop_iff)

end
