(* ===== verification/Clib.thy ===== *)
theory Clib
  imports Floating
begin

text \<open>
  The number conversions of the C library that both programs use on their command
  lines. Strings are lists of bytes without the terminating NUL.
\<close>

section \<open>Characters and digits\<close>

definition isspace :: "byte \<Rightarrow> bool" where
  "isspace c \<longleftrightarrow> c = 32 \<or> (9 \<le> c \<and> c \<le> 13)"

definition isdigit :: "byte \<Rightarrow> bool" where
  "isdigit c \<longleftrightarrow> 48 \<le> c \<and> c \<le> 57"

definition digits_value :: "byte list \<Rightarrow> int" where
  "digits_value ds = foldl (\<lambda>v d. 10 * v + (uint d - 48)) 0 ds"

text \<open>A sign and what follows it.\<close>

fun signed_part :: "byte list \<Rightarrow> int \<times> byte list" where
  "signed_part (c # s) = (if c = 45 then (- 1, s) else if c = 43 then (1, s) else (1, c # s))"
| "signed_part [] = (1, [])"

text \<open>\<open>atoi\<close> is \<open>strtol\<close>, which saturates at 64 bits, converted to \<open>int\<close>.\<close>

definition atoi :: "byte list \<Rightarrow> int" where
  "atoi s =
     (case signed_part (dropWhile isspace s) of
        (sg, t) \<Rightarrow> s32 (max (- 9223372036854775808) (min 9223372036854775807
                      (sg * digits_value (takeWhile isdigit t)))))"

text \<open>
  The numbers \<open>strtod\<close> reads: an optional sign, and \<open>inf\<close> or \<open>nan\<close> in any case
  of letters, a hexadecimal numeral with an optional binary exponent, or a decimal
  numeral with an optional decimal exponent. \<open>None\<close>: there is none, and the end
  pointer stays at the start.
\<close>

definition tolower :: "byte \<Rightarrow> byte" where
  "tolower c = (if 65 \<le> c \<and> c \<le> 90 then c + 32 else c)"

definition isxdigit :: "byte \<Rightarrow> bool" where
  "isxdigit c \<longleftrightarrow> isdigit c \<or> 97 \<le> tolower c \<and> tolower c \<le> 102"

definition xdigit_value :: "byte \<Rightarrow> int" where
  "xdigit_value c = (if isdigit c then uint c - 48 else uint (tolower c) - 87)"

definition starts_with :: "byte list \<Rightarrow> byte list \<Rightarrow> bool" where
  "starts_with word s \<longleftrightarrow> map tolower (take (length word) s) = word"

definition exponent_part :: "byte \<Rightarrow> byte list \<Rightarrow> int" where
  "exponent_part mark s =
     (case s of
        c # t \<Rightarrow> if tolower c = mark
                 then (case signed_part t of (sg, u) \<Rightarrow> sg * digits_value (takeWhile isdigit u))
                 else 0
      | [] \<Rightarrow> 0)"

definition read_numeral :: "(byte \<Rightarrow> bool) \<Rightarrow> (byte \<Rightarrow> int) \<Rightarrow> int \<Rightarrow> byte \<Rightarrow> rat \<Rightarrow> byte list \<Rightarrow> rat option" where
  "read_numeral isd dval base mark ebase t =
     (let whole = takeWhile isd t;
          rest = dropWhile isd t;
          frac = (case rest of c # u \<Rightarrow> if c = 46 then takeWhile isd u else [] | [] \<Rightarrow> []);
          tail = (case rest of c # u \<Rightarrow> if c = 46 then dropWhile isd u else rest | [] \<Rightarrow> []);
          e = exponent_part mark tail;
          m = of_int (foldl (\<lambda>v d. base * v + dval d) 0 (whole @ frac)) / of_int base ^ length frac
      in if whole = [] \<and> frac = [] then None
         else Some (if e \<ge> 0 then m * ebase ^ nat e else m / ebase ^ nat (- e)))"

definition read_decimal :: "byte list \<Rightarrow> rat option" where
  "read_decimal = read_numeral isdigit (\<lambda>c. uint c - 48) 10 101 10"

definition read_hexadecimal :: "byte list \<Rightarrow> rat option" where
  "read_hexadecimal = read_numeral isxdigit xdigit_value 16 112 2"

definition strtod_value :: "byte list \<Rightarrow> floating option" where
  "strtod_value s =
     (case signed_part (dropWhile isspace s) of
        (sg, t) \<Rightarrow>
          if starts_with [105, 110, 102] t then Some (Infinity (sg < 0))
          else if starts_with [110, 97, 110] t then Some NaN
          else map_option (\<lambda>r. Finite (of_int sg * r))
            (if starts_with [48, 120] t \<and> read_hexadecimal (drop 2 t) \<noteq> None then read_hexadecimal (drop 2 t)
             else read_decimal t))"

text \<open>\<open>flt\<close> rounds a number to the type; a number that is too large becomes infinite.\<close>

definition rounded :: "(floating \<Rightarrow> floating) \<Rightarrow> floating \<Rightarrow> floating" where
  "rounded flt x = (case x of Finite r \<Rightarrow> flt (Finite r) | _ \<Rightarrow> x)"

definition atof :: "(floating \<Rightarrow> floating) \<Rightarrow> byte list \<Rightarrow> floating" where
  "atof flt s = (case strtod_value s of None \<Rightarrow> 0 | Some x \<Rightarrow> rounded flt x)"

lemma conversions:
  "strtod_value [45, 49, 46, 53, 101, 49] = Some (Finite (- 15))"
  "strtod_value [48, 120, 49, 46, 56, 112, 45, 49] = Some (Finite (3 / 4))"
  "strtod_value [78, 97, 78] = Some NaN" "strtod_value [43, 105, 110, 102] = Some (Infinity False)"
  "strtod_value [48, 120] = Some (Finite 0)" "strtod_value [46] = None"
  by code_simp+

text \<open>
  \<open>strtol\<close> with base 10 and \<open>strtof\<close>, with the test of the end pointer the code
  makes: \<open>None\<close> when no digit was found.
\<close>

definition strtol :: "byte list \<Rightarrow> int option" where
  "strtol s =
     (case signed_part (dropWhile isspace s) of
        (sg, t) \<Rightarrow>
          if takeWhile isdigit t = [] then None
          else Some (max (- 9223372036854775808) (min 9223372036854775807
                      (sg * digits_value (takeWhile isdigit t)))))"

definition strtof :: "(floating \<Rightarrow> floating) \<Rightarrow> byte list \<Rightarrow> floating option" where
  "strtof flt s = map_option (rounded flt) (strtod_value s)"

end
