(* ===== verification/Rcopy.thy ===== *)
theory Rcopy
  imports RcopyData Networks Clib
begin

text \<open>
  The control part of \<^verbatim>\<open>rcopy.c\<close>: the command line, the file-name
  exchange (\<open>doSendFilenameState\<close>, \<open>doFileValidState\<close>) and \<open>main\<close>
  with its state machine. The data phase is theory \<open>RcopyData\<close>.
\<close>

section \<open>The command line\<close>

text \<open>\<open>strncpy\<close> into an array of \<open>n + 1\<close> bytes followed by the terminating NUL.\<close>

definition strncpy_array :: "nat \<Rightarrow> byte list \<Rightarrow> byte list" where
  "strncpy_array n s = take n (s @ replicate n 0) @ [0]"

text \<open>\<open>argv\<close> is the list of argument strings without their NULs; \<open>argc\<close> is its length.\<close>

definition MAX_FILENAME_LEN :: nat where "MAX_FILENAME_LEN = 100"
definition MAX_REMOTE_MACHINE :: nat where "MAX_REMOTE_MACHINE = 256"

definition checkArgs :: "byte list list \<Rightarrow> client \<Rightarrow> (client, RcopyParams) res" where
  "checkArgs argv w =
     (if length argv \<noteq> 8 then Stop (Exited 1) w
      else if length (argv ! 1) > MAX_FILENAME_LEN \<or> length (argv ! 1) = 0
              \<or> length (argv ! 2) > MAX_FILENAME_LEN \<or> length (argv ! 2) = 0 then Stop (Exited 1) w
      else if atoi (argv ! 3) \<le> 0 \<or> atoi (argv ! 4) \<le> 0 \<or> atoi (argv ! 7) \<le> 0
              \<or> atof (to_double w) (argv ! 5) < 0 \<or> atof (to_double w) (argv ! 5) > 1 then Stop (Exited 1) w
      else Ok \<lparr>src_filename = strncpy_array MAX_FILENAME_LEN (argv ! 1),
               dest_filename = strncpy_array MAX_FILENAME_LEN (argv ! 2),
               window_size = atoi (argv ! 3),
               buffer_size = atoi (argv ! 4),
               error_rate = atof (to_double w) (argv ! 5),
               remote_machine = strncpy_array MAX_REMOTE_MACHINE (argv ! 6),
               remote_port = atoi (argv ! 7)\<rparr> w)"

section \<open>SEND_FILENAME\<close>

definition give_up :: "int \<Rightarrow> client \<Rightarrow> (client, state) res" where
  "give_up socketNum w =
     bnd (removeFromPollSet socketNum w) (\<lambda>_ w. bnd (close_socket socketNum w) (\<lambda>_ w. Ok DONE w))"

text \<open>\<open>recvfrom\<close> with the server's address as the place for the sender's address.\<close>

definition recvfrom_server :: "byte list \<Rightarrow> client \<Rightarrow> (client, int \<times> byte list) res" where
  "recvfrom_server recv_buffer w =
     bnd (recvfrom recv_buffer 7 w) (\<lambda>(recieved, recv_buffer, src) w.
       Ok (recieved, recv_buffer) (case src of None \<Rightarrow> w | Some a \<Rightarrow> w\<lparr>server := a\<rparr>))"

definition redirect :: "client \<Rightarrow> client" where
  "redirect w =
     (let port = uint (ntohs (sin6_port (server w)))
      in w\<lparr>current_server_port := port, server := (server w)\<lparr>sin6_port := htons (word_of_int port)\<rparr>\<rparr>)"

text \<open>
  114 bytes are sent from a 113-byte static buffer: the last one is the next byte of
  static storage.
\<close>

function send_filename_loop :: "int \<Rightarrow> byte list \<Rightarrow> nat \<Rightarrow> client \<Rightarrow> (client, state) res" where
  "send_filename_loop socketNum buffer sends_attempted w =
     (if sends_attempted < 9 then
        bnd (sendtoErr socketNum (buffer @ [static_next w]) 114 (server w) w) (\<lambda>bytes_sent w.
          if bytes_sent < 0 then give_up socketNum w
          else bnd (pollCall 1000 w) (\<lambda>poll w.
            if poll = - 1 then send_filename_loop socketNum buffer (sends_attempted + 1) w
            else bnd (recvfrom_server (local_array 7 w) w) (\<lambda>(recieved, recv_buffer) w.
              if recieved < 0 then give_up socketNum w
              else if recv_buffer ! 6 = 33 then Ok FILE_VALID (redirect w)
              else give_up socketNum w)))
      else give_up socketNum w)"
  by pat_completeness auto
termination
  by (relation "measure (\<lambda>(_, _, n, _). 9 - n)") auto

declare send_filename_loop.simps [simp del]

definition doSendFilenameState :: "int \<Rightarrow> byte list \<Rightarrow> client \<Rightarrow> (client, state) res" where
  "doSendFilenameState socketNum buffer w =
     bnd (addToPollSet socketNum w) (\<lambda>_ w. send_filename_loop socketNum buffer 0 w)"

section \<open>FILE_VALID\<close>

definition checkDestFile :: "RcopyParams \<Rightarrow> client \<Rightarrow> (client, int) res" where
  "checkDestFile params w =
     bnd (fopen_wb (cstring (dest_filename params)) w) (\<lambda>opened w. Ok (if opened then 1 else 0) w)"

definition final_ack :: "byte \<Rightarrow> byte list" where
  "final_ack flag =
     (let ack_packet = makeFilenameACKBeforeChecksum flag
      in makeFilenameACKAfterChecksum ack_packet (calculateFilenameChecksumACK ack_packet))"

text \<open>
  A failed \<open>recvfrom\<close> does not count as a retry, so the loop is bounded only by the
  answers of \<open>poll\<close>. \<open>recv_buffer\<close> keeps its bytes from one round to
  the next.
\<close>

function file_valid_loop :: "int \<Rightarrow> byte list \<Rightarrow> nat \<Rightarrow> client \<Rightarrow> (client, state) res" where
  "file_valid_loop socketNum recv_buffer retries w =
     (if retries < 9 then
        bnd (pollCall 1000 w) (\<lambda>new_poll w.
          if new_poll \<noteq> - 1 then
            bnd (recvfrom_server recv_buffer w) (\<lambda>(second_recieved, recv_buffer) w.
              if second_recieved < 0 then file_valid_loop socketNum recv_buffer retries w
              else if recv_buffer ! 6 = 9 then Ok GET_DATA w
              else if recv_buffer ! 6 = 32 then
                bnd (sendtoErr socketNum (final_ack 33) 7 (server w) w) (\<lambda>_ w.
                bnd (removeFromPollSet socketNum w) (\<lambda>_ w. Ok DONE w))
              else file_valid_loop socketNum recv_buffer (retries + 1) w)
          else file_valid_loop socketNum recv_buffer (retries + 1) w)
      else Ok SEND_FILENAME w)"
  by pat_completeness auto
termination
  by (relation "measure (\<lambda>(_, _, _, w). length (poll_q w))")
    (auto simp: recvfrom_server_def elim!: pollCall_Ok recvfrom_Ok bnd_Ok_E split: option.splits)

declare file_valid_loop.simps [simp del]

definition doFileValidState :: "RcopyParams \<Rightarrow> int \<Rightarrow> client \<Rightarrow> (client, state) res" where
  "doFileValidState params socketNum w =
     bnd (checkDestFile params w) (\<lambda>result w.
       if result = 0 then Ok DONE w
       else file_valid_loop socketNum (local_array 7 w) 0 w)"

section \<open>DONE\<close>

text \<open>\<open>main\<close> never calls it: its loop ends in state DONE.\<close>

definition doDoneState :: "int \<Rightarrow> client \<Rightarrow> (client, unit) res" where
  "doDoneState socketNum w =
     bnd (removeFromPollSet socketNum w) (\<lambda>_ w.
     bnd (close_socket socketNum w) (\<lambda>_ w. Stop (Exited 1) w))"

section \<open>What the states return\<close>

lemma recvfrom_server_Ok:
  assumes "recvfrom_server b w = Ok (n, b') w'"
  obtains q where "w' = w\<lparr>recv_q := q\<rparr> \<or> (\<exists>a. w' = w\<lparr>recv_q := q, server := a\<rparr>)" "length b' = length b"
proof -
  obtain src w1 where r: "recvfrom b 7 w = Ok (n, b', src) w1"
      "w' = (case src of None \<Rightarrow> w1 | Some a \<Rightarrow> w1\<lparr>server := a\<rparr>)"
    using assms unfolding recvfrom_server_def by (auto elim!: bnd_Ok_E)
  from recvfrom_Ok [OF r(1)] obtain q where "w1 = w\<lparr>recv_q := q\<rparr>" "length b' = length b" by metis
  then show ?thesis using r(2) by (intro that [of q]) (auto split: option.splits)
qed

lemma recvfrom_server_poll_q: "recvfrom_server b w = Ok r w' \<Longrightarrow> poll_q w' = poll_q w"
  by (cases r) (auto elim!: recvfrom_server_Ok)

lemma give_up_Ok:
  assumes "give_up s w = Ok st w'"
  shows "st = DONE" "\<exists>ps. w' = w\<lparr>pset := ps, closed := closed w @ [s]\<rparr>"
  using assms unfolding give_up_def
  by (auto simp: close_socket_def dest!: removeFromPollSet_Ok elim!: bnd_Ok_E)

lemma poll_q_pollCall: "pollCall t w = Ok r w' \<Longrightarrow> length (poll_q w') < length (poll_q w)"
  by (erule pollCall_Ok) simp

lemma poll_q_sendtoErr: "sendtoErr s b n d w = Ok r w' \<Longrightarrow> poll_q w' = poll_q w"
  by (erule sendtoErr_Ok) simp

lemma send_filename_loop_state:
  "send_filename_loop s b n w = Ok st w' \<Longrightarrow>
     st = DONE \<or> st = FILE_VALID \<and> length (poll_q w') < length (poll_q w)"
proof (induction s b n w rule: send_filename_loop.induct)
  case (1 s b n w)
  show ?case
  proof (cases "n < 9")
    case False
    with "1.prems" show ?thesis by (simp add: send_filename_loop.simps [of s b n w] give_up_Ok(1))
  next
    case True
    obtain r w1 where r: "sendtoErr s (b @ [static_next w]) 114 (server w) w = Ok r w1"
      and k: "(if r < 0 then give_up s w1 else bnd (pollCall 1000 w1) (\<lambda>poll w.
            if poll = - 1 then send_filename_loop s b (n + 1) w
            else bnd (recvfrom_server (local_array 7 w) w) (\<lambda>(recieved, recv_buffer) w.
              if recieved < 0 then give_up s w
              else if recv_buffer ! 6 = 33 then Ok FILE_VALID (redirect w)
              else give_up s w))) = Ok st w'"
      using "1.prems" True unfolding send_filename_loop.simps [of s b n w] by (auto elim!: bnd_Ok_E)
    show ?thesis
    proof (cases "r < 0")
      case True
      with k show ?thesis by (simp add: give_up_Ok(1))
    next
      case False
      then obtain x w2 where x: "pollCall 1000 w1 = Ok x w2" using k by (auto elim!: bnd_Ok_E)
      have l: "length (poll_q w2) < length (poll_q w)"
        using poll_q_pollCall [OF x] poll_q_sendtoErr [OF r] by simp
      show ?thesis
      proof (cases "x = - 1")
        case True
        then show ?thesis using "1.IH" [OF \<open>n < 9\<close> r False x True] k x False l by auto
      next
        case False
        then show ?thesis
          using k x \<open>\<not> r < 0\<close> l
          by (auto simp: give_up_Ok(1) redirect_def Let_def dest!: recvfrom_server_poll_q
              elim!: bnd_Ok_E split: if_splits)
      qed
    qed
  qed
qed

lemma file_valid_loop_state:
  "file_valid_loop s b n w = Ok st w' \<Longrightarrow> n < 9 \<Longrightarrow>
     st = DONE \<or> st \<noteq> FILE_VALID \<and> length (poll_q w') < length (poll_q w)"
proof (induction s b n w rule: file_valid_loop.induct)
  case (1 s b n w)
  have later: "st = DONE \<or> st \<noteq> FILE_VALID \<and> length (poll_q w') < length (poll_q w)"
    if "length (poll_q u) < length (poll_q w)" "file_valid_loop s c m u = Ok st w'"
      "m < 9 \<Longrightarrow> st = DONE \<or> st \<noteq> FILE_VALID \<and> length (poll_q w') < length (poll_q u)" for u c m
    using that by (cases "m < 9") (auto simp: file_valid_loop.simps [of s c m u])
  obtain x w1 where x: "pollCall 1000 w = Ok x w1"
    and k: "(if x \<noteq> - 1 then
            bnd (recvfrom_server b w1) (\<lambda>(second_recieved, recv_buffer) w.
              if second_recieved < 0 then file_valid_loop s recv_buffer n w
              else if recv_buffer ! 6 = 9 then Ok GET_DATA w
              else if recv_buffer ! 6 = 32 then
                bnd (sendtoErr s (final_ack 33) 7 (server w) w) (\<lambda>_ w.
                bnd (removeFromPollSet s w) (\<lambda>_ w. Ok DONE w))
              else file_valid_loop s recv_buffer (n + 1) w)
          else file_valid_loop s b (n + 1) w1) = Ok st w'"
    using "1.prems" unfolding file_valid_loop.simps [of s b n w] by (auto elim!: bnd_Ok_E)
  note l = poll_q_pollCall [OF x]
  show ?case
  proof (cases "x = - 1")
    case True
    then show ?thesis
      using k later [OF l, of b "n + 1"] "1.IH"(3) [OF \<open>n < 9\<close> x] by simp
  next
    case False
    then obtain m c w2 where r: "recvfrom_server b w1 = Ok (m, c) w2"
      and k2: "(if m < 0 then file_valid_loop s c n w2
              else if c ! 6 = 9 then Ok GET_DATA w2
              else if c ! 6 = 32 then
                bnd (sendtoErr s (final_ack 33) 7 (server w2) w2) (\<lambda>_ w.
                bnd (removeFromPollSet s w) (\<lambda>_ w. Ok DONE w))
              else file_valid_loop s c (n + 1) w2) = Ok st w'"
      using k by (auto elim!: bnd_Ok_E)
    have l2: "length (poll_q w2) < length (poll_q w)" using l recvfrom_server_poll_q [OF r] by simp
    note IH = "1.IH"(1,2) [OF \<open>n < 9\<close> x False r refl]
    consider "m < 0" | "\<not> m < 0" "c ! 6 = 9" | "\<not> m < 0" "c ! 6 = 32" | "\<not> m < 0" "c ! 6 \<noteq> 9" "c ! 6 \<noteq> 32"
      by blast
    then show ?thesis
    proof cases
      case 1
      then show ?thesis using k2 later [OF l2, of c n] IH(1) by simp
    next
      case 4
      then show ?thesis using k2 later [OF l2, of c "n + 1"] IH(2) by simp
    qed (use k2 l2 in \<open>auto elim!: bnd_Ok_E\<close>)
  qed
qed

lemma getDataLoop_state: "getDataLoop s p fp rbuf n w = Ok st w' \<Longrightarrow> st = DONE"
proof (induction s p fp rbuf n w rule: getDataLoop.induct)
  case (1 s p fp rbuf n w)
  show ?case
    using "1.prems" unfolding getDataLoop.simps [of s p fp rbuf n w]
    by (auto simp: finishGetData_def Let_def elim!: bnd_Ok_E split: if_splits option.splits)
      (rule "1.IH" [OF _ _ _ refl _ refl refl _ _ _ refl refl], assumption+)
qed

lemma doGetDataState_state: "doGetDataState s p w = Ok st w' \<Longrightarrow> st = DONE"
  by (auto simp: doGetDataState_def Let_def elim!: bnd_Ok_E dest: getDataLoop_state
      split: if_splits prod.splits option.splits)

lemma recvfrom_server_datagram:
  assumes "recvfrom_server b w = Ok (n, b') w'" "0 \<le> n"
  shows "\<exists>a bs. recv_q w = Datagram a bs # recv_q w' \<and> n = int (min 7 (length bs)) \<and>
     b' = memcpy_at b 0 (take (min 7 (length bs)) bs) \<and> w' = w\<lparr>recv_q := recv_q w', server := a\<rparr>"
  using assms
  by (auto simp: recvfrom_server_def recvfrom_def Let_def elim!: bnd_Ok_E
      split: list.splits recv_event.splits if_splits)

lemma server_redirect [simp]: "server (redirect w) = server w"
  by (simp add: redirect_def Let_def)

text \<open>
  Outcome of the file-name exchange: it gives up and closes the socket, or the
  first datagram taken from the network carries flag 33 and its sender is the new server.
\<close>

definition accepted_by :: "client \<Rightarrow> client \<Rightarrow> bool" where
  "accepted_by w w' \<longleftrightarrow> (\<exists>a bs. recv_q w = Datagram a bs # recv_q w' \<and> server w' = a
     \<and> current_server_port w' = uint (ntohs (sin6_port a)) \<and> (7 \<le> length bs \<longrightarrow> bs ! 6 = 33))"

lemma recv_q_sendtoErr: "sendtoErr s b n d w = Ok r w' \<Longrightarrow> recv_q w' = recv_q w \<and> closed w' = closed w"
  by (erule sendtoErr_Ok) simp

lemma recv_q_pollCall: "pollCall t w = Ok r w' \<Longrightarrow> recv_q w' = recv_q w \<and> closed w' = closed w"
  by (erule pollCall_Ok) simp

lemma send_filename_loop_outcome:
  "send_filename_loop s b n w = Ok st w' \<Longrightarrow>
     st = DONE \<and> closed w' = closed w @ [s] \<or> st = FILE_VALID \<and> closed w' = closed w \<and> accepted_by w w'"
proof (induction s b n w rule: send_filename_loop.induct)
  case (1 s b n w)
  have g: "st = DONE \<and> closed w' = closed u @ [s]" if "give_up s u = Ok st w'" for u
    using give_up_Ok [OF that] by auto
  have f: "st = FILE_VALID \<and> closed w' = closed u \<and> accepted_by u w'"
    if d: "recvfrom_server (local_array 7 u) u = Ok (m, c) v" "\<not> m < 0" "c ! 6 = 33"
      "Ok FILE_VALID (redirect v) = Ok st w'" for u v m c
  proof -
    obtain a bs where a: "recv_q u = Datagram a bs # recv_q v"
        "c = memcpy_at (local_array 7 u) 0 (take (min 7 (length bs)) bs)"
        "v = u\<lparr>recv_q := recv_q v, server := a\<rparr>"
      using recvfrom_server_datagram [OF d(1)] d(2) by auto
    have "bs ! 6 = 33" if "7 \<le> length bs"
      using a(2) that d(3) by (simp add: memcpy_at_def nth_append local_array_def)
    moreover have "server v = a" "closed v = closed u" by (subst a(3); simp)+
    ultimately show ?thesis
      using d(4) a(1) by (auto simp: accepted_by_def redirect_def Let_def)
  qed
  show ?case
  proof (cases "n < 9")
    case False
    with "1.prems" g show ?thesis by (simp add: send_filename_loop.simps [of s b n w])
  next
    case True
    obtain r w1 where r: "sendtoErr s (b @ [static_next w]) 114 (server w) w = Ok r w1"
      and k: "(if r < 0 then give_up s w1 else bnd (pollCall 1000 w1) (\<lambda>poll w.
            if poll = - 1 then send_filename_loop s b (n + 1) w
            else bnd (recvfrom_server (local_array 7 w) w) (\<lambda>(recieved, recv_buffer) w.
              if recieved < 0 then give_up s w
              else if recv_buffer ! 6 = 33 then Ok FILE_VALID (redirect w)
              else give_up s w))) = Ok st w'"
      using "1.prems" True unfolding send_filename_loop.simps [of s b n w] by (auto elim!: bnd_Ok_E)
    note q1 = recv_q_sendtoErr [OF r]
    show ?thesis
    proof (cases "r < 0")
      case True
      with k g [of w1] q1 show ?thesis by simp
    next
      case False
      then obtain x w2 where x: "pollCall 1000 w1 = Ok x w2" using k by (auto elim!: bnd_Ok_E)
      note q2 = recv_q_pollCall [OF x]
      show ?thesis
      proof (cases "x = - 1")
        case True
        then show ?thesis
          using "1.IH" [OF \<open>n < 9\<close> r False x True] k x False q1 q2 by (auto simp: accepted_by_def)
      next
        case nt: False
        obtain m c w3 where m: "recvfrom_server (local_array 7 w2) w2 = Ok (m, c) w3"
          "(if m < 0 then give_up s w3 else if c ! 6 = 33 then Ok FILE_VALID (redirect w3)
              else give_up s w3) = Ok st w'"
          using k x False nt by (auto elim!: bnd_Ok_E)
        have "closed w3 = closed w2" using m(1) by (auto elim!: recvfrom_server_Ok)
        then show ?thesis
          using m f [OF m(1)] g [of w3] q1 q2 by (auto simp: accepted_by_def split: if_splits)
      qed
    qed
  qed
qed

lemma doSendFilenameState_state:
  "doSendFilenameState s b w = Ok st w' \<Longrightarrow>
     st = DONE \<or> st = FILE_VALID \<and> length (poll_q w') < length (poll_q w)"
  unfolding doSendFilenameState_def
  by (auto elim!: bnd_Ok_E dest!: addToPollSet_Ok send_filename_loop_state)

lemma doFileValidState_state:
  "doFileValidState p s w = Ok st w' \<Longrightarrow>
     st = DONE \<or> st \<noteq> FILE_VALID \<and> length (poll_q w') < length (poll_q w)"
  unfolding doFileValidState_def checkDestFile_def fopen_wb_def
  by (auto elim!: bnd_Ok_E split: if_splits dest!: file_valid_loop_state)

section \<open>main\<close>

function rcopy_fsm :: "RcopyParams \<Rightarrow> int \<Rightarrow> byte list \<Rightarrow> state \<Rightarrow> client \<Rightarrow> (client, unit) res" where
  "rcopy_fsm params socketNum buffer_to_send state w =
     (if state = DONE then Ok () w
      else case state of
        SEND_FILENAME \<Rightarrow> bnd (doSendFilenameState socketNum buffer_to_send w)
          (\<lambda>state w. rcopy_fsm params socketNum buffer_to_send state w)
      | FILE_VALID \<Rightarrow> bnd (doFileValidState params socketNum w)
          (\<lambda>state w. rcopy_fsm params socketNum buffer_to_send state w)
      | GET_DATA \<Rightarrow> bnd (doGetDataState socketNum params w)
          (\<lambda>state w. rcopy_fsm params socketNum buffer_to_send state w)
      | DONE \<Rightarrow> bnd (doDoneState socketNum w)
          (\<lambda>_ w. rcopy_fsm params socketNum buffer_to_send state w))"
  by pat_completeness auto
termination
  by (relation "measure (\<lambda>(_, _, _, st, w). if st = DONE then 0 else Suc (length (poll_q w)))")
    (auto dest: doSendFilenameState_state doFileValidState_state doGetDataState_state)

declare rcopy_fsm.simps [simp del]

text \<open>
  \<open>main\<close>: the static variables start with their initialisers. The second
  checksum over the sealed request guards an \<open>exit(1)\<close>.
\<close>

definition static_init :: "client \<Rightarrow> client" where
  "static_init w = w\<lparr>rr_seq_num := 0, srej_seq_num := 0, current_server_port := 0, subState := IN_ORDER\<rparr>"

definition main :: "byte list list \<Rightarrow> client \<Rightarrow> (client, int) res" where
  "main argv w =
     bnd (setupPollSet (static_init w)) (\<lambda>_ w.
     bnd (checkArgs argv w) (\<lambda>params w.
     bnd (setupUdpClientToServer (cstring (remote_machine params)) (remote_port params) w)
       (\<lambda>(socketNum, srv) w.
         let w = init_errors (error_rate params) False (w\<lparr>server := srv\<rparr>);
             buffer = makeFilenamePDUBeforeChecksum params;
             calculated_checksum = calculateFilenameChecksum buffer;
             buffer_to_send = makeFilenamePDUAfterChecksum buffer calculated_checksum
         in if calculateFilenameChecksum buffer_to_send \<noteq> 0 then Stop (Exited 1) w
            else bnd (rcopy_fsm params socketNum buffer_to_send SEND_FILENAME w) (\<lambda>_ w.
                 bnd (close_socket socketNum w) (\<lambda>_ w. Ok 0 w)))))"

section \<open>What the file-name exchange keeps\<close>

lemma quiet_pset [simp]: "quiet w (w\<lparr>pset := ps\<rparr>)" "quiet w (w\<lparr>server := a\<rparr>)"
    "quiet w (w\<lparr>closed := cs\<rparr>)" "quiet w (redirect w)"
  by (simp_all add: quiet_def reliable_def redirect_def Let_def)

lemma quiet_poll_set_calls [simp]:
  "quiet w (final (removeFromPollSet s w))" "quiet w (final (addToPollSet s w))"
  "quiet w (final (close_socket s w))"
  using final_removeFromPollSet [of s w] final_addToPollSet [of s w]
  by (auto simp: quiet_def reliable_def close_socket_def)

lemma quiet_give_up [simp]: "quiet w (final (give_up s w))"
  unfolding give_up_def by (auto intro!: quietly.bnd_final)

text \<open>
  The interface of the receiving loops, with what the file-name exchange adds: the
  sender's address replaces the server's, and the socket leaves the poll set.
\<close>

locale exchange_effects = receiver_effects R for R :: "client \<Rightarrow> client \<Rightarrow> bool" +
  assumes R_server [simp]: "R w (w\<lparr>server := a\<rparr>)"
    and R_removeFromPollSet [simp]: "R w (final (removeFromPollSet s w))"
begin

lemma R_recvfrom_server [simp]: "R w (final (recvfrom_server b w))"
  unfolding recvfrom_server_def by (rule bnd_final) (auto split: option.splits)

lemma R_file_valid_loop [simp]: "R w (final (file_valid_loop s b n w))"
proof (induction s b n w rule: file_valid_loop.induct)
  case (1 s b n w)
  have 2: "R w2 (final (file_valid_loop s c n w2))"
    if "n < 9" "pollCall 1000 w = Ok x w1" "x \<noteq> - 1" "recvfrom_server b w1 = Ok (m, c) w2" "m < 0"
    for x w1 m c w2
    using 1(1) [OF that(1-4) refl that(5)] .
  have 3: "R w2 (final (file_valid_loop s c (Suc n) w2))"
    if "n < 9" "pollCall 1000 w = Ok x w1" "x \<noteq> - 1" "recvfrom_server b w1 = Ok (m, c) w2" "\<not> m < 0"
      "c ! 6 \<noteq> 9" "c ! 6 \<noteq> 32" for x w1 m c w2
    using 1(2) [OF that(1-4) refl that(5-7)] by simp
  have 4: "R w1 (final (file_valid_loop s b (Suc n) w1))"
    if "n < 9" "pollCall 1000 w = Ok (- 1) w1" for w1
    using 1(3) [OF that] by simp
  show ?case
    unfolding file_valid_loop.simps [of s b n w]
    by (auto intro!: bnd_final simp: 2 3 4)
qed

end

definition same_closed :: "client \<Rightarrow> client \<Rightarrow> bool" where
  "same_closed w w' \<longleftrightarrow> closed w' = closed w"

interpretation quietly: exchange_effects quiet
  by unfold_locales simp_all

interpretation sockets: exchange_effects same_closed
proof
  show "same_closed w (final (pollCall t w))" for t w
    using final_pollCall [of t w] by (auto simp: same_closed_def)
  show "same_closed w (final (recvfrom buf len w))" for buf len w
    using final_recvfrom [of buf len w] by (auto simp: same_closed_def)
  show "same_closed w (final (sendtoErr s buf sz (server w) w))" for s buf sz w
    using final_sendtoErr [of s buf sz "server w" w] by (auto simp: same_closed_def)
  show "same_closed w (final (removeFromPollSet s w))" for s w
    using final_removeFromPollSet [of s w] by (auto simp: same_closed_def)
qed (simp_all add: same_closed_def malloc_def)

lemma quiet_send_filename_loop [simp]: "quiet w (final (send_filename_loop s b n w))"
proof (induction s b n w rule: send_filename_loop.induct)
  case (1 s b n w)
  have "quiet w2 (final (send_filename_loop s b (Suc n) w2))"
    if "n < 9" "sendtoErr s (b @ [static_next w]) 114 (server w) w = Ok r w1" "\<not> r < 0"
      "pollCall 1000 w1 = Ok (- 1) w2" for r w1 w2
    using 1 [OF that refl] by simp
  then show ?case
    unfolding send_filename_loop.simps [of s b n w]
    by (auto intro!: quietly.bnd_final simp: quiet_sendtoErr)
qed

lemma quiet_doSendFilenameState [simp]: "quiet w (final (doSendFilenameState s b w))"
  unfolding doSendFilenameState_def by (auto intro!: quietly.bnd_final)

section \<open>How often the request is sent\<close>

definition requests :: "int \<Rightarrow> byte list \<Rightarrow> nat \<Rightarrow> client \<Rightarrow> client \<Rightarrow> bool" where
  "requests s b k w v \<longleftrightarrow>
     (\<exists>m \<le> k. sent v = sent w @ replicate m (s, server w, b @ [static_next w]))"

lemma requests_same: "sent v = sent w \<Longrightarrow> requests s b k w v"
  unfolding requests_def by (intro exI [of _ 0]) simp

lemma sent_recvfrom_server: "sent (final (recvfrom_server b w)) = sent w"
proof -
  obtain q where q: "final (recvfrom b 7 w) = w\<lparr>recv_q := q\<rparr>" using final_recvfrom by blast
  show ?thesis
    using q by (cases "recvfrom b 7 w") (auto simp: recvfrom_server_def split: option.splits)
qed

lemma sent_give_up: "sent (final (give_up s w)) = sent w"
proof -
  obtain ps where "final (removeFromPollSet s w) = w\<lparr>pset := ps\<rparr>" using final_removeFromPollSet by blast
  then show ?thesis by (cases "removeFromPollSet s w") (auto simp: give_up_def close_socket_def)
qed

lemma sent_redirect: "sent (redirect w) = sent w"
  by (simp add: redirect_def Let_def)

lemma sent_after_poll:
  assumes "x \<noteq> - 1"
  shows "sent (final (if x = - 1 then t else bnd (recvfrom_server (local_array 7 w) w) (\<lambda>(recieved, recv_buffer) w.
              if recieved < 0 then give_up s w
              else if recv_buffer ! 6 = 33 then Ok FILE_VALID (redirect w)
              else give_up s w))) = sent w"
  using assms sent_recvfrom_server [of "local_array 7 w" w]
  by (cases "recvfrom_server (local_array 7 w) w") (auto simp: sent_give_up sent_redirect)

lemma request_sent:
  assumes "sendtoErr s (b @ [static_next w]) 114 (server w) w = Ok r w1" "drop_channel (pmgr w)" "length b = 113"
  shows "drop_channel (pmgr w1)" "requests s b k w1 v \<Longrightarrow> requests s b (Suc k) w v"
proof -
  note d = sendtoErr_drop_channel [OF assms(1,2)]
  show "drop_channel (pmgr w1)" by (rule d(1))
  have w1: "server w1 = server w" "static_next w1 = static_next w"
    using assms(1) by (auto elim!: sendtoErr_Ok)
  assume "requests s b k w1 v"
  then obtain m where m: "m \<le> k" "sent v = sent w1 @ replicate m (s, server w, b @ [static_next w])"
    using w1 by (auto simp: requests_def)
  consider "sent w1 = sent w" | "sent w1 = sent w @ [(s, server w, b @ [static_next w])]"
    using d(5) assms(3) by auto
  then show "requests s b (Suc k) w v"
  proof cases
    case 1
    then show ?thesis using m by (auto simp: requests_def intro!: exI [of _ m])
  next
    case 2
    then show ?thesis using m by (auto simp: requests_def intro!: exI [of _ "Suc m"])
  qed
qed

lemma unsent_request: "sendtoErr s b n a w = Stop r w1 \<Longrightarrow> sent w1 = sent w" for w :: client
  by (auto simp: sendtoErr_def Let_def bnd_Stop_iff lift_Stop_iff lift_Ok_iff deliver_def split: if_splits)

text \<open>The rest of a round, once the next round is known to keep to its number of requests.\<close>

lemma round_requests:
  assumes "\<And>w2. pollCall 1000 w1 = Ok (- 1) w2 \<Longrightarrow> pmgr w2 = pmgr w1 \<Longrightarrow> requests s b k w2 (final (next_round w2))"
  shows "requests s b k w1 (final (bnd (pollCall 1000 w1) (\<lambda>x w.
      if x = - 1 then next_round w
      else bnd (recvfrom_server (local_array 7 w) w) (\<lambda>(recieved, recv_buffer) w.
        if recieved < 0 then give_up s w
        else if recv_buffer ! 6 = 33 then Ok FILE_VALID (redirect w)
        else give_up s w))))"
proof -
  obtain ps q where p: "final (pollCall 1000 w1) = w1\<lparr>poll_q := q, pset := ps\<rparr>" using final_pollCall by blast
  show ?thesis
  proof (cases "pollCall 1000 w1")
    case (Stop x w2)
    then show ?thesis using p by (simp add: requests_same)
  next
    case (Ok x w2)
    have w2: "w2 = w1\<lparr>poll_q := q, pset := ps\<rparr>" using Ok p by simp
    show ?thesis
    proof (cases "x = - 1")
      case True
      then show ?thesis using assms [of w2] Ok w2 by (simp add: requests_def)
    next
      case False
      then show ?thesis using Ok sent_after_poll [OF False, of _ w2 s] w2 by (simp add: requests_same)
    qed
  qed
qed

lemma send_filename_loop_requests:
  assumes "drop_channel (pmgr w)" "length b = 113"
  shows "requests s b (9 - n) w (final (send_filename_loop s b n w))"
  using assms
proof (induction s b n w rule: send_filename_loop.induct)
  case (1 s b n w)
  note [simp] = send_filename_loop.simps [of s b n w]
  show ?case
  proof (cases "n < 9")
    case False
    then show ?thesis by (simp add: sent_give_up requests_same)
  next
    case True
    show ?thesis
    proof (cases "sendtoErr s (b @ [static_next w]) 114 (server w) w")
      case (Stop r w1)
      then show ?thesis using True by (simp add: unsent_request requests_same)
    next
      case (Ok r w1)
      have one: "requests s b (8 - n) w1 v \<Longrightarrow> requests s b (9 - n) w v" for v
        using request_sent(2) [OF Ok "1.prems", of "8 - n" v] True by (simp flip: Suc_diff_le)
      show ?thesis
      proof (cases "r < 0")
        case True
        then show ?thesis using \<open>n < 9\<close> Ok by (simp add: one sent_give_up requests_same)
      next
        case False
        have ih: "requests s b (8 - n) w2 (final (send_filename_loop s b (n + 1) w2))"
          if "pollCall 1000 w1 = Ok (- 1) w2" "pmgr w2 = pmgr w1" for w2
          using "1.IH" [OF True Ok False that(1) refl] that(2) request_sent(1) [OF Ok "1.prems"] "1.prems"(2) by simp
        show ?thesis
          using True Ok False one [OF round_requests [OF ih]] by simp
      qed
    qed
  qed
qed

section \<open>What the whole program does to the file\<close>

lemma quiet_Ok: "quiet w (final m) \<Longrightarrow> m = Ok a u \<Longrightarrow> quiet w u"
  by simp

lemma doFileValidState_file:
  fixes p defines "fp \<equiv> cstring (dest_filename p)"
  shows "fs (final (doFileValidState p s w)) = fs w \<and> (\<forall>st u. doFileValidState p s w = Ok st u \<longrightarrow> st = DONE)
     \<or> fs (final (doFileValidState p s w)) = (fs w)(fp \<mapsto> [])"
    "reliable w \<longrightarrow> reliable (final (doFileValidState p s w))"
    "set (recv_q (final (doFileValidState p s w))) \<subseteq> set (recv_q w)"
    "heap_fn (final (doFileValidState p s w)) = heap_fn w"
proof -
  let ?u = "w\<lparr>fs := (fs w)(fp \<mapsto> [])\<rparr>"
  have "quiet ?u (final (file_valid_loop s (local_array 7 ?u) 0 ?u))" by simp
  then show "fs (final (doFileValidState p s w)) = fs w \<and> (\<forall>st u. doFileValidState p s w = Ok st u \<longrightarrow> st = DONE)
     \<or> fs (final (doFileValidState p s w)) = (fs w)(fp \<mapsto> [])"
    "reliable w \<longrightarrow> reliable (final (doFileValidState p s w))"
    "set (recv_q (final (doFileValidState p s w))) \<subseteq> set (recv_q w)"
    "heap_fn (final (doFileValidState p s w)) = heap_fn w"
    by (auto simp: doFileValidState_def checkDestFile_def fopen_wb_def quiet_def fp_def reliable_def)
qed

text \<open>
  The outcome of a run: other files are untouched, and the destination is as it was,
  empty, or the payload of one receive block with a datagram of \<open>E\<close>.
\<close>

definition received_payload :: "heap \<Rightarrow> recv_event set \<Rightarrow> RcopyParams \<Rightarrow> byte list \<Rightarrow> bool" where
  "received_payload h E p x \<longleftrightarrow> (\<exists>b. received_block h E p b \<and> 7 + buffer_size p \<le> int (length b)
     \<and> 0 < buffer_size p \<and> x = take (nat (buffer_size p)) (drop 7 b))"

lemma received_payload_length: "received_payload h E p x \<Longrightarrow> int (length x) = buffer_size p"
  by (auto simp: received_payload_def)

definition out_ok :: "heap \<Rightarrow> recv_event set \<Rightarrow> RcopyParams \<Rightarrow> client \<Rightarrow> client \<Rightarrow> bool" where
  "out_ok h E p w v \<longleftrightarrow> (let fp = cstring (dest_filename p) in
     (\<forall>g. g \<noteq> fp \<longrightarrow> fs v g = fs w g) \<and>
     (file_contents v fp = file_contents w fp \<or> file_contents v fp = []
      \<or> received_payload h E p (file_contents v fp)))"

lemma out_ok_quiet: "quiet w u \<Longrightarrow> out_ok h E p u v \<Longrightarrow> out_ok h E p w v"
  by (simp add: out_ok_def quiet_def file_contents_def)

lemma out_ok_same: "fs v = fs w \<Longrightarrow> out_ok h E p w v"
  by (simp add: out_ok_def file_contents_def)

lemma rcopy_fsm_file:
  assumes "reliable w" "set (recv_q w) \<subseteq> E" "heap_fn w = h"
    "st = GET_DATA \<Longrightarrow> file_contents w (cstring (dest_filename p)) = []"
  shows "out_ok h E p w (final (rcopy_fsm p s b st w))"
  using assms
proof (induction p s b st w rule: rcopy_fsm.induct)
  case (1 p s b st w)
  show ?case
  proof (cases st)
    case SEND_FILENAME
    have q: "quiet w (final (doSendFilenameState s b w))" by simp
    show ?thesis
    proof (cases "doSendFilenameState s b w")
      case (Ok st' w1)
      have q1: "quiet w w1" using q Ok by simp
      then have "out_ok h E p w1 (final (rcopy_fsm p s b st' w1))"
        using "1.IH"(1) [OF _ SEND_FILENAME Ok] "1.prems"(1,2,3) doSendFilenameState_state [OF Ok] SEND_FILENAME
        by (auto simp: quiet_def)
      then show ?thesis
        using SEND_FILENAME Ok out_ok_quiet [OF q1] by (simp add: rcopy_fsm.simps [of p s b SEND_FILENAME w])
    next
      case (Stop r w1)
      then show ?thesis using SEND_FILENAME q
        by (simp add: rcopy_fsm.simps [of p s b SEND_FILENAME w] out_ok_same quiet_def)
    qed
  next
    case FILE_VALID
    let ?fp = "cstring (dest_filename p)"
    note f = doFileValidState_file [where p = p and s = s and w = w]
    show ?thesis
    proof (cases "doFileValidState p s w")
      case (Ok st' w1)
      have "st' = GET_DATA \<Longrightarrow> file_contents w1 ?fp = []"
        using f(1) Ok by (auto simp: file_contents_def)
      then have "out_ok h E p w1 (final (rcopy_fsm p s b st' w1))"
        using "1.IH"(2) [OF _ FILE_VALID Ok] "1.prems"(1,2,3) f(2,3,4) Ok FILE_VALID by auto
      then show ?thesis
        using FILE_VALID Ok f(1)
        by (auto simp: rcopy_fsm.simps [of p s b FILE_VALID w] out_ok_def Let_def file_contents_def)
    next
      case (Stop r w1)
      then show ?thesis using FILE_VALID f(1)
        by (auto simp: rcopy_fsm.simps [of p s b FILE_VALID w] out_ok_def Let_def file_contents_def)
    qed
  next
    case GET_DATA
    have f: "final (rcopy_fsm p s b st w) = final (doGetDataState s p w)"
      using GET_DATA
      by (cases "doGetDataState s p w")
        (auto simp: rcopy_fsm.simps [of p s b GET_DATA w] rcopy_fsm.simps [of p s b DONE] dest!: doGetDataState_state)
    show ?thesis
      using doGetDataState_file [OF "1.prems"(1,2,3), of p s] "1.prems"(4) [OF GET_DATA]
      unfolding f by (auto simp: out_ok_def Let_def received_payload_def)
  next
    case DONE
    then show ?thesis by (simp add: rcopy_fsm.simps [of p s b DONE w] out_ok_same)
  qed
qed

section \<open>Runs of main\<close>

lemma closed_doFileValidState: "closed (final (doFileValidState p s w)) = closed w"
  using sockets.R_file_valid_loop
  by (auto simp: doFileValidState_def checkDestFile_def fopen_wb_def same_closed_def)

lemma rcopy_fsm_closed:
  "rcopy_fsm p s b st w = Ok u w' \<Longrightarrow> closed w' = closed w \<or> closed w' = closed w @ [s]"
proof (induction p s b st w rule: rcopy_fsm.induct)
  case (1 p s b st w)
  show ?case
  proof (cases st)
    case SEND_FILENAME
    then obtain st' w1 where r: "doSendFilenameState s b w = Ok st' w1"
        "rcopy_fsm p s b st' w1 = Ok u w'"
      using "1.prems" by (auto simp: rcopy_fsm.simps [of p s b SEND_FILENAME w] elim!: bnd_Ok_E)
    obtain w0 where w0: "addToPollSet s w = Ok () w0" "send_filename_loop s b 0 w0 = Ok st' w1"
      using r(1) by (auto simp: doSendFilenameState_def elim!: bnd_Ok_E)
    then have "st' = DONE \<and> closed w1 = closed w @ [s] \<or> closed w1 = closed w"
      using send_filename_loop_outcome [OF w0(2)] by (auto dest: addToPollSet_Ok)
    then show ?thesis
    proof
      assume "st' = DONE \<and> closed w1 = closed w @ [s]"
      with r(2) show ?thesis by (simp add: rcopy_fsm.simps [of p s b DONE])
    next
      assume "closed w1 = closed w"
      with "1.IH"(1) [OF _ SEND_FILENAME r] SEND_FILENAME show ?thesis by simp
    qed
  next
    case FILE_VALID
    then obtain st' w1 where r: "doFileValidState p s w = Ok st' w1" "rcopy_fsm p s b st' w1 = Ok u w'"
      using "1.prems" by (auto simp: rcopy_fsm.simps [of p s b FILE_VALID w] elim!: bnd_Ok_E)
    with "1.IH"(2) [OF _ FILE_VALID r] FILE_VALID closed_doFileValidState [of p s w]
    show ?thesis by simp
  next
    case GET_DATA
    then obtain st' w1 where r: "doGetDataState s p w = Ok st' w1" "rcopy_fsm p s b st' w1 = Ok u w'"
      using "1.prems" by (auto simp: rcopy_fsm.simps [of p s b GET_DATA w] elim!: bnd_Ok_E)
    with "1.IH"(3) [OF _ GET_DATA r] GET_DATA evolving.R_doGetDataState [of w s p]
    show ?thesis by (simp add: evolves_def)
  next
    case DONE
    then show ?thesis using "1.prems" by (simp add: rcopy_fsm.simps [of p s b DONE w])
  qed
qed

lemma takeWhile_NUL: "takeWhile (\<lambda>c. c \<noteq> (0::byte)) (s @ 0 # t) = takeWhile (\<lambda>c. c \<noteq> 0) s"
  by (induction s) auto

lemma cstring_strncpy: "cstring (strncpy_array n s) = cstring (take n s)"
proof -
  have "take n (s @ replicate n 0) @ [0] = take n s @ 0 # replicate (n - length s) (0::byte)"
    by (simp add: replicate_append_same)
  then show ?thesis by (simp only: cstring_def strncpy_array_def takeWhile_NUL)
qed

lemma checkArgs_Ok:
  assumes "checkArgs argv w = Ok p w'"
  shows "w' = w" "length argv = 8" "0 < window_size p" "0 < buffer_size p" "0 < remote_port p"
    "\<not> error_rate p < 0" "\<not> error_rate p > 1" "buffer_size p = atoi (argv ! 4)"
    "length (src_filename p) = 101" "length (dest_filename p) = 101"
    "cstring (src_filename p) = cstring (argv ! 1)" "cstring (dest_filename p) = cstring (argv ! 2)"
  using assms
  by (auto simp: checkArgs_def MAX_FILENAME_LEN_def cstring_strncpy split: if_splits)
    (simp_all add: strncpy_array_def)

lemma setupPollSet_final: "\<exists>ps. final (setupPollSet w) = w\<lparr>heap_no := heap_no w + 1, pset := ps\<rparr>"
  by (auto simp: setupPollSet_def on_pset_def split: res.splits)

lemma main_file:
  assumes "reliable w"
  shows "fs (final (main argv w)) = fs w \<or> (\<exists>p u s b. checkArgs argv u = Ok p u \<and> fs u = fs w \<and>
     reliable u \<and> set (recv_q u) \<subseteq> set (recv_q w) \<and> heap_fn u = heap_fn w \<and> fs (final (main argv w)) = fs (final (rcopy_fsm p s b SEND_FILENAME u)))"
proof -
  have c: "final (checkArgs argv u) = u" for u by (auto simp: checkArgs_def)
  have q: "quiet v (final (setupUdpClientToServer h port v))" for h port v
    by (auto simp: setupUdpClientToServer_def must_def syscall_def quiet_def reliable_def
        gethostbyname6_def getIPAddress6_def Let_def split: list.splits option.splits)
  obtain ps where ps: "final (setupPollSet (static_init w))
      = (static_init w)\<lparr>heap_no := heap_no w + 1, pset := ps\<rparr>"
    using setupPollSet_final [of "static_init w"] by (auto simp: static_init_def)
  then have q1: "fs (final (setupPollSet (static_init w))) = fs w"
      "reliable (final (setupPollSet (static_init w)))" "recv_q (final (setupPollSet (static_init w))) = recv_q w"
      "heap_fn (final (setupPollSet (static_init w))) = heap_fn w"
    using assms by (simp_all add: static_init_def reliable_def)
  show ?thesis
  proof (cases "setupPollSet (static_init w)")
    case (Stop r u)
    then show ?thesis using q1 by (simp add: main_def)
  next
    case w1: (Ok r w1)
    show ?thesis
    proof (cases "checkArgs argv w1")
      case (Stop r u)
      then show ?thesis using q1 w1 c [of w1] by (simp add: main_def)
    next
      case ca: (Ok p u)
      have u: "u = w1" using checkArgs_Ok(1) [OF ca] .
      let ?net = "setupUdpClientToServer (cstring (remote_machine p)) (remote_port p) w1"
      show ?thesis
      proof (cases ?net)
        case (Stop r v)
        then show ?thesis using q1 w1 ca u q [of w1 "cstring (remote_machine p)" "remote_port p"]
          by (simp add: main_def quiet_def)
      next
        case su: (Ok a v)
        obtain s srv where a: "a = (s, srv)" by (cases a)
        define x where "x = init_errors (error_rate p) False (v\<lparr>server := srv\<rparr>)"
        define b where "b = makeFilenamePDUAfterChecksum (makeFilenamePDUBeforeChecksum p)
            (calculateFilenameChecksum (makeFilenamePDUBeforeChecksum p))"
        have v: "fs v = fs w" "reliable v" "set (recv_q v) \<subseteq> set (recv_q w)" "heap_fn v = heap_fn w"
          using su q1 w1 q [of w1 "cstring (remote_machine p)" "remote_port p"]
          by (simp_all add: quiet_def)
        then have x: "fs x = fs w" "reliable x" "set (recv_q x) \<subseteq> set (recv_q w)" "heap_fn x = heap_fn w"
          by (simp_all add: x_def init_errors_def reliable_def sendErr_init_drop_channel)
        have "checkArgs argv x = Ok p x"
          using ca su q [of w1 "cstring (remote_machine p)" "remote_port p"] setupUdpClientToServer_Ok(4) [OF su [unfolded a]]
          by (auto simp: checkArgs_def x_def init_errors_def split: if_splits)
        moreover have "final (main argv w) = x \<or>
            fs (final (main argv w)) = fs (final (rcopy_fsm p s b SEND_FILENAME x))"
          using w1 ca u su a
          by (cases "rcopy_fsm p s b SEND_FILENAME x")
            (auto simp: main_def Let_def x_def b_def close_socket_def)
        ultimately show ?thesis using x by (metis)
      qed
    qed
  qed
qed

lemma main_outcome:
  assumes "reliable w" "set (recv_q w) \<subseteq> E" "heap_fn w = h"
  shows "(\<forall>g. g \<noteq> cstring (argv ! 2) \<longrightarrow> fs (final (main argv w)) g = fs w g) \<and>
     (file_contents (final (main argv w)) (cstring (argv ! 2)) = file_contents w (cstring (argv ! 2))
      \<or> file_contents (final (main argv w)) (cstring (argv ! 2)) = []
      \<or> (\<exists>p. buffer_size p = atoi (argv ! 4)
           \<and> received_payload h E p (file_contents (final (main argv w)) (cstring (argv ! 2)))))"
  using main_file [OF assms(1), of argv]
proof
  assume "fs (final (main argv w)) = fs w"
  then show ?thesis by (simp add: file_contents_def)
next
  assume "\<exists>p u s b. checkArgs argv u = Ok p u \<and> fs u = fs w \<and> reliable u \<and> set (recv_q u) \<subseteq> set (recv_q w) \<and>
      heap_fn u = heap_fn w \<and> fs (final (main argv w)) = fs (final (rcopy_fsm p s b SEND_FILENAME u))"
  then obtain p u s b where u: "checkArgs argv u = Ok p u" "fs u = fs w" "reliable u" "set (recv_q u) \<subseteq> set (recv_q w)" "heap_fn u = heap_fn w"
      "fs (final (main argv w)) = fs (final (rcopy_fsm p s b SEND_FILENAME u))" by blast
  have "out_ok h E p u (final (rcopy_fsm p s b SEND_FILENAME u))"
    by (rule rcopy_fsm_file) (use u(3,4,5) assms(2,3) in auto)
  then show ?thesis
    using u checkArgs_Ok [OF u(1)] by (auto simp: out_ok_def Let_def file_contents_def)
qed

section \<open>Properties\<close>

text \<open>
  C7. The whole client, from the command line to its end: on an accepting network
  every run of \<open>main\<close>, whatever the server sends, leaves all files but the
  destination untouched, and leaves the destination as it was, empty, or holding exactly
  one payload of the requested buffer size.
\<close>

theorem client_gets_at_most_one_payload:
  assumes "reliable w"
  shows "(\<forall>g. g \<noteq> cstring (argv ! 2) \<longrightarrow> fs (final (main argv w)) g = fs w g) \<and>
     (file_contents (final (main argv w)) (cstring (argv ! 2)) = file_contents w (cstring (argv ! 2))
      \<or> file_contents (final (main argv w)) (cstring (argv ! 2)) = []
      \<or> int (length (file_contents (final (main argv w)) (cstring (argv ! 2)))) = atoi (argv ! 4))"
  using main_outcome [OF assms order_refl refl, of argv] received_payload_length by fastforce

theorem client_gets_at_most_one_payload_witness:
  "reliable ((idle_client [(0, [])] [])\<lparr>sys_q := [3]\<rparr>) \<and> atoi [52] = 4 \<and>
    (let v = final (main [[114], [97], [98], [49], [52], [48], [104], [57]]
                      ((idle_client [(0, [])] [])\<lparr>sys_q := [3]\<rparr>))
     in (\<forall>g. g \<noteq> [98] \<longrightarrow> fs v g = None) \<and> (file_contents v [98] = [] \<or> length (file_contents v [98]) = 4))"
proof -
  let ?w = "(idle_client [(0, [])] [])\<lparr>sys_q := [3]\<rparr>"
  have r: "reliable ?w" using idle_client_reliable(1) by (simp add: reliable_def)
  have a: "atoi [52] = 4" "cstring [98] = [98]" by code_simp+
  have f: "file_contents ?w [98] = []" "fs ?w g = None" for g
    by (simp_all add: file_contents_def idle_client_def)
  show ?thesis
    using client_gets_at_most_one_payload [OF r, of "[[114], [97], [98], [49], [52], [48], [104], [57]]"] r a f
    by (auto simp: Let_def)
qed

text \<open>
  C30. The request is bounded and unicast: every run of \<open>doSendFilenameState\<close>, also
  one that blocks, adds between none and nine datagrams, and each is the
  113-byte request with one further byte, sent to the server's address.
\<close>

theorem filename_request_sent_at_most_nine_times:
  assumes "drop_channel (pmgr w)" "length b = 113"
  shows "\<exists>m \<le> 9. sent (final (doSendFilenameState s b w)) =
    sent w @ replicate m (s, server w, b @ [static_next w])"
proof (cases "addToPollSet s w")
  case (Ok u w1)
  then obtain ps k where w1: "w1 = w\<lparr>heap_no := k, pset := ps\<rparr>" using addToPollSet_Ok by blast
  have "requests s b 9 w1 (final (send_filename_loop s b 0 w1))"
    using send_filename_loop_requests [of w1 b s 0] assms w1 by simp
  then show ?thesis using Ok w1 by (simp add: doSendFilenameState_def requests_def)
next
  case (Stop r w1)
  then have "sent w1 = sent w" using final_addToPollSet [of s w] by auto
  then show ?thesis using Stop by (auto simp: doSendFilenameState_def)
qed

theorem filename_request_sent_at_most_nine_times_witness:
  "\<exists>m \<le> 9. sent (final (doSendFilenameState 3 (replicate 113 0) (idle_client [(0, []), (0, [])] []))) =
    replicate m (3, \<lparr>sin6_addr = 1, sin6_port = 0\<rparr>, replicate 114 0)"
proof -
  have "replicate 113 0 @ [0] = (replicate 114 0 :: byte list)"
    by (simp add: replicate_append_same eval_nat_numeral)
  then show ?thesis
    using filename_request_sent_at_most_nine_times [of "idle_client [(0, []), (0, [])] []" "replicate 113 0" 3]
    by (simp add: idle_client_def drop_channel_def)
qed

text \<open>
  Redirection: \<open>doSendFilenameState\<close> returns DONE with its socket closed,
  or FILE_VALID with the socket open; then the datagram it read has flag 33 (if
  it is long enough to have a flag), and from now on the server is that
  datagram's sender.
\<close>

theorem filename_exchange_redirects:
  assumes "doSendFilenameState s b w = Ok st w'"
  shows "st = DONE \<and> closed w' = closed w @ [s] \<or>
     st = FILE_VALID \<and> closed w' = closed w \<and>
     (\<exists>a bs. recv_q w = Datagram a bs # recv_q w' \<and> server w' = a
        \<and> current_server_port w' = uint (ntohs (sin6_port a)) \<and> (length bs < 7 \<or> bs ! 6 = 33))"
proof -
  obtain w1 where "addToPollSet s w = Ok () w1" "send_filename_loop s b 0 w1 = Ok st w'"
    using assms by (auto simp: doSendFilenameState_def elim!: bnd_Ok_E)
  then show ?thesis
    using send_filename_loop_outcome [of s b 0 w1 st w']
    by (auto simp: accepted_by_def dest!: addToPollSet_Ok)
qed

theorem filename_exchange_redirects_witness:
  "\<exists>w'. doSendFilenameState 3 (replicate 113 0)
      (idle_client [(0, []), (1, [0, 0, 0, 1])] [Datagram \<lparr>sin6_addr = 7, sin6_port = 5\<rparr> [0, 0, 0, 0, 0, 0, 33]])
      = Ok FILE_VALID w' \<and> sin6_addr (server w') = 7"
proof -
  let ?w = "idle_client [(0, []), (1, [0, 0, 0, 1])] [Datagram \<lparr>sin6_addr = 7, sin6_port = 5\<rparr> [0, 0, 0, 0, 0, 0, 33]]"
  have "case doSendFilenameState 3 (replicate 113 0) ?w of Ok st w' \<Rightarrow> st = FILE_VALID | Stop r w' \<Rightarrow> False"
    by code_simp
  then obtain w' where r: "doSendFilenameState 3 (replicate 113 0) ?w = Ok FILE_VALID w'"
    by (auto split: res.splits)
  have "recv_q ?w = [Datagram \<lparr>sin6_addr = 7, sin6_port = 5\<rparr> [0, 0, 0, 0, 0, 0, 33]]"
    by (simp add: idle_client_def)
  with r filename_exchange_redirects [OF r] show ?thesis by auto
qed

text \<open>
  The destination file is truncated before the server has said anything: every
  run of \<open>doFileValidState\<close> leaves it empty when it can be opened, also when the
  answer is that the source does not exist; when it cannot be opened the result is
  DONE, nothing is read or sent, and no file changes.
\<close>

theorem destination_truncated_before_answer:
  "(writable w (cstring (dest_filename p)) \<and>
      fs (final (doFileValidState p s w)) = (fs w)(cstring (dest_filename p) \<mapsto> [])) \<or>
   (\<not> writable w (cstring (dest_filename p)) \<and> doFileValidState p s w = Ok DONE w)"
proof (cases "writable w (cstring (dest_filename p))")
  case True
  let ?u = "w\<lparr>fs := (fs w)(cstring (dest_filename p) \<mapsto> [])\<rparr>"
  have "quiet ?u (final (file_valid_loop s (local_array 7 ?u) 0 ?u))" by simp
  then show ?thesis using True by (simp add: doFileValidState_def checkDestFile_def fopen_wb_def quiet_def)
qed (simp add: doFileValidState_def checkDestFile_def fopen_wb_def)

text \<open>
  When \<open>main\<close> returns, it returns 0 (success), whether or not anything was
  transferred, and the socket has been closed; after a file-name exchange that gave
  up it is closed twice.
\<close>

lemma main_returns_zero:
  "case main argv w of
     Ok r w' \<Rightarrow> r = 0 \<and> (\<exists>s. 0 \<le> s \<and> (closed w' = closed w @ [s] \<or> closed w' = closed w @ [s, s]))
   | Stop r w' \<Rightarrow> True"
proof (cases "main argv w")
  case (Ok r w')
  obtain w1 p w2 s srv w3 b w4 where m: "setupPollSet (static_init w) = Ok () w1"
      "checkArgs argv w1 = Ok p w2"
      "setupUdpClientToServer (cstring (remote_machine p)) (remote_port p) w2 = Ok (s, srv) w3"
      "rcopy_fsm p s b SEND_FILENAME (init_errors (error_rate p) False (w3\<lparr>server := srv\<rparr>)) = Ok () w4"
      "r = 0" "w' = w4\<lparr>closed := closed w4 @ [s]\<rparr>"
    using Ok unfolding main_def Let_def close_socket_def
    by (elim bnd_Ok_E) (auto elim!: bnd_Ok_E split: if_splits)
  have "w2 = w1" by (rule checkArgs_Ok(1) [OF m(2)])
  moreover have "closed w1 = closed w"
    using setupPollSet_final [of "static_init w"] m(1) by (auto simp: static_init_def)
  moreover have "closed w3 = closed w2" "0 \<le> s" using setupUdpClientToServer_Ok [OF m(3)] by auto
  ultimately have "0 \<le> s \<and> (closed w' = closed w @ [s] \<or> closed w' = closed w @ [s, s])"
    using rcopy_fsm_closed [OF m(4)] m(6) by (auto simp: init_errors_def)
  with Ok m(5) show ?thesis by auto
qed simp

text \<open>
  C33. The command line is validated, except for an error rate that is no number:
  \<open>checkArgs\<close> either leaves the process unchanged and returns parameters in range, with
  NUL-terminated names equal to the arguments, or exits with status 1; there is no other
  outcome. The error rate is between 0 and 1 or a NaN: both comparisons with a NaN are
  false, so \<open>nan\<close> passes the test.
\<close>

theorem checkArgs_validates:
  "case checkArgs argv w of
     Ok p w' \<Rightarrow> w' = w \<and> length argv = 8 \<and> 0 < window_size p \<and> 0 < buffer_size p \<and> 0 < remote_port p
       \<and> (error_rate p = NaN \<or> 0 \<le> error_rate p \<and> error_rate p \<le> 1)
       \<and> length (src_filename p) = 101 \<and> cstring (src_filename p) = cstring (argv ! 1)
       \<and> length (dest_filename p) = 101 \<and> cstring (dest_filename p) = cstring (argv ! 2)
   | Stop r w' \<Rightarrow> r = Exited 1 \<and> w' = w"
proof (cases "checkArgs argv w")
  case (Ok p w')
  then show ?thesis using checkArgs_Ok [OF Ok] rate_test [of "error_rate p"] by simp
next
  case (Stop r w')
  then have "r = Exited 1 \<and> w' = w" unfolding checkArgs_def by (simp split: if_splits)
  with Stop show ?thesis by simp
qed

theorem checkArgs_validates_witness:
  "\<exists>p. checkArgs [[114], [97], [98], [52], [50], [110, 97, 110], [104], [57]] (idle_client [] []) = Ok p (idle_client [] [])
     \<and> error_rate p = NaN \<and> \<not> 0 \<le> error_rate p \<and> cstring (src_filename p) = [97] \<and> window_size p = 4"
proof -
  let ?argv = "[[114], [97], [98], [52], [50], [110, 97, 110], [104], [57]] :: byte list list"
  have n: "atoi [52] = 4" "atoi [50] = 2" "atoi [57] = 9" "strtod_value [110, 97, 110] = Some NaN" by code_simp+
  then obtain p where p: "checkArgs ?argv (idle_client [] []) = Ok p (idle_client [] [])" "error_rate p = NaN" "window_size p = 4"
    by (simp add: checkArgs_def MAX_FILENAME_LEN_def atof_def rounded_def)
  then show ?thesis using checkArgs_validates [where argv = ?argv and w = "idle_client [] []"] by (auto simp: cstring_def)
qed

end
