(* ===== verification/RcopyRuns.thy ===== *)
theory RcopyRuns
  imports Rcopy
begin

text \<open>
  Whole runs of the client: the state machine of \<^verbatim>\<open>rcopy.c\<close> as a step
  relation between its phases, and what happens when the server never answers.
\<close>

section \<open>The phases as a step relation\<close>

text \<open>A step is one complete call of a state's handler that returns.\<close>

inductive phase_step :: "RcopyParams \<Rightarrow> int \<Rightarrow> byte list \<Rightarrow> state \<times> client \<Rightarrow> state \<times> client \<Rightarrow> bool"
  for p s b where
  sends_filename: "doSendFilenameState s b w = Ok st w' \<Longrightarrow> phase_step p s b (SEND_FILENAME, w) (st, w')"
| validates: "doFileValidState p s w = Ok st w' \<Longrightarrow> phase_step p s b (FILE_VALID, w) (st, w')"
| gets_data: "doGetDataState s p w = Ok st w' \<Longrightarrow> phase_step p s b (GET_DATA, w) (st, w')"

inductive_cases phase_stepE: "phase_step p s b (st, w) c"
inductive_simps phase_step_iff: "phase_step p s b (st, w) (st', w')"

lemma no_step_from_DONE [simp]: "\<not> phase_step p s b (DONE, w) c"
  by (cases c) (simp add: phase_step_iff)

text \<open>The transitions of the protocol.\<close>

inductive protocol_edge :: "state \<Rightarrow> state \<Rightarrow> bool" where
  redirected: "protocol_edge SEND_FILENAME FILE_VALID"
| no_server: "protocol_edge SEND_FILENAME DONE"
| file_found: "protocol_edge FILE_VALID GET_DATA"
| no_file: "protocol_edge FILE_VALID DONE"
| start_over: "protocol_edge FILE_VALID SEND_FILENAME"
| transferred: "protocol_edge GET_DATA DONE"

lemma rcopy_fsm_step:
  "rcopy_fsm p s b st w = Ok () w' \<longleftrightarrow>
     (if st = DONE then w' = w else \<exists>st' u. phase_step p s b (st, w) (st', u) \<and> rcopy_fsm p s b st' u = Ok () w')"
  unfolding rcopy_fsm.simps [of p s b st w]
  by (cases st) (auto simp: bnd_Ok_iff phase_step_iff)

lemma phase_step_measure:
  "phase_step p s b (st, w) (st', w') \<Longrightarrow>
     (if st' = DONE then 0 else Suc (length (poll_q w'))) < (if st = DONE then 0 else Suc (length (poll_q w)))"
  by (auto elim!: phase_stepE dest: doSendFilenameState_state doFileValidState_state doGetDataState_state)

lemma phase_step_edge: "phase_step p s b (st, w) (st', w') \<Longrightarrow> protocol_edge st st'"
proof (erule phase_stepE; clarsimp)
  show "doSendFilenameState s b w = Ok st' w' \<Longrightarrow> protocol_edge SEND_FILENAME st'"
    by (auto dest: doSendFilenameState_state intro: protocol_edge.intros)
  show "doFileValidState p s w = Ok st' w' \<Longrightarrow> protocol_edge FILE_VALID st'"
    by (cases st') (auto dest: doFileValidState_state intro: protocol_edge.intros)
  show "doGetDataState s p w = Ok st' w' \<Longrightarrow> protocol_edge GET_DATA st'"
    by (auto dest: doGetDataState_state intro: protocol_edge.intros)
qed

text \<open>
  C18. The loop of \<open>main\<close> is the protocol's state machine: it returns with a state
  of the world if and only if a sequence of complete handler calls leads from the
  current phase to \<open>DONE\<close> in that world, and every such call follows a transition of
  the protocol.
\<close>

theorem rcopy_refines_protocol:
  "(rcopy_fsm p s b st w = Ok () w' \<longleftrightarrow> (phase_step p s b)\<^sup>*\<^sup>* (st, w) (DONE, w'))
   \<and> (\<forall>c c'. phase_step p s b c c' \<longrightarrow> protocol_edge (fst c) (fst c'))"
proof (intro conjI)
  show "rcopy_fsm p s b st w = Ok () w' \<longleftrightarrow> (phase_step p s b)\<^sup>*\<^sup>* (st, w) (DONE, w')"
  proof
    show "(phase_step p s b)\<^sup>*\<^sup>* (st, w) (DONE, w')" if "rcopy_fsm p s b st w = Ok () w'"
      using that
    proof (induction "if st = DONE then 0 else Suc (length (poll_q w))" arbitrary: st w rule: less_induct)
      case less
      show ?case
      proof (cases "st = DONE")
        case False
        then obtain st' u where u: "phase_step p s b (st, w) (st', u)" "rcopy_fsm p s b st' u = Ok () w'"
          using less.prems rcopy_fsm_step [of p s b st w] by auto
        from less.hyps [OF phase_step_measure [OF u(1)] u(2)] u(1) show ?thesis
          by (rule converse_rtranclp_into_rtranclp [rotated])
      qed (use less.prems in \<open>simp add: rcopy_fsm_step\<close>)
    qed
    show "rcopy_fsm p s b st w = Ok () w'" if "(phase_step p s b)\<^sup>*\<^sup>* (st, w) (DONE, w')"
      using that
    proof (induction "(st, w)" arbitrary: st w rule: converse_rtranclp_induct)
      case base
      show ?case by (simp add: rcopy_fsm_step)
    next
      case (step c)
      then show ?case by (cases c) (auto simp: rcopy_fsm_step [of p s b st])
    qed
  qed
  show "\<forall>c c'. phase_step p s b c c' \<longrightarrow> protocol_edge (fst c) (fst c')"
    by (auto dest: phase_step_edge)
qed

theorem rcopy_refines_protocol_witness:
  "\<exists>p w. rcopy_fsm p 3 [] FILE_VALID w = Ok () w \<and> phase_step p 3 [] (FILE_VALID, w) (DONE, w)
     \<and> protocol_edge FILE_VALID DONE"
proof -
  let ?w = "(idle_client [] [])\<lparr>writable := (\<lambda>_. False)\<rparr>"
  let ?p = "\<lparr>src_filename = [], dest_filename = [], window_size = 1, buffer_size = 1, error_rate = 0,
     remote_machine = [], remote_port = 1\<rparr>"
  have s: "phase_step ?p 3 [] (FILE_VALID, ?w) (DONE, ?w)"
    by (simp add: phase_step_iff doFileValidState_def checkDestFile_def fopen_wb_def)
  have "(phase_step ?p 3 [])\<^sup>*\<^sup>* (FILE_VALID, ?w) (DONE, ?w)"
    using s by (rule r_into_rtranclp)
  then have "rcopy_fsm ?p 3 [] FILE_VALID ?w = Ok () ?w"
    by (rule rcopy_refines_protocol [THEN conjunct1, THEN iffD2])
  moreover have "protocol_edge FILE_VALID DONE"
    using rcopy_refines_protocol [of ?p 3 "[]", THEN conjunct2] s by fastforce
  ultimately show ?thesis using s by blast
qed

section \<open>A server that never answers\<close>

lemma lossless_step:
  "lossless w \<Longrightarrow> drop_channel pm \<Longrightarrow> m_ErrorRate pm = m_ErrorRate (pmgr w) \<Longrightarrow>
     lossless (w\<lparr>pmgr := pm, send_no := k, sent := l, poll_q := q, pset := ps\<rparr>)"
  by (simp add: lossless_def channel_ok_def)

lemma silent_loop:
  assumes "lossless w" "length b = 113" "poll_q w = as @ q" "\<forall>a \<in> set as. fst a = 0" "n + length as = 9"
    "ps_ok (pset w)" "0 \<le> s" "s < currentPollSetSize (pset w)"
  shows "\<exists>w'. send_filename_loop s b n w = Ok DONE w' \<and> poll_q w' = q \<and> closed w' = closed w @ [s]
    \<and> sent w' = sent w @ replicate (length as) (s, server w, b @ [static_next w]) \<and> fs w' = fs w"
  using assms
proof (induction as arbitrary: n w)
  case Nil
  obtain ps where "removeFromPollSet s w = Ok () (w\<lparr>pset := ps\<rparr>)"
    using set_pollfd_total [OF Nil.prems(6-8), of 0 0]
    by (auto simp: World.removeFromPollSet_def PollLib.removeFromPollSet_def on_pset_def)
  then show ?case
    using Nil.prems by (subst send_filename_loop.simps) (simp add: give_up_def close_socket_def)
next
  case (Cons a as)
  let ?d = "(s, server w, b @ [static_next w])"
  obtain revs where a: "a = (0, revs)" using Cons.prems(4) by (cases a) simp
  obtain pm k where 1: "sendtoErr s (b @ [static_next w]) 114 (server w) w =
      Ok 114 (w\<lparr>pmgr := pm, send_no := k, sent := sent w @ [?d]\<rparr>)"
    "drop_channel pm" "m_ErrorRate pm = m_ErrorRate (pmgr w)"
    by (rule sendtoErr_lossless [OF Cons.prems(1), of 114 "b @ [static_next w]" s "server w"])
      (use Cons.prems(2) in auto)
  define u where "u = w\<lparr>pmgr := pm, send_no := k, sent := sent w @ [?d], poll_q := as @ q,
      pset := poll_writes revs (pset w)\<rparr>"
  have 2: "World.pollCall 1000 (w\<lparr>pmgr := pm, send_no := k, sent := sent w @ [?d]\<rparr>) = Ok (- 1) u"
    using Cons.prems(3) by (simp add: World.pollCall_def on_pset_def PollLib.pollCall_def a Let_def u_def)
  have "ps_ok (poll_writes revs (pset w))" "currentPollSetSize (poll_writes revs (pset w)) = currentPollSetSize (pset w)"
    using Cons.prems(6) by (simp_all add: ps_ok_def) (simp_all add: poll_writes_def)
  then have "\<exists>w'. send_filename_loop s b (n + 1) u = Ok DONE w' \<and> poll_q w' = q \<and> closed w' = closed u @ [s]
    \<and> sent w' = sent u @ replicate (length as) (s, server u, b @ [static_next u]) \<and> fs w' = fs u"
    using Cons.prems lossless_step [OF Cons.prems(1) 1(2,3)]
    by (intro Cons.IH) (simp_all add: u_def)
  moreover have "send_filename_loop s b n w = send_filename_loop s b (n + 1) u"
    using Cons.prems(5) by (subst send_filename_loop.simps) (simp add: 1(1) 2)
  ultimately show ?case by (simp add: u_def)
qed

text \<open>
  C20. A silent server is given up on after nine seconds: when every datagram is accepted
  and the next nine one-second polls time out, the client sends exactly nine copies of the
  request to the server, closes the socket, and its state machine ends, without
  having touched any file.
\<close>

theorem silent_server_is_given_up:
  assumes "lossless w" "\<forall>k. heap_fn w k \<noteq> None" "length b = 113"
    and "poll_q w = as @ q" "length as = 9" "\<forall>a \<in> set as. fst a = 0"
    and "ps_ok (pset w)" "0 \<le> s" "s + POLL_SET_SIZE < 2147483648"
  shows "\<exists>w'. rcopy_fsm p s b SEND_FILENAME w = Ok () w' \<and> poll_q w' = q
    \<and> sent w' = sent w @ replicate 9 (s, server w, b @ [static_next w])
    \<and> closed w' = closed w @ [s] \<and> fs w' = fs w"
proof -
  obtain g where g: "heap_fn w (heap_no w) = Some g" using assms(2) by blast
  obtain ps where ps: "PollLib.addToPollSet (Some g) s (pset w) = Ok () ps" "ps_ok ps" "registered ps s"
    using addToPollSet_ok [OF assms(7-9), of g] by blast
  let ?u = "w\<lparr>heap_no := heap_no w + 1, pset := ps\<rparr>"
  have a: "World.addToPollSet s w = Ok () ?u"
    using g ps(1) by (simp add: World.addToPollSet_def on_pset_def)
  have "s < currentPollSetSize ps" using ps(2,3) by (simp add: ps_ok_def registered_def)
  then obtain w' where w': "send_filename_loop s b 0 ?u = Ok DONE w'" "poll_q w' = q" "closed w' = closed w @ [s]"
      "sent w' = sent w @ replicate 9 (s, server w, b @ [static_next w])" "fs w' = fs w"
    using silent_loop [of ?u b as q 0 s] assms ps(2) by (auto simp: lossless_def channel_ok_def)
  have "doSendFilenameState s b w = Ok DONE w'" using a w'(1) by (simp add: doSendFilenameState_def)
  then have "rcopy_fsm p s b SEND_FILENAME w = Ok () w'" by (simp add: rcopy_fsm.simps)
  then show ?thesis using w' by blast
qed

theorem silent_server_is_given_up_witness:
  "\<exists>w'. rcopy_fsm \<lparr>src_filename = [], dest_filename = [], window_size = 1, buffer_size = 1, error_rate = 0,
      remote_machine = [], remote_port = 1\<rparr> 3 (replicate 113 8) SEND_FILENAME
      ((idle_client (replicate 9 (0, [])) [])\<lparr>drand48 := (\<lambda>_ _. 1 / 2)\<rparr>) = Ok () w'
    \<and> length (sent w') = 9 \<and> closed w' = [3]"
proof -
  let ?p = "\<lparr>src_filename = [], dest_filename = [], window_size = 1, buffer_size = 1, error_rate = 0,
      remote_machine = [], remote_port = 1\<rparr>"
  let ?w = "(idle_client (replicate 9 (0, [])) [])\<lparr>drand48 := (\<lambda>_ _. 1 / 2)\<rparr>"
  have "lossless ?w" "\<forall>k. heap_fn ?w k \<noteq> None" "poll_q ?w = replicate 9 (0, []) @ []" "ps_ok (pset ?w)"
      "sent ?w = []" "closed ?w = []"
    by (simp_all add: lossless_def channel_ok_def drop_channel_def idle_client_def ps_ok_def empty_pollset_def)
  then have "\<exists>w'. rcopy_fsm ?p 3 (replicate 113 8) SEND_FILENAME ?w = Ok () w' \<and> poll_q w' = []
      \<and> sent w' = [] @ replicate 9 (3, server ?w, replicate 113 8 @ [static_next ?w]) \<and> closed w' = [] @ [3] \<and> fs w' = fs ?w"
    using silent_server_is_given_up [of ?w "replicate 113 8" "replicate 9 (0, [])" "[]" 3 ?p]
    by (simp add: POLL_SET_SIZE_def)
  then show ?thesis by (metis append_Nil length_replicate)
qed

end
