(* ===== verification/WindowSpec.thy ===== *)
theory WindowSpec
  imports Window
begin

text \<open>
  What the windowing library promises, as an abstract machine: a map from sequence
  numbers to packets of which at most one per residue modulo the window size is kept,
  and the number that is expected next. The operations of theory \<open>Window\<close> are
  shown to refine it, through the abstraction functions \<open>held\<close> and \<open>in_flight\<close>.
\<close>

section \<open>The abstract machine\<close>

type_synonym packets = "int \<Rightarrow> byte list option"

text \<open>Storing a packet evicts the others of its residue.\<close>

definition spec_store :: "int \<Rightarrow> packets \<Rightarrow> int \<Rightarrow> byte list \<Rightarrow> packets" where
  "spec_store W m s d = (\<lambda>t. if t = s then Some d else if W dvd (t - s) then None else m t)"

text \<open>Removing the numbers from \<open>a\<close> up to, not including, \<open>b\<close> with their residues.\<close>

definition spec_release :: "int \<Rightarrow> packets \<Rightarrow> int \<Rightarrow> int \<Rightarrow> packets" where
  "spec_release W m a b = (\<lambda>t. if \<exists>k. a \<le> k \<and> k < b \<and> W dvd (t - k) then None else m t)"

text \<open>The packets present from \<open>e\<close> on without a gap, at most \<open>n\<close> of them.\<close>

fun spec_run :: "packets \<Rightarrow> int \<Rightarrow> nat \<Rightarrow> byte list list" where
  "spec_run m e 0 = []"
| "spec_run m e (Suc n) = (case m e of None \<Rightarrow> [] | Some d \<Rightarrow> d # spec_run m (e + 1) n)"

lemma spec_run_nth:
  "i < length (spec_run m e n) \<Longrightarrow> m (e + int i) = Some (spec_run m e n ! i)"
proof (induction m e n arbitrary: i rule: spec_run.induct)
  case (2 m e n)
  then show ?case by (cases i) (auto simp: algebra_simps split: option.splits)
qed simp

lemma spec_run_length: "length (spec_run m e n) \<le> n"
  by (induction m e n rule: spec_run.induct) (auto split: option.split)

lemma spec_run_end: "length (spec_run m e n) < n \<Longrightarrow> m (e + int (length (spec_run m e n))) = None"
  by (induction m e n rule: spec_run.induct) (auto simp: algebra_simps split: option.splits)

lemma Ex_index_iff: "(\<exists>i < n. (W::int) dvd (t - (e + int i))) \<longleftrightarrow> (\<exists>k. e \<le> k \<and> k < e + int n \<and> W dvd (t - k))"
proof
  assume "\<exists>i < n. W dvd (t - (e + int i))"
  then obtain i where "i < n" "W dvd (t - (e + int i))" by blast
  then show "\<exists>k. e \<le> k \<and> k < e + int n \<and> W dvd (t - k)" by (intro exI [of _ "e + int i"]) simp
next
  assume "\<exists>k. e \<le> k \<and> k < e + int n \<and> W dvd (t - k)"
  then obtain k where "e \<le> k" "k < e + int n" "W dvd (t - k)" by blast
  then show "\<exists>i < n. W dvd (t - (e + int i))" by (intro exI [of _ "nat (k - e)"]) auto
qed

text \<open>
  A window of size \<open>W\<close> holds at most \<open>W\<close> packets in a row, so the run the flush
  loop finds is the abstract one.
\<close>

lemma held_full_turn:
  assumes "rb_ok b" "held b e = Some d"
  shows "held b (e + rb_window_size b) = None"
  using assms rb_okD(1) [OF assms(1)] by (auto simp: held_def split: option.splits if_splits)

lemma held_run_end:
  assumes "rb_ok b"
  shows "held b (e + int (length (spec_run (held b) e (nat (rb_window_size b))))) = None"
proof (cases "length (spec_run (held b) e (nat (rb_window_size b))) < nat (rb_window_size b)")
  case True
  then show ?thesis by (rule spec_run_end)
next
  case False
  then have l: "length (spec_run (held b) e (nat (rb_window_size b))) = nat (rb_window_size b)"
    using spec_run_length [of "held b" e "nat (rb_window_size b)"] by simp
  have "held b e \<noteq> None" using l rb_okD(1) [OF assms] spec_run_nth [of 0 "held b" e "nat (rb_window_size b)"] by auto
  then show ?thesis using held_full_turn [OF assms] l rb_okD(1) [OF assms] by auto
qed

section \<open>Properties of the receiver's buffer\<close>

text \<open>
  C23. \<open>insertReceiverPacket\<close> refines the abstract store: on a well-formed buffer a data
  packet inside the window is stored, the buffer stays well-formed with the same
  \<open>expected\<close>, and what the buffer holds afterwards is the abstract store of the
  payload under its number.
\<close>

theorem insert_refines_store:
  assumes "rb_ok b" "0 \<le> s" "s \<le> expected b + rb_window_size b" "length d \<le> 1400"
  shows "\<exists>b'. insertReceiverPacket b (data_pdu s d) (7 + int (length d)) = Inr b' \<and> rb_ok b'
    \<and> expected b' = expected b \<and> held b' = spec_store (rb_window_size b) (held b) s d"
proof -
  have a: "rb_accepts b s d" using assms(2-4) by (simp add: rb_accepts_def)
  obtain p hi where eq: "rb_put b s d = Inr (b\<lparr>highest := hi, rb_buffer := (rb_buffer b)[nat (s mod rb_window_size b) :=
       Some (stored_packet p s (data_pdu s d) (7 + int (length d)))]\<rparr>)"
    using rb_put_eq [OF assms(1) a] by metis
  show ?thesis
    using eq receiver_ring.put_ok [OF assms(1) a eq] receiver_ring.get_put [OF assms(1) a eq]
    by (auto simp: rb_put_def spec_store_def)
qed

theorem insert_refines_store_witness:
  "\<exists>b k b'. initReceiverBuffer (\<lambda>_. Some (\<lambda>_. 0)) 0 4 2 = (Some b, k) \<and>
     insertReceiverPacket b (data_pdu 1 [65, 66]) 9 = Inr b' \<and> held b' 1 = Some [65, 66] \<and> held b' 3 = None"
proof -
  obtain b k where b: "initReceiverBuffer (\<lambda>_. Some (\<lambda>_. 0)) 0 4 2 = (Some b, k)" "rb_ok b"
      "expected b = 0" "rb_window_size b = 2"
    by (rule initReceiverBuffer_ok [of 0 "\<lambda>_. Some (\<lambda>_. 0)" 2 4]) auto
  then show ?thesis using insert_refines_store [OF b(2), of 1 "[65, 66]"] by (auto simp: spec_store_def)
qed

text \<open>
  C21. \<open>flushBuffer\<close> flushes exactly the run of packets that are held without a gap from the
  number behind \<open>expected\<close> on, but loses bytes: of each payload it writes all but
  the last seven bytes, because \<open>data_size\<close> no longer counts the header it subtracts
  again. It moves \<open>expected\<close> to the first missing number and releases exactly
  those packets. When a payload of the run has fewer than seven bytes, the length wraps
  around and the flush reads outside the packet.
\<close>

theorem flush_refines_run:
  fixes b
  defines "W \<equiv> rb_window_size b"
  defines "e \<equiv> expected b + 1"
  defines "ds \<equiv> spec_run (held b) e (nat W)"
  assumes "rb_ok b" "e + 2 * W < 2147483648"
  shows "if \<forall>d \<in> set ds. 7 \<le> length d
    then \<exists>b'. flushBuffer b = Inr (int (length ds), b', concat (map (\<lambda>d. take (length d - 7) d) ds))
      \<and> rb_ok b' \<and> expected b' = e + int (length ds) \<and> held b (expected b') = None
      \<and> held b' = spec_release W (held b) e (expected b')
    else flushBuffer b = Inl OutOfBounds"
proof -
  let ?b = "b\<lparr>expected := e\<rparr>"
  have W: "0 < W" "0 \<le> expected b" using rb_okD(1,2) [OF assms(4)] by (simp_all add: W_def)
  have l: "int (length ds) \<le> W" using spec_run_length [of "held b" e "nat W"] W(1) by (simp add: ds_def)
  have s: "s32 (expected b + 1) = e"
    using assms(5) W by (simp add: e_def int_range_def)
  have ok: "rb_ok ?b" using assms(4,5) W by (simp add: rb_ok_def e_def W_def)
  have h: "held ?b t = held b t" for t by (simp add: held_def)
  have end': "held b (e + int (length ds)) = None"
    unfolding ds_def W_def by (rule held_run_end [OF assms(4)])
  have len: "expected ?b + int (length ds) + rb_window_size ?b < 2147483648" "int (length ds) \<le> rb_window_size ?b"
    using assms(5) l by (simp_all add: W_def)
  have n: "held ?b (expected ?b + int i) = Some (ds ! i)" if "i < length ds" for i
    using that spec_run_nth [of i "held b" e "nat W"] by (simp add: h ds_def)
  show ?thesis
  proof (cases "\<forall>d \<in> set ds. 7 \<le> length d")
    case False
    then have "\<exists>d \<in> set ds. length d < 7" by (auto simp: not_le)
    then have "flush_loop ?b [] 0 = Inl OutOfBounds" 
      by (intro flush_loop_short [OF ok len(1) n len(2)]) simp_all
    then show ?thesis using False s by (auto simp: flushBuffer_def)
  next
    case True
    have "\<exists>b'. flush_loop ?b [] 0 = Inr (0 + int (length ds), b', [] @ concat (map flushed ds))
       \<and> rb_ok b' \<and> expected b' = expected ?b + int (length ds)
       \<and> rb_window_size b' = rb_window_size ?b \<and> highest b' = highest ?b
       \<and> (\<forall>t. held b' t = (if \<exists>i < length ds. rb_window_size ?b dvd (t - (expected ?b + int i))
                             then None else held ?b t))"
    proof (rule flush_loop_run [OF ok])
      show "held ?b (expected ?b + int i) = Some (ds ! i) \<and> 7 \<le> length (ds ! i)" if "i < length ds" for i
        using n [OF that] True that by simp
      show "held ?b (expected ?b + int (length ds)) = None" using end' by (simp add: h)
    qed (rule len)+
    then obtain b' where b': "flush_loop ?b [] 0 = Inr (int (length ds), b', concat (map flushed ds))"
       "rb_ok b'" "expected b' = e + int (length ds)"
       "\<And>t. held b' t = (if \<exists>i < length ds. W dvd (t - (e + int i)) then None else held b t)"
      by (auto simp: h W_def cong: if_cong)
    have "held b' = spec_release W (held b) e (expected b')"
      by (rule ext) (simp add: b'(3,4) spec_release_def Ex_index_iff)
    then show ?thesis
      using True b' end' s by (auto simp: flushBuffer_def flushed_def [abs_def])
  qed
qed

theorem flush_refines_run_witness:
  "\<exists>b k b1 b2. initReceiverBuffer (\<lambda>_. Some (\<lambda>_. 0)) 0 8 2 = (Some b, k) \<and>
     insertReceiverPacket b (data_pdu 1 [1, 2, 3, 4, 5, 6, 7, 8]) 15 = Inr b1 \<and>
     flushBuffer b1 = Inr (1, b2, [1]) \<and> expected b2 = 2"
proof -
  obtain b k where b: "initReceiverBuffer (\<lambda>_. Some (\<lambda>_. 0)) 0 8 2 = (Some b, k)" "rb_ok b"
      "expected b = 0" "rb_window_size b = 2" "\<And>t. held b t = None"
    by (rule initReceiverBuffer_ok [of 0 "\<lambda>_. Some (\<lambda>_. 0)" 2 8]) auto
  let ?d = "[1, 2, 3, 4, 5, 6, 7, 8] :: byte list"
  have a: "rb_accepts b 1 ?d" using b(3,4) by (simp add: rb_accepts_def)
  obtain b1 where b1: "rb_put b 1 ?d = Inr b1" using receiver_ring.put_total [OF b(2) a] by blast
  note f = receiver_ring.put_ok [OF b(2) a b1] receiver_ring.put_slots [OF b(2) a b1]
    receiver_ring.get_put [OF b(2) a b1]
  have e: "expected b1 = 0"
  proof -
    obtain p hi where "rb_put b 1 ?d = Inr (b\<lparr>highest := hi, rb_buffer := (rb_buffer b)[nat (1 mod rb_window_size b) :=
       Some (stored_packet p 1 (data_pdu 1 ?d) (7 + int (length ?d)))]\<rparr>)"
      using rb_put_eq [OF b(2) a] by metis
    with b1 b(3) show ?thesis by auto
  qed
  have r: "spec_run (held b1) (expected b1 + 1) (nat (rb_window_size b1)) = [?d]"
    using f(2,3) e b(4,5) by (simp add: eval_nat_numeral)
  have "\<exists>b2. flushBuffer b1 = Inr (1, b2, [1]) \<and> expected b2 = 2"
    using flush_refines_run [OF f(1)] unfolding r using e f(2) b(4) by auto
  then show ?thesis using b(1) b1 by (auto simp: rb_put_def)
qed

section \<open>Properties of the sender's window\<close>

text \<open>
  C22. The sender's window refines the same machine: storing a packet whose slot is
  allocated is the abstract store, and \<open>advanceSenderWindow\<close> releases exactly the
  numbers it passes (none when the new lower edge is not ahead), sets the lower
  edge, and never faults.
\<close>

theorem sender_refines_store_and_release:
  assumes "sw_ok w" "0 \<le> s" "length d \<le> 1407" "sw_slot w s \<noteq> None"
    and "0 \<le> lower w" "n + sw_window_size w \<le> 2147483648"
  shows "\<exists>w1 w2. insertPacketIntoWindow w s d (int (length d)) = Inr w1 \<and> sw_ok w1
    \<and> in_flight w1 = spec_store (sw_window_size w) (in_flight w) s d
    \<and> advanceSenderWindow w n = Inr w2 \<and> sw_ok w2 \<and> lower w2 = max (lower w) n
    \<and> in_flight w2 = spec_release (sw_window_size w) (in_flight w) (lower w) n"
proof -
  have a: "sw_accepts w s d" using assms(2-4) by (simp add: sw_accepts_def)
  obtain w1 where w1: "sw_put w s d = Inr w1" using sender_ring.put_total [OF assms(1) a] by blast
  have "\<exists>w2. advanceSenderWindow w n = Inr w2 \<and> sw_ok w2 \<and> lower w2 = max (lower w) n
    \<and> in_flight w2 = spec_release (sw_window_size w) (in_flight w) (lower w) n"
  proof (cases "lower w < n")
    case True
    from advanceSenderWindow_eq [OF assms(1,5) True assms(6)] obtain w2 where w2:
      "advanceSenderWindow w n = Inr w2" "sw_ok w2" "lower w2 = n"
      "\<And>t. sw_slot w2 t = (if \<exists>k. lower w \<le> k \<and> k < n \<and> sw_window_size w dvd (t - k) then None else sw_slot w t)"
      by blast
    have "in_flight w2 = spec_release (sw_window_size w) (in_flight w) (lower w) n"
      by (rule ext) (auto simp: in_flight_def w2(4) spec_release_def)
    then show ?thesis using w2 True by (simp add: max_def)
  next
    case False
    have "in_flight w = spec_release (sw_window_size w) (in_flight w) (lower w) n"
      using False by (intro ext) (auto simp: spec_release_def)
    then show ?thesis using False assms(1) by (simp add: advanceSenderWindow_stale max_def)
  qed
  then show ?thesis
    using w1 sender_ring.put_ok [OF assms(1) a w1] sender_ring.get_put [OF assms(1) a w1]
    by (auto simp: sw_put_def spec_store_def)
qed

theorem sender_refines_store_and_release_witness:
  "\<exists>w k w1 w2. initSenderWindow (\<lambda>_. Some (\<lambda>_. 0)) 0 2 = (Some w, k) \<and>
     insertPacketIntoWindow w 1 [65] 1 = Inr w1 \<and> in_flight w1 1 = Some [65] \<and>
     advanceSenderWindow w 1 = Inr w2 \<and> lower w2 = 1 \<and> in_flight w2 0 = None"
proof -
  obtain w k where w: "initSenderWindow (\<lambda>_. Some (\<lambda>_. 0)) 0 2 = (Some w, k)" "sw_ok w"
      "lower w = 0" "sw_window_size w = 2" "\<And>t. sw_slot w t \<noteq> None"
    by (rule initSenderWindow_ok [of 0 "\<lambda>_. Some (\<lambda>_. 0)" 2]) auto
  have "spec_store 2 (in_flight w) 1 [65] 1 = Some [65]" by (simp add: spec_store_def)
  moreover have "spec_release 2 (in_flight w) 0 1 0 = None"
    unfolding spec_release_def by (rule if_P) (rule exI [of _ 0], simp)
  ultimately show ?thesis
    using sender_refines_store_and_release [OF w(2), of 1 "[65]" 1] w(1,3,4,5) by auto
qed

text \<open>
  What was acknowledged is reported as acknowledged: after
  \<open>acknowledgePacket\<close> for a number whose slot holds a packet,
  \<open>checkPacketACKStatus\<close> answers 1 for it, and its answer for every number of
  another slot is unchanged; for an empty slot both do nothing and the answer is 0.
\<close>

lemma acknowledged_packet_reports_ack:
  assumes "sw_ok w" "0 \<le> s"
  shows "\<exists>w'. acknowledgePacket w s = Inr w' \<and> sw_ok w'
    \<and> checkPacketACKStatus w' s = Inr (if sw_slot w s = None then 0 else 1)
    \<and> (\<forall>t \<ge> 0. \<not> sw_window_size w dvd (t - s) \<longrightarrow> checkPacketACKStatus w' t = checkPacketACKStatus w t)"
proof (cases "sw_slot w s")
  case None
  then show ?thesis using assms sender_slot_eq [OF assms]
    by (simp add: acknowledgePacket_def checkPacketACKStatus_def)
next
  case (Some p)
  let ?w = "w\<lparr>sw_buffer := (sw_buffer w)[nat (s mod sw_window_size w) := Some (p\<lparr>ACK := 1\<rparr>)]\<rparr>"
  have "length (data p) = 1407" by (rule sw_okD(3) [OF assms(1) Some])
  then have ok: "sw_ok ?w" by (intro sw_ok_update [OF assms(1)]) auto
  have u: "sw_slot ?w t = (if sw_window_size w dvd (t - s) then Some (p\<lparr>ACK := 1\<rparr>) else sw_slot w t)" for t
    by (rule sw_slot_update [OF assms(1)]) simp_all
  have c: "checkPacketACKStatus v t = Inr (case sw_slot v t of None \<Rightarrow> 0 | Some p \<Rightarrow> ACK p)"
    if "sw_ok v" "0 \<le> t" for v t
    using sender_slot_eq(3) [OF that] by (simp add: checkPacketACKStatus_def)
  have "acknowledgePacket w s = Inr ?w"
    using Some sender_slot_eq(1,2) [OF assms] by (simp add: acknowledgePacket_def)
  then show ?thesis using ok assms c u Some by simp
qed

lemma acknowledged_packet_reports_ack_example:
  "\<exists>w k w'. initSenderWindow (\<lambda>_. Some (\<lambda>_. 0)) 0 2 = (Some w, k) \<and>
     acknowledgePacket w 1 = Inr w' \<and> checkPacketACKStatus w' 1 = Inr 1"
proof -
  obtain w k where w: "initSenderWindow (\<lambda>_. Some (\<lambda>_. 0)) 0 2 = (Some w, k)" "sw_ok w"
      "\<And>t. sw_slot w t \<noteq> None"
    by (rule initSenderWindow_ok [of 0 "\<lambda>_. Some (\<lambda>_. 0)" 2]) auto
  then show ?thesis using acknowledged_packet_reports_ack [OF w(2), of 1] by auto
qed

section \<open>Allocation and release\<close>

lemma alloc_packets_None:
  "fst (alloc_packets h k n) = None \<longleftrightarrow> (\<exists>j < n. h (k + j) = None)"
proof (induction n arbitrary: k)
  case (Suc n)
  have "(\<exists>j < Suc n. h (k + j) = None) \<longleftrightarrow> h k = None \<or> (\<exists>j < n. h (Suc k + j) = None)"
    by (simp add: Ex_less_Suc2)
  then show ?case using Suc [of "Suc k"] by (auto split: option.splits prod.splits)
qed simp

text \<open>
  C34. Creation is all or nothing: both structures are created exactly when every one of the
  \<open>2 + window_size\<close> allocations succeeds (and the size is not negative); they then
  satisfy their invariant, the receiver's buffer holds nothing and expects packet 0,
  and every slot of the sender's window is allocated.
\<close>

theorem creation_is_all_or_nothing:
  assumes "0 < ws" "ws < 2147483648"
  shows "(case fst (initReceiverBuffer h k bs ws) of
      None \<Rightarrow> \<exists>j < 2 + nat ws. h (k + j) = None
    | Some b \<Rightarrow> (\<forall>j < 2 + nat ws. h (k + j) \<noteq> None) \<and> rb_ok b \<and> expected b = 0 \<and> (\<forall>t. held b t = None))
   \<and> (case fst (initSenderWindow h k ws) of
      None \<Rightarrow> \<exists>j < 2 + nat ws. h (k + j) = None
    | Some w \<Rightarrow> (\<forall>j < 2 + nat ws. h (k + j) \<noteq> None) \<and> sw_ok w \<and> lower w = 0 \<and> upper w = ws
        \<and> (\<forall>t. sw_slot w t \<noteq> None))"
proof -
  have ex: "(\<exists>j < 2 + nat ws. h (k + j) = None) \<longleftrightarrow>
      h k = None \<or> h (k + 1) = None \<or> fst (alloc_packets h (k + 2) (nat ws)) = None"
    unfolding alloc_packets_None by (simp add: Ex_less_Suc2 numeral_2_eq_2)
  show ?thesis
  proof (cases "\<exists>j < 2 + nat ws. h (k + j) = None")
    case True
    then have "h k = None \<or> h (k + 1) = None \<or> fst (alloc_packets h (k + 2) (nat ws)) = None"
      by (simp only: ex)
    then have "fst (initReceiverBuffer h k bs ws) = None" "fst (initSenderWindow h k ws) = None"
      by (auto simp: initReceiverBuffer_def initSenderWindow_def split: option.split prod.split)
    then show ?thesis using True by simp
  next
    case False
    define h' where "h' j = (if k \<le> j \<and> j < k + (2 + nat ws) then h j else Some (\<lambda>_. 0))" for j
    have all: "h' j \<noteq> None" if "k \<le> j" for j
    proof (cases "j < k + (2 + nat ws)")
      case True
      then have "h (k + (j - k)) \<noteq> None" using False that
        by (metis add.commute le_add_diff_inverse2 less_diff_conv2)
      then show ?thesis using that by (simp add: h'_def)
    qed (simp add: h'_def)
    have alloc: "alloc_packets h' i n = alloc_packets h i n" if "k \<le> i" "i + n \<le> k + (2 + nat ws)" for i n
      using that
    proof (induction n arbitrary: i)
      case (Suc n)
      have "alloc_packets h' (Suc i) n = alloc_packets h (Suc i) n" using Suc by simp
      moreover have "h' i = h i" using Suc.prems by (simp add: h'_def)
      ultimately show ?case by (cases "h i") simp_all
    qed simp
    have hk: "h' k = h k" "h' (k + 1) = h (k + 1)" by (simp_all add: h'_def)
    have "alloc_packets h' (k + 2) (nat ws) = alloc_packets h (k + 2) (nat ws)" by (rule alloc) simp_all
    then have same: "initReceiverBuffer h k bs ws = initReceiverBuffer h' k bs ws"
      "initSenderWindow h k ws = initSenderWindow h' k ws"
      unfolding initReceiverBuffer_def initSenderWindow_def hk by (simp_all only:)
    obtain b k1 where b: "initReceiverBuffer h' k bs ws = (Some b, k1)" "rb_ok b" "expected b = 0"
        "\<And>t. held b t = None"
      by (rule initReceiverBuffer_ok [OF all assms]) auto
    obtain w k2 where w: "initSenderWindow h' k ws = (Some w, k2)" "sw_ok w" "lower w = 0" "upper w = ws"
        "\<And>t. sw_slot w t \<noteq> None"
      by (rule initSenderWindow_ok [OF all assms]) auto
    show ?thesis using False b w same by simp
  qed
qed

theorem creation_is_all_or_nothing_witness:
  "fst (initReceiverBuffer (\<lambda>j. if j = 3 then None else Some (\<lambda>_. 0)) 0 8 2) = None \<and>
   (\<exists>b. fst (initReceiverBuffer (\<lambda>_. Some (\<lambda>_. 0)) 0 8 2) = Some b \<and> rb_ok b)"
proof
  show "fst (initReceiverBuffer (\<lambda>j. if j = 3 then None else Some (\<lambda>_. 0)) 0 8 2) = None"
    using creation_is_all_or_nothing [of 2 "\<lambda>j. if j = 3 then None else Some (\<lambda>_. 0)" 0 8]
    by (auto split: option.splits elim: allE [of _ 3])
  show "\<exists>b. fst (initReceiverBuffer (\<lambda>_. Some (\<lambda>_. 0)) 0 8 2) = Some b \<and> rb_ok b"
    using creation_is_all_or_nothing [of 2 "\<lambda>_. Some (\<lambda>_. 0)" 0 8] by (auto split: option.splits)
qed

lemma freed_slots_eq:
  "i + n \<le> length buf \<Longrightarrow>
     freed_slots buf (int i) n = Inr (map int (filter (\<lambda>j. buf ! j \<noteq> None) [i..<i + n]))"
proof (induction n arbitrary: i)
  case (Suc n)
  have "freed_slots buf (int i + 1) n = Inr (map int (filter (\<lambda>j. buf ! j \<noteq> None) [Suc i..<Suc i + n]))"
    using Suc.IH [of "Suc i"] Suc.prems by (simp add: add.commute)
  moreover have "[i..<i + Suc n] = i # [Suc i..<Suc i + n]" by (simp add: upt_rec)
  ultimately show ?case using Suc.prems by (simp add: slot_def)
qed simp

end
