(* ===== verification/Arrivals.thy ===== *)
theory Arrivals
  imports RcopyRuns WindowSpec
begin

text \<open>
  The client with datagrams that arrive one by one: what each step of its runs makes of
  the next datagram, when its socket is watched, sends succeed and memory is there.
\<close>

section \<open>A client on the network\<close>

definition online :: "int \<Rightarrow> client \<Rightarrow> bool" where
  "online s w \<longleftrightarrow> channel_ok w \<and> (\<forall>k. send_ok w k) \<and> (\<forall>k. heap_fn w k \<noteq> None)
     \<and> ps_ok (pset w) \<and> registered (pset w) s \<and> 0 < s"

lemma online_frame [simp]:
  "online s (w\<lparr>poll_q := q\<rparr>) = online s w" "online s (w\<lparr>recv_q := r\<rparr>) = online s w"
  "online s (w\<lparr>heap_no := h\<rparr>) = online s w" "online s (w\<lparr>fs := f\<rparr>) = online s w"
  "online s (w\<lparr>sent := l\<rparr>) = online s w" "online s (w\<lparr>send_no := k\<rparr>) = online s w"
  "online s (w\<lparr>server := a\<rparr>) = online s w" "online s (w\<lparr>subState := st\<rparr>) = online s w"
  "online s (w\<lparr>rr_seq_num := c\<rparr>) = online s w" "online s (w\<lparr>srej_seq_num := c\<rparr>) = online s w"
  "online s (w\<lparr>current_server_port := i\<rparr>) = online s w"
  by (simp_all add: online_def channel_ok_def)

lemma online_pset: "online s w \<Longrightarrow> ps_ok ps \<Longrightarrow> registered ps s \<Longrightarrow> online s (w\<lparr>pset := ps\<rparr>)"
  by (simp add: online_def channel_ok_def)

text \<open>
  What the client tells the network on the way from \<open>w\<close> to \<open>u\<close>: exactly \<open>ds\<close>, when its
  own end of the channel loses nothing.
\<close>

definition tells :: "byte list list \<Rightarrow> client \<Rightarrow> client \<Rightarrow> bool" where
  "tells ds w u \<longleftrightarrow> (lossless w \<longrightarrow> lossless u
     \<and> map (\<lambda>(_, _, d). d) (sent u) = map (\<lambda>(_, _, d). d) (sent w) @ ds)"

lemma lossless_client [simp]:
  "lossless ((w::client)\<lparr>server := a\<rparr>) = lossless w" "lossless (w\<lparr>subState := st\<rparr>) = lossless w"
  "lossless (w\<lparr>rr_seq_num := c\<rparr>) = lossless w" "lossless (w\<lparr>srej_seq_num := c\<rparr>) = lossless w"
  "lossless (w\<lparr>current_server_port := i\<rparr>) = lossless w"
  by (simp_all add: lossless_def channel_ok_def)

lemma tells_same: "lossless u = lossless w \<Longrightarrow> sent u = sent w \<Longrightarrow> tells [] w u"
  by (simp add: tells_def)

lemma tells_append: "tells ds u v \<Longrightarrow> tells es v w \<Longrightarrow> tells (ds @ es) u w"
  by (simp add: tells_def)

lemma tells_frame:
  assumes "lossless u = lossless v" "sent u = sent v"
  shows "tells ds w u = tells ds w v" "tells ds u w = tells ds v w"
  using assms by (simp_all add: tells_def)

lemma poll_ready:
  assumes "online s w" "poll_q w = ready s # q"
  obtains ps where "World.pollCall t w = Ok s (w\<lparr>poll_q := q, pset := ps\<rparr>)" "ps_ok ps" "registered ps s"
  using pollCall_ready [OF _ _ _ assms(2), of t] assms(1) by (auto simp: online_def)

lemma poll_timeout:
  assumes "online s w" "poll_q w = (0, revs) # q"
  obtains ps where "World.pollCall t w = Ok (- 1) (w\<lparr>poll_q := q, pset := ps\<rparr>)" "ps_ok ps" "registered ps s"
  using pollCall_timeout [OF assms(2), of t] writes_keep assms(1) by (auto simp: online_def)

lemma online_malloc:
  assumes "online s w"
  obtains blk where "malloc n w = Ok (Some blk) (w\<lparr>heap_no := heap_no w + 1\<rparr>)" "length blk = n"
proof -
  obtain g where "heap_fn w (heap_no w) = Some g" using assms by (auto simp: online_def)
  then show ?thesis by (intro that [of "junk_bytes g 0 n"]) (simp_all add: malloc_def junk_bytes_def)
qed

section \<open>A data packet\<close>

text \<open>A datagram that fits the receive block and does not end the transfer.\<close>

definition fits :: "RcopyParams \<Rightarrow> byte list \<Rightarrow> bool" where
  "fits p d \<longleftrightarrow> 7 \<le> length d \<and> length d \<le> response_size p \<and> length d \<le> sizeof_RPacket \<and> d ! 6 \<noteq> 10"

lemma recvfrom_datagram:
  assumes "recv_q w = Datagram a d # rq" "length d \<le> len" "length d \<le> length buf"
  shows "recvfrom buf len w = Ok (int (length d), d @ drop (length d) buf, Some a) (w\<lparr>recv_q := rq\<rparr>)"
  using assms by (simp add: recvfrom_def Let_def memcpy_at_def min_def)

lemma pdu_seq_append: "4 \<le> length d \<Longrightarrow> pdu_seq (d @ e) = pdu_seq d"
  by (simp add: pdu_seq_def load32_head)

text \<open>One round of the receive loop: the datagram, in a block of the requested size, is given to the sub-state.\<close>

lemma arrival:
  assumes "online s w" "poll_q w = ready s # q" "recv_q w = Datagram a d # rq" "fits p d"
  obtains e u where "getDataLoop s p fp rbuf n w =
      bnd (handleDataPacket rbuf fp (subState w) s p (d @ e) u)
        (\<lambda>(rbuf, st) w. getDataLoop s p fp rbuf n (w\<lparr>subState := st\<rparr>))"
    "length (d @ e) = response_size p" "online s u" "poll_q u = q" "recv_q u = rq" "fs u = fs w"
    "server u = server w" "subState u = subState w" "rr_seq_num u = rr_seq_num w" "tells [] w u"
proof -
  obtain ps where p: "World.pollCall 1000 w = Ok s (w\<lparr>poll_q := q, pset := ps\<rparr>)" "ps_ok ps" "registered ps s"
    by (rule poll_ready [OF assms(1,2)])
  define w1 where "w1 = w\<lparr>poll_q := q, pset := ps\<rparr>"
  have o: "online s w1" unfolding w1_def using assms(1) p(2,3) by (intro online_pset) simp_all
  obtain blk where b: "malloc (response_size p) w1 = Ok (Some blk) (w1\<lparr>heap_no := heap_no w1 + 1\<rparr>)"
      "length blk = response_size p"
    by (rule online_malloc [OF o])
  define u where "u = w1\<lparr>heap_no := heap_no w1 + 1, recv_q := rq\<rparr>"
  have f: "7 \<le> length d" "length d \<le> response_size p" "length d \<le> sizeof_RPacket" "d ! 6 \<noteq> 10"
    using assms(4) by (simp_all add: fits_def)
  let ?b = "d @ drop (length d) blk"
  have r: "recvfrom blk sizeof_RPacket (w1\<lparr>heap_no := heap_no w1 + 1\<rparr>) = Ok (int (length d), ?b, Some a) u"
    using recvfrom_datagram [of "w1\<lparr>heap_no := heap_no w1 + 1\<rparr>" a d rq] assms(3) f b(2)
    by (simp add: w1_def u_def)
  have "?b ! 6 \<noteq> 10" using f by (simp add: nth_append)
  moreover have "\<not> int (length d) < 0" "int (length d) \<noteq> 0" "0 < s"
    using f assms(1) by (auto simp: online_def)
  moreover have s: "subState u = subState w" by (simp add: u_def w1_def)
  ultimately have "getDataLoop s p fp rbuf n w =
      bnd (handleDataPacket rbuf fp (subState w) s p ?b u)
        (\<lambda>(rbuf, st) w. getDataLoop s p fp rbuf n (w\<lparr>subState := st\<rparr>))"
    unfolding getDataLoop.simps [of s p fp rbuf n w]
    using p(1) b(1) r by (simp add: w1_def [symmetric])
  then show ?thesis
    by (rule that) (use f b(2) o s in \<open>simp_all add: u_def w1_def tells_def\<close>)
qed

text \<open>The end of the data phase.\<close>

lemma data_phase_ends:
  assumes "online s w" "poll_q w = (0, revs) # q" "rb_ok rbuf"
  obtains w' where "getDataLoop s p fp rbuf 0 w = Ok DONE w'" "fs w' = fs w" "tells [] w w'"
proof -
  obtain ps where ps: "World.pollCall 1000 w = Ok (- 1) (w\<lparr>poll_q := q, pset := ps\<rparr>)"
    by (rule poll_timeout [OF assms(1,2)])
  obtain fs where "freeReceiverBuffer rbuf = Inr fs"
    using freed_slots_eq [of 0 "nat (rb_window_size rbuf)" "rb_buffer rbuf"] rb_okD(1,6) [OF assms(3)]
    by (auto simp: freeReceiverBuffer_def)
  then show ?thesis using ps
    by (intro that [of "w\<lparr>poll_q := q, pset := ps\<rparr>"])
      (simp_all add: getDataLoop.simps [of s p fp rbuf 0 w] finishGetData_def tells_def)
qed

section \<open>Arrivals in order\<close>

text \<open>After the first packet the sub-state is \<open>RS_DONE\<close>: every later packet is thrown away.\<close>

lemma later_packets_skipped:
  assumes "online s w" "subState w = RS_DONE" "poll_q w = replicate (length ds) (ready s) @ q"
    "recv_q w = map (Datagram a) ds @ rq"
    "\<And>d. d \<in> set ds \<Longrightarrow> fits p d \<and> \<not> pdu_seq d < word_of_int (expected rbuf)"
  shows "\<exists>u. getDataLoop s p fp rbuf n w = getDataLoop s p fp rbuf n u \<and> online s u \<and> poll_q u = q
    \<and> recv_q u = rq \<and> fs u = fs w \<and> tells [] w u"
  using assms
proof (induction ds arbitrary: w)
  case Nil
  then show ?case by (intro exI [of _ w]) (simp add: tells_same)
next
  case (Cons d ds)
  have fit: "fits p d" "\<not> pdu_seq d < word_of_int (expected rbuf)" using Cons.prems(5) by simp_all
  then have "4 \<le> length d" by (simp add: fits_def)
  obtain e u where u: "getDataLoop s p fp rbuf n w = bnd (handleDataPacket rbuf fp (subState w) s p (d @ e) u)
        (\<lambda>(rbuf, st) w. getDataLoop s p fp rbuf n (w\<lparr>subState := st\<rparr>))"
    "length (d @ e) = response_size p" "online s u" "poll_q u = replicate (length ds) (ready s) @ q"
    "recv_q u = map (Datagram a) ds @ rq" "fs u = fs w" "server u = server w" "subState u = subState w" "rr_seq_num u = rr_seq_num w" "tells [] w u"
    by (rule arrival [OF Cons.prems(1) _ _ fit(1)]) (use Cons.prems(3,4) in auto)
  have "handleDataPacket rbuf fp RS_DONE s p (d @ e) u = Ok (rbuf, RS_DONE) u"
    using fit(2) pdu_seq_append [OF \<open>4 \<le> length d\<close>, of e] by (simp add: handleDataPacket_def)
  then have "getDataLoop s p fp rbuf n w = getDataLoop s p fp rbuf n (u\<lparr>subState := RS_DONE\<rparr>)"
    using u(1) Cons.prems(2) by simp
  moreover obtain v where v: "getDataLoop s p fp rbuf n (u\<lparr>subState := RS_DONE\<rparr>) = getDataLoop s p fp rbuf n v"
    "online s v" "poll_q v = q" "recv_q v = rq" "fs v = fs (u\<lparr>subState := RS_DONE\<rparr>)" "tells [] (u\<lparr>subState := RS_DONE\<rparr>) v"
    using Cons.IH [of "u\<lparr>subState := RS_DONE\<rparr>"] u Cons.prems by auto
  moreover have "tells [] w v" using u(10) v(6) by (auto simp: tells_def)
  ultimately show ?case using u(6) by (intro exI [of _ v]) simp
qed

text \<open>The packet with the expected number, and then any later ones.\<close>

lemma expected_packet_then_skipped:
  assumes "online s w" "subState w = IN_ORDER" "rb_ok rbuf" "expected rbuf + 1 + rb_window_size rbuf < 2147483648"
    "poll_q w = replicate (Suc (length ds)) (ready s) @ q"
    "recv_q w = map (Datagram a) (d # ds) @ rq" "fits p d" "pdu_seq d = word_of_int (expected rbuf)"
    "0 < buffer_size p" "buffer_size p \<le> 1400"
    "\<And>d. d \<in> set ds \<Longrightarrow> fits p d \<and> \<not> pdu_seq d < word_of_int (expected rbuf + 1)"
  obtains e rb u where "getDataLoop s p fp rbuf n w = getDataLoop s p fp rb n u" "rb_ok rb" "online s u"
    "poll_q u = q" "recv_q u = rq"
    "fs u = (fs w)(fp \<mapsto> file_contents w fp @ take (nat (buffer_size p)) (drop 7 d @ e))"
    "tells [final_rr (rr_seq_num w) (word_of_int (expected rbuf + 1))] w u"
proof -
  obtain e u where u: "getDataLoop s p fp rbuf n w = bnd (handleDataPacket rbuf fp (subState w) s p (d @ e) u)
        (\<lambda>(rbuf, st) w. getDataLoop s p fp rbuf n (w\<lparr>subState := st\<rparr>))"
    "length (d @ e) = response_size p" "online s u" "poll_q u = replicate (length ds) (ready s) @ q"
    "recv_q u = map (Datagram a) ds @ rq" "fs u = fs w" "server u = server w" "subState u = subState w" "rr_seq_num u = rr_seq_num w" "tells [] w u"
    by (rule arrival [OF assms(1) _ _ assms(7)]) (use assms(5,6) in auto)
  have d: "7 \<le> length d" using assms(7) by (simp add: fits_def)
  have rs: "response_size p = 7 + nat (buffer_size p)"
    using assms(9,10) by (simp add: response_size_def s32_id int_range_def nat_add_distrib)
  note o = rb_okD [OF assms(3)]
  have c: "channel_ok u" "\<And>k. send_ok u k" using u(3) by (simp_all add: online_def)
  have ex: "0 \<le> expected rbuf" "expected rbuf < 2147483647" using o(1,2) assms(4) by simp_all
  have sq: "pdu_seq (d @ e) = word_of_int (expected rbuf)" using assms(8) d pdu_seq_append by simp
  have sz: "7 + buffer_size p \<le> int (length (d @ e))" using u(2) rs assms(9) by simp
  obtain rb w2 where h: "handleDataPacket rbuf fp IN_ORDER s p (d @ e) u = Ok (rb, RS_DONE) w2"
      "rb_buffer rb = rb_buffer rbuf" "rb_window_size rb = rb_window_size rbuf" "expected rb = expected rbuf + 1"
      "fs w2 = (fs u)(fp \<mapsto> file_contents u fp @ take (nat (buffer_size p)) (drop 7 (d @ e)))"
      "poll_q w2 = poll_q u" "recv_q w2 = recv_q u" "pset w2 = pset u" "heap_fn w2 = heap_fn u"
      "send_ok w2 = send_ok u" "channel_ok w2"
      "tells [final_rr (rr_seq_num w) (word_of_int (expected rbuf + 1))] u w2"
    using deliver_expected [OF c ex sq assms(9) sz, of fp s] u(9) by (fastforce simp: tells_def)
  have rb: "rb_ok rb" using assms(3,4) h(2-4) by (simp add: rb_ok_def)
  have "online s (w2\<lparr>subState := RS_DONE\<rparr>)" using u(3) h(8-11) by (simp add: online_def channel_ok_def)
  then obtain v where v: "getDataLoop s p fp rb n (w2\<lparr>subState := RS_DONE\<rparr>) = getDataLoop s p fp rb n v"
      "online s v" "poll_q v = q" "recv_q v = rq" "fs v = fs w2" "tells [] (w2\<lparr>subState := RS_DONE\<rparr>) v"
    using later_packets_skipped [of s "w2\<lparr>subState := RS_DONE\<rparr>" ds q a rq p rb fp n] assms(11) h(4,6,7) u(4,5) by auto
  have "getDataLoop s p fp rbuf n w = getDataLoop s p fp rb n v" using u(1) h(1) v(1) assms(2) by simp
  moreover have "fs v = (fs w)(fp \<mapsto> file_contents w fp @ take (nat (buffer_size p)) (drop 7 d @ e))"
    using d h(5) u(6) v(5) by (simp add: file_contents_def)
  moreover have "tells [final_rr (rr_seq_num w) (word_of_int (expected rbuf + 1))] w v"
    using h(12) u(10) v(6) by (auto simp: tells_def)
  ultimately show ?thesis using rb v(2-4) by (intro that [of rb v e])
qed

lemma expected_packet_then_others:
  assumes "online s w" "subState w = IN_ORDER" "rb_ok rbuf" "expected rbuf + 1 + rb_window_size rbuf < 2147483648"
    "poll_q w = replicate (Suc (length ds)) (ready s) @ (0, revs) # q"
    "recv_q w = map (Datagram a) (d # ds) @ rq" "fits p d" "pdu_seq d = word_of_int (expected rbuf)"
    "0 < buffer_size p" "buffer_size p \<le> 1400"
    "\<And>d. d \<in> set ds \<Longrightarrow> fits p d \<and> \<not> pdu_seq d < word_of_int (expected rbuf + 1)"
  shows "\<exists>w' e. getDataLoop s p fp rbuf 0 w = Ok DONE w' \<and>
    fs w' = (fs w)(fp \<mapsto> file_contents w fp @ take (nat (buffer_size p)) (drop 7 d @ e))
    \<and> tells [final_rr (rr_seq_num w) (word_of_int (expected rbuf + 1))] w w'"
proof -
  obtain e rb u where u: "getDataLoop s p fp rbuf 0 w = getDataLoop s p fp rb 0 u" "rb_ok rb" "online s u"
    "poll_q u = (0, revs) # q" "recv_q u = rq"
    "fs u = (fs w)(fp \<mapsto> file_contents w fp @ take (nat (buffer_size p)) (drop 7 d @ e))"
    "tells [final_rr (rr_seq_num w) (word_of_int (expected rbuf + 1))] w u"
    by (rule expected_packet_then_skipped [OF assms])
  obtain w' where "getDataLoop s p fp rb 0 u = Ok DONE w'" "fs w' = fs u" "tells [] u w'"
    by (rule data_phase_ends [OF u(3,4,2)])
  then show ?thesis using u by (intro exI [of _ w'] exI [of _ e]) (auto simp: tells_def)
qed

text \<open>
  A datagram that is longer than the receive block is written past its end: \<open>recvfrom\<close> is
  told that the block has 1407 bytes.
\<close>

lemma longer_packet_overflows:
  assumes "online s w" "poll_q w = ready s # q" "recv_q w = Datagram a d # rq"
    and "response_size p < length d" "response_size p < sizeof_RPacket"
  obtains w' where "getDataLoop s p fp rbuf n w = Stop (Faulted OutOfBounds) w'" "fs w' = fs w" "tells [] w w'"
proof -
  obtain ps where p: "World.pollCall 1000 w = Ok s (w\<lparr>poll_q := q, pset := ps\<rparr>)" "ps_ok ps" "registered ps s"
    by (rule poll_ready [OF assms(1,2)])
  define w1 where "w1 = w\<lparr>poll_q := q, pset := ps\<rparr>"
  have "online s w1" unfolding w1_def using assms(1) p(2,3) by (intro online_pset) simp_all
  then obtain blk where b: "malloc (response_size p) w1 = Ok (Some blk) (w1\<lparr>heap_no := heap_no w1 + 1\<rparr>)"
      "length blk = response_size p"
    by (rule online_malloc)
  have "recvfrom blk sizeof_RPacket (w1\<lparr>heap_no := heap_no w1 + 1\<rparr>) =
      Stop (Faulted OutOfBounds) (w1\<lparr>heap_no := heap_no w1 + 1\<rparr>)"
    using assms(3-5) b(2) by (simp add: recvfrom_def Let_def w1_def)
  moreover have "0 < s" using assms(1) by (simp add: online_def)
  ultimately have "getDataLoop s p fp rbuf n w = Stop (Faulted OutOfBounds) (w1\<lparr>heap_no := heap_no w1 + 1\<rparr>)"
    unfolding getDataLoop.simps [of s p fp rbuf n w] using p(1) b(1) by (simp add: w1_def [symmetric])
  then show ?thesis by (rule that) (simp_all add: w1_def tells_def)
qed

section \<open>The phases of a run\<close>

lemma online_send:
  assumes "online s w" "7 \<le> len" "len \<le> int (length buf)"
  obtains u where "sendtoErr s buf len dest w = Ok len u" "online s u" "poll_q u = poll_q w" "recv_q u = recv_q w"
    "fs u = fs w" "subState u = subState w" "writable u = writable w" "server u = server w" "stack_junk u = stack_junk w"
    "rr_seq_num u = rr_seq_num w" "tells [take (nat len) buf] w u"
proof -
  have c: "channel_ok w" "\<forall>k. send_ok w k" using assms(1) by (simp_all add: online_def)
  obtain r pm k ds where r: "sendtoErr s buf len dest w = Ok r (w\<lparr>pmgr := pm, send_no := k, sent := sent w @ ds\<rparr>)"
    "r = len \<or> r = - 1 \<and> ds = [] \<and> \<not> send_ok w (send_no w)"
    "channel_ok (w\<lparr>pmgr := pm, send_no := k, sent := sent w @ ds\<rparr>)"
    by (rule sendtoErr_total [OF c(1), of len buf s dest]) (use assms in auto)
  have "online s (w\<lparr>pmgr := pm, send_no := k, sent := sent w @ ds\<rparr>)"
    using assms(1) r(3) by (simp add: online_def)
  moreover have "tells [take (nat len) buf] w (w\<lparr>pmgr := pm, send_no := k, sent := sent w @ ds\<rparr>)"
  proof (cases "lossless w")
    case True
    obtain pm' k' where q: "sendtoErr s buf len dest w =
        Ok len (w\<lparr>pmgr := pm', send_no := k', sent := sent w @ [(s, dest, take (nat len) buf)]\<rparr>)"
      "m_ErrorRate pm' = m_ErrorRate (pmgr w)"
      by (rule sendtoErr_lossless [OF True assms(2,3), of s dest])
    then have e: "w\<lparr>pmgr := pm, send_no := k, sent := sent w @ ds\<rparr> =
        w\<lparr>pmgr := pm', send_no := k', sent := sent w @ [(s, dest, take (nat len) buf)]\<rparr>" using r(1) by simp
    have "lossless (w\<lparr>pmgr := pm, send_no := k, sent := sent w @ ds\<rparr>)"
      using True r(3) q(2) arg_cong [OF e, of "\<lambda>u. m_ErrorRate (pmgr u)"] by (simp add: lossless_def)
    then show ?thesis using arg_cong [OF e, of sent] by (simp add: tells_def)
  qed (simp add: tells_def)
  ultimately show ?thesis using r(1,2) c(2)
    by (intro that [of "w\<lparr>pmgr := pm, send_no := k, sent := sent w @ ds\<rparr>"]) auto
qed

lemma recvfrom_server_answer:
  assumes "recv_q w = Datagram a d # rq" "length d = 7" "length buf = 7"
  shows "recvfrom_server buf w = Ok (7, d) (w\<lparr>recv_q := rq, server := a\<rparr>)"
  using recvfrom_datagram [of w a d rq 7 buf] assms by (simp add: recvfrom_server_def)

text \<open>The first half of the file-name exchange: the server answers the request.\<close>

lemma request_answered:
  assumes "channel_ok w" "\<forall>k. send_ok w k" "\<forall>k. heap_fn w k \<noteq> None" "ps_ok (pset w)" "0 < s" "s + POLL_SET_SIZE < 2147483648"
    and "length b = 113" "poll_q w = ready s # q" "recv_q w = Datagram a talk # rq" "length talk = 7" "talk ! 6 = 33"
  obtains u where "doSendFilenameState s b w = Ok FILE_VALID u" "online s u" "fs u = fs w" "poll_q u = q" "recv_q u = rq"
    "subState u = subState w" "writable u = writable w" "rr_seq_num u = rr_seq_num w" "tells [b @ [static_next w]] w u"
    "static_next u = static_next w" "closed u = closed w"
proof -
  obtain g where g: "heap_fn w (heap_no w) = Some g" using assms(3) by blast
  obtain ps where ps: "PollLib.addToPollSet (Some g) s (pset w) = Ok () ps" "ps_ok ps" "registered ps s"
    using addToPollSet_ok [OF assms(4) _ assms(6), of g] assms(5) by auto
  define w1 where "w1 = w\<lparr>heap_no := heap_no w + 1, pset := ps\<rparr>"
  have a: "World.addToPollSet s w = Ok () w1"
    using g ps(1) by (simp add: World.addToPollSet_def on_pset_def w1_def)
  have o1: "online s w1" using assms(1-3,5) ps(2,3) by (simp add: online_def w1_def channel_ok_def)
  have n: "s \<noteq> - 1" using assms(5) by simp
  obtain w2 where w2: "sendtoErr s (b @ [static_next w1]) 114 (server w1) w1 = Ok 114 w2" "online s w2"
      "poll_q w2 = poll_q w1" "recv_q w2 = recv_q w1" "fs w2 = fs w1" "subState w2 = subState w1" "writable w2 = writable w1"
      "rr_seq_num w2 = rr_seq_num w1" "tells [b @ [static_next w1]] w1 w2"
    by (rule online_send [OF o1, of 114 "b @ [static_next w1]" "server w1"]) (use assms(7) in simp_all)
  have k: "static_next w2 = static_next w1" "closed w2 = closed w1"
    using final_sendtoErr [of s "b @ [static_next w1]" 114 "server w1" w1] w2(1) by auto
  have q2: "poll_q w2 = ready s # q" "recv_q w2 = Datagram a talk # rq"
    using w2(3,4) assms(8,9) by (simp_all add: w1_def)
  obtain ps2 where p2: "World.pollCall 1000 w2 = Ok s (w2\<lparr>poll_q := q, pset := ps2\<rparr>)" "ps_ok ps2" "registered ps2 s"
    by (rule poll_ready [OF w2(2) q2(1)])
  define w3 where "w3 = w2\<lparr>poll_q := q, pset := ps2, recv_q := rq, server := a\<rparr>"
  have r2: "recvfrom_server (local_array 7 (w2\<lparr>poll_q := q, pset := ps2\<rparr>)) (w2\<lparr>poll_q := q, pset := ps2\<rparr>)
      = Ok (7, talk) w3"
    by (subst recvfrom_server_answer [OF _ assms(10)]) (use q2 in \<open>auto simp: local_array_def w3_def\<close>)
  have "doSendFilenameState s b w = Ok FILE_VALID (redirect w3)"
    using a w2(1) p2(1) r2 assms(11) n
    by (simp add: doSendFilenameState_def send_filename_loop.simps [of s b 0])
  moreover have "online s (w2\<lparr>pset := ps2\<rparr>)" by (rule online_pset [OF w2(2) p2(2,3)])
  then have "online s (redirect w3)" by (simp add: redirect_def Let_def w3_def online_def channel_ok_def)
  moreover have "lossless w1 = lossless w" "sent w1 = sent w" using assms(1) by (simp_all add: w1_def)
  then have "tells [b @ [static_next w]] w (redirect w3)"
    using w2(9) by (simp add: w1_def tells_def redirect_def Let_def w3_def)
  ultimately show ?thesis
    using w2(5-8) k by (intro that [of "redirect w3"]) (simp_all add: redirect_def Let_def w3_def w1_def)
qed

text \<open>The whole exchange when both answers arrive.\<close>

lemma exchange:
  assumes "channel_ok w" "\<forall>k. send_ok w k" "\<forall>k. heap_fn w k \<noteq> None" "ps_ok (pset w)" "0 < s" "s + POLL_SET_SIZE < 2147483648"
    and "writable w (cstring (dest_filename p))" "length b = 113"
    and "poll_q w = ready s # ready s # q" "recv_q w = Datagram a talk # Datagram a ok # rq"
    and "length talk = 7" "talk ! 6 = 33" "length ok = 7" "ok ! 6 = 9"
  obtains u where "rcopy_fsm p s b SEND_FILENAME w = bnd (doGetDataState s p u) (\<lambda>st w. rcopy_fsm p s b st w)"
    "online s u" "fs u = (fs w)(cstring (dest_filename p) \<mapsto> [])" "poll_q u = q" "recv_q u = rq"
    "subState u = subState w" "writable u = writable w" "rr_seq_num u = rr_seq_num w" "tells [b @ [static_next w]] w u"
proof -
  let ?dst = "cstring (dest_filename p)"
  obtain w4 where w4: "doSendFilenameState s b w = Ok FILE_VALID w4" "online s w4" "fs w4 = fs w" "poll_q w4 = ready s # q"
    "recv_q w4 = Datagram a ok # rq" "subState w4 = subState w" "writable w4 = writable w" "rr_seq_num w4 = rr_seq_num w"
    "tells [b @ [static_next w]] w w4" "static_next w4 = static_next w" "closed w4 = closed w"
    by (rule request_answered [OF assms(1-6,8-12)])
  define w5 where "w5 = w4\<lparr>fs := (fs w4)(?dst \<mapsto> [])\<rparr>"
  have o5: "online s w5" "poll_q w5 = ready s # q" using w4(2,4) by (simp_all add: w5_def)
  obtain ps5 where p5: "World.pollCall 1000 w5 = Ok s (w5\<lparr>poll_q := q, pset := ps5\<rparr>)" "ps_ok ps5" "registered ps5 s"
    by (rule poll_ready [OF o5])
  define u where "u = w5\<lparr>poll_q := q, pset := ps5, recv_q := rq, server := a\<rparr>"
  have r5: "recvfrom_server (local_array 7 w5) (w5\<lparr>poll_q := q, pset := ps5\<rparr>) = Ok (7, ok) u"
    by (subst recvfrom_server_answer [OF _ assms(13)]) (use w4(5) in \<open>auto simp: local_array_def w5_def u_def\<close>)
  have "doFileValidState p s w4 = Ok GET_DATA u"
    using p5(1) r5 assms(5,7,14) w4(7)
    by (simp add: doFileValidState_def checkDestFile_def fopen_wb_def w5_def [symmetric] file_valid_loop.simps [of s _ 0])
  then have "rcopy_fsm p s b SEND_FILENAME w = bnd (doGetDataState s p u) (\<lambda>st w. rcopy_fsm p s b st w)"
    by (simp add: rcopy_fsm.simps [of p s b SEND_FILENAME] rcopy_fsm.simps [of p s b FILE_VALID]
        rcopy_fsm.simps [of p s b GET_DATA] w4(1))
  moreover have "online s (w5\<lparr>pset := ps5\<rparr>)" by (rule online_pset [OF o5(1) p5(2,3)])
  then have "online s u" by (simp add: u_def online_def channel_ok_def)
  moreover have "tells [b @ [static_next w]] w u" using w4(9) by (simp add: tells_def u_def w5_def)
  ultimately show ?thesis by (intro that) (use w4 in \<open>simp_all add: u_def w5_def\<close>)
qed

lemma data_phase_starts:
  assumes "online s w" "writable w (cstring (dest_filename p))" "fs w (cstring (dest_filename p)) = Some c"
    and "0 < window_size p" "window_size p < 2147483648"
  obtains rbuf h where "doGetDataState s p w = getDataLoop s p (cstring (dest_filename p)) rbuf 0 (w\<lparr>heap_no := h\<rparr>)"
    "rb_ok rbuf" "expected rbuf = 0" "highest rbuf = - 1" "rb_window_size rbuf = window_size p" "\<And>t. held rbuf t = None"
proof -
  obtain rbuf h where i: "initReceiverBuffer (heap_fn w) (heap_no w) (buffer_size p) (window_size p) = (Some rbuf, h)"
      "rb_ok rbuf" "expected rbuf = 0" "highest rbuf = - 1" "rb_window_size rbuf = window_size p" "\<And>t. held rbuf t = None"
    by (rule initReceiverBuffer_ok [of "heap_no w" "heap_fn w" "window_size p" "buffer_size p"])
      (use assms(1,4,5) in \<open>auto simp: online_def\<close>)
  have "doGetDataState s p w = getDataLoop s p (cstring (dest_filename p)) rbuf 0 (w\<lparr>heap_no := h\<rparr>)"
    using assms(2,3) i(1) by (simp add: doGetDataState_def fopen_ab_def)
  then show ?thesis by (rule that) (use i in auto)
qed

section \<open>A late first packet\<close>

text \<open>
  The packet behind a gap is stored, and the first packet of the gap, when it comes in
  answer to the SREJ, ends the waiting; its payload goes nowhere.
\<close>

lemma buffering_finds_missing:
  assumes "online s w" "rb_ok rbuf" "highest rbuf = - 1" "expected rbuf < t" "t \<le> expected rbuf + rb_window_size rbuf"
    and "8 \<le> length b" "pdu_seq b = word_of_int t" "t mod rb_window_size rbuf \<noteq> (expected rbuf + 1) mod rb_window_size rbuf"
    and "held rbuf (expected rbuf + 1) = None"
    and "poll_q w = ready s # q" "recv_q w = Datagram a d # rq" "fits p d" "pdu_seq d = word_of_int (expected rbuf)" "d ! 6 = 16"
  obtains rbuf' u where "handleDataPacket rbuf fp BUFFERING s p b w = Ok (rbuf', FLUSHING) u"
    "rb_ok rbuf'" "expected rbuf' = expected rbuf" "highest rbuf' = - 1" "rb_window_size rbuf' = rb_window_size rbuf"
    "held rbuf' (expected rbuf + 1) = None"
    "online s u" "poll_q u = q" "recv_q u = rq" "fs u = fs w"
proof -
  let ?W = "rb_window_size rbuf" and ?e = "word_of_int (expected rbuf) :: u32"
  note o = rb_okD [OF assms(2)]
  have i: "0 \<le> t mod ?W" "t mod ?W < ?W" using o(1) by simp_all
  obtain pk where pk: "rb_buffer rbuf ! nat (t mod ?W) = Some pk" "length (data pk) = 1407"
    by (rule rb_ok_slot [OF assms(2) i])
  have t: "0 \<le> t" "t < 2147483648" using o(2,3) assms(4,5) by (simp_all add: int_range_def)
  obtain hi where ins: "insertReceiverPacket rbuf b sizeof_pointer = Inr (rbuf\<lparr>highest := hi,
      rb_buffer := (rb_buffer rbuf)[nat (t mod ?W) := Some (stored_packet pk t b 8)]\<rparr>)"
    using insertReceiverPacket_eq [OF assms(2) t(1) assms(5), of 8 b pk] assms(6,7) pk
    by (auto simp: pdu_seq_def sizeof_pointer_def)
  define rb where "rb = rbuf\<lparr>highest := hi, rb_buffer := (rb_buffer rbuf)[nat (t mod ?W) := Some (stored_packet pk t b 8)]\<rparr>"
  have hi: "highest rb = - 1" using insertReceiverPacket_fields(1) [OF ins assms(3)] by (simp add: rb_def)
  have ok: "rb_ok rb" unfolding rb_def
    by (rule rb_ok_update [OF assms(2)]) (use pk(2) assms(6) in \<open>simp_all add: stored_packet_def\<close>)
  have "nat (t mod ?W) \<noteq> nat ((expected rbuf + 1) mod ?W)"
    using assms(8) i o(1) by (simp add: eq_nat_nat_iff)
  then have h: "held rb (expected rbuf + 1) = None"
    using assms(9) by (simp add: held_def rb_def)
  have l: "length (final_srej k m) = 11" for k m
    by (simp add: final_srej_def Let_def makeRR_SREJPacketAfterChecksum_def pdu_layouts)
  obtain w2 where w2: "sendtoErr s (final_srej (srej_seq_num w) ?e) 11 (server w) w = Ok 11 w2" "online s w2"
      "poll_q w2 = poll_q w" "recv_q w2 = recv_q w" "fs w2 = fs w"
    by (rule online_send [OF assms(1), of 11 "final_srej (srej_seq_num w) ?e" "server w"]) (use l in auto)
  define w3 where "w3 = w2\<lparr>srej_seq_num := srej_seq_num w2 + 1\<rparr>"
  have w3: "online s w3" "poll_q w3 = ready s # q" using w2(2,3) assms(10) by (simp_all add: w3_def)
  obtain ps where ps: "World.pollCall 1000 w3 = Ok s (w3\<lparr>poll_q := q, pset := ps\<rparr>)" "ps_ok ps" "registered ps s"
    by (rule poll_ready [OF w3])
  define w4 where "w4 = w3\<lparr>poll_q := q, pset := ps\<rparr>"
  have f: "7 \<le> length d" "length d \<le> response_size p" using assms(12) by (simp_all add: fits_def)
  let ?j = "local_array (response_size p) w4"
  have r: "recvfrom ?j (response_size p) w4 = Ok (int (length d), d @ drop (length d) ?j, Some a) (w4\<lparr>recv_q := rq\<rparr>)"
    by (rule recvfrom_datagram) (use f assms(11) w2(4) in \<open>auto simp: local_array_def w4_def w3_def\<close>)
  have "awaited_data (int (length d)) (d @ drop (length d) ?j) ?e"
    using f assms(13,14) pdu_seq_append [of d "drop (length d) ?j"] by (auto simp: awaited_data_def nth_append)
  then have "poll_for_awaited s p ?e w3 = Ok True (w4\<lparr>recv_q := rq\<rparr>)"
    using ps(1) r by (simp add: poll_for_awaited_def w4_def [symmetric])
  then have "send_srej_loop s p ?e 0 w = Ok FLUSHING (w4\<lparr>recv_q := rq\<rparr>)"
    using w2(1) by (simp add: send_srej_loop.simps [of s p ?e 0] w3_def)
  moreover have "\<not> pdu_seq b < ?e"
    using assms(4,7) t o(2) by (simp add: word_less_alt unsigned_of_int take_bit_int_eq_self)
  moreover have "\<not> pdu_seq b > word_of_int (highest rb)"
    unfolding hi by (rule not_above_all_ones)
  ultimately have "handleDataPacket rbuf fp BUFFERING s p b w = Ok (rb, FLUSHING) (w4\<lparr>recv_q := rq\<rparr>)"
    using ins by (simp add: handleDataPacket_def doBufferState_def Let_def rb_def [symmetric])
  moreover have "online s w4" unfolding w4_def using online_pset [OF w3(1) ps(2,3)] by (simp add: online_def channel_ok_def)
  ultimately show ?thesis using ok hi h
    by (intro that [of rb "w4\<lparr>recv_q := rq\<rparr>"]) (use w2(5) in \<open>simp_all add: rb_def w4_def w3_def\<close>)
qed

lemma flush_skips_missing:
  assumes "rb_ok rbuf" "highest rbuf = - 1" "expected rbuf + 1 + rb_window_size rbuf < 2147483648"
    and "held rbuf (expected rbuf + 1) = None" "\<not> pdu_seq b < word_of_int (expected rbuf)"
  shows "handleDataPacket rbuf fp FLUSHING s p b w = Ok (rbuf\<lparr>expected := expected rbuf + 1\<rparr>, IN_ORDER) w"
    "rb_ok (rbuf\<lparr>expected := expected rbuf + 1\<rparr>)"
proof -
  let ?rb = "rbuf\<lparr>expected := expected rbuf + 1\<rparr>"
  show ok: "rb_ok ?rb" using assms(1,3) by (simp add: rb_ok_def)
  have "held ?rb (expected ?rb) = None" using assms(4) by (simp add: held_def)
  then have "flush_slot ?rb = Inr None" by (rule flush_slot_missing [OF ok])
  moreover have "s32 (expected rbuf + 1) = expected rbuf + 1"
    using rb_okD(1,2) [OF assms(1)] assms(3) by (simp add: s32_id int_range_def)
  ultimately have "flushBuffer rbuf = Inr (0, ?rb, [])"
    by (simp add: flushBuffer_def flush_loop.simps)
  then show "handleDataPacket rbuf fp FLUSHING s p b w = Ok (?rb, IN_ORDER) w"
    using assms(2,5) rb_okD(2) [OF assms(1)] by (simp add: handleDataPacket_def doFlushingState_def)
qed

text \<open>
  Packets 2, 3, 0, 4, 1: packet 2 only changes the sub-state, packet 3 is stored and asks
  for packet 0, which is read and dropped, packet 4 triggers the flush that steps over
  packet 0, and packet 1 is the one that is written.
\<close>

lemma late_first_packet:
  assumes "online s w" "subState w = IN_ORDER" "rb_ok rbuf" "expected rbuf = 0" "highest rbuf = - 1"
    and "4 \<le> rb_window_size rbuf" "rb_window_size rbuf < 2147483000" "\<And>t. held rbuf t = None"
    and "poll_q w = replicate 5 (ready s) @ (0, revs) # q"
    and "recv_q w = map (Datagram a) [d2, d3, d0, d4, d1] @ rq"
    and "\<And>d. d \<in> {d0, d1, d2, d3, d4} \<Longrightarrow> fits p d" "0 < buffer_size p" "buffer_size p \<le> 1400"
    and "pdu_seq d0 = 0" "pdu_seq d1 = 1" "pdu_seq d2 = 2" "pdu_seq d3 = 3" "d0 ! 6 = 16"
  shows "\<exists>w' e. getDataLoop s p fp rbuf 0 w = Ok DONE w' \<and>
    fs w' = (fs w)(fp \<mapsto> file_contents w fp @ take (nat (buffer_size p)) (drop 7 d1 @ e))"
proof -
  have rs: "response_size p = 7 + nat (buffer_size p)"
    using assms(12,13) by (simp add: response_size_def s32_id int_range_def nat_add_distrib)
  have f: "fits p d0" "fits p d1" "fits p d2" "fits p d3" "fits p d4" by (simp_all add: assms(11))
  then have l: "4 \<le> length d2" "4 \<le> length d3" by (simp_all add: fits_def)
  have q: "poll_q w = ready s # ready s # ready s # ready s # ready s # (0, revs) # q"
    using assms(9) by (simp add: eval_nat_numeral)
  obtain e2 u where u: "getDataLoop s p fp rbuf 0 w = bnd (handleDataPacket rbuf fp (subState w) s p (d2 @ e2) u)
        (\<lambda>(rbuf, st) w. getDataLoop s p fp rbuf 0 (w\<lparr>subState := st\<rparr>))"
    "length (d2 @ e2) = response_size p" "online s u" "poll_q u = ready s # ready s # ready s # ready s # (0, revs) # q"
    "recv_q u = map (Datagram a) [d3, d0, d4, d1] @ rq" "fs u = fs w" "server u = server w" "subState u = subState w" "rr_seq_num u = rr_seq_num w"
    by (rule arrival [OF assms(1) q _ f(3)]) (use assms(10) in auto)
  have "handleDataPacket rbuf fp IN_ORDER s p (d2 @ e2) u = Ok (rbuf, BUFFERING) u"
    using assms(4,16) pdu_seq_append [OF l(1)] by (simp add: handleDataPacket_def doInOrderState_def)
  then have 1: "getDataLoop s p fp rbuf 0 w = getDataLoop s p fp rbuf 0 (u\<lparr>subState := BUFFERING\<rparr>)"
    using u(1) assms(2) by simp
  obtain e3 v where v: "getDataLoop s p fp rbuf 0 (u\<lparr>subState := BUFFERING\<rparr>) =
      bnd (handleDataPacket rbuf fp (subState (u\<lparr>subState := BUFFERING\<rparr>)) s p (d3 @ e3) v)
        (\<lambda>(rbuf, st) w. getDataLoop s p fp rbuf 0 (w\<lparr>subState := st\<rparr>))"
    "length (d3 @ e3) = response_size p" "online s v" "poll_q v = ready s # ready s # ready s # (0, revs) # q"
    "recv_q v = map (Datagram a) [d0, d4, d1] @ rq" "fs v = fs (u\<lparr>subState := BUFFERING\<rparr>)"
    "server v = server (u\<lparr>subState := BUFFERING\<rparr>)" "subState v = subState (u\<lparr>subState := BUFFERING\<rparr>)"
    "rr_seq_num v = rr_seq_num (u\<lparr>subState := BUFFERING\<rparr>)"
    by (rule arrival [of s "u\<lparr>subState := BUFFERING\<rparr>" "ready s # ready s # ready s # (0, revs) # q" a d3
          "map (Datagram a) [d0, d4, d1] @ rq" p fp rbuf 0]) (use u f(4) in auto)
  have m: "3 mod rb_window_size rbuf \<noteq> 1 mod rb_window_size rbuf" using assms(6) by simp
  obtain rb x where x: "handleDataPacket rbuf fp BUFFERING s p (d3 @ e3) v = Ok (rb, FLUSHING) x"
    "rb_ok rb" "expected rb = expected rbuf" "highest rb = - 1" "rb_window_size rb = rb_window_size rbuf"
    "held rb (expected rbuf + 1) = None" "online s x" "poll_q x = ready s # ready s # (0, revs) # q"
    "recv_q x = map (Datagram a) [d4, d1] @ rq" "fs x = fs v"
    by (rule buffering_finds_missing [OF v(3) assms(3,5), where t = 3 and b = "d3 @ e3" and a = a and d = d0 and fp = fp and p = p
          and q = "ready s # ready s # (0, revs) # q" and rq = "map (Datagram a) [d4, d1] @ rq"])
      (use assms(4,6,8,12,14,17,18) v(2,4,5) rs f(1) m pdu_seq_append [OF l(2)] in auto)
  have 2: "getDataLoop s p fp rbuf 0 (u\<lparr>subState := BUFFERING\<rparr>) = getDataLoop s p fp rb 0 (x\<lparr>subState := FLUSHING\<rparr>)"
    using v(1) x(1) by simp
  obtain e4 y where y: "getDataLoop s p fp rb 0 (x\<lparr>subState := FLUSHING\<rparr>) =
      bnd (handleDataPacket rb fp (subState (x\<lparr>subState := FLUSHING\<rparr>)) s p (d4 @ e4) y)
        (\<lambda>(rbuf, st) w. getDataLoop s p fp rbuf 0 (w\<lparr>subState := st\<rparr>))"
    "length (d4 @ e4) = response_size p" "online s y" "poll_q y = ready s # (0, revs) # q"
    "recv_q y = map (Datagram a) [d1] @ rq" "fs y = fs (x\<lparr>subState := FLUSHING\<rparr>)"
    "server y = server (x\<lparr>subState := FLUSHING\<rparr>)" "subState y = subState (x\<lparr>subState := FLUSHING\<rparr>)"
    "rr_seq_num y = rr_seq_num (x\<lparr>subState := FLUSHING\<rparr>)"
    by (rule arrival [of s "x\<lparr>subState := FLUSHING\<rparr>" "ready s # (0, revs) # q" a d4
          "map (Datagram a) [d1] @ rq" p fp rb 0]) (use x f(5) in auto)
  have bd: "expected rb + 1 + rb_window_size rb < 2147483648" using x(3,5) assms(4,7) by simp
  have fl: "handleDataPacket rb fp FLUSHING s p (d4 @ e4) y = Ok (rb\<lparr>expected := expected rb + 1\<rparr>, IN_ORDER) y"
    "rb_ok (rb\<lparr>expected := expected rb + 1\<rparr>)"
    by (rule flush_skips_missing [OF x(2,4) bd]; use x(3,6) assms(4) in simp)+
  have 3: "getDataLoop s p fp rb 0 (x\<lparr>subState := FLUSHING\<rparr>) =
      getDataLoop s p fp (rb\<lparr>expected := expected rb + 1\<rparr>) 0 (y\<lparr>subState := IN_ORDER\<rparr>)"
    using y(1) fl(1) by simp
  have "\<exists>w' e. getDataLoop s p fp (rb\<lparr>expected := expected rb + 1\<rparr>) 0 (y\<lparr>subState := IN_ORDER\<rparr>) = Ok DONE w' \<and>
    fs w' = (fs (y\<lparr>subState := IN_ORDER\<rparr>))(fp \<mapsto> file_contents (y\<lparr>subState := IN_ORDER\<rparr>) fp
      @ take (nat (buffer_size p)) (drop 7 d1 @ e))
    \<and> tells [final_rr (rr_seq_num (y\<lparr>subState := IN_ORDER\<rparr>)) (word_of_int (expected (rb\<lparr>expected := expected rb + 1\<rparr>) + 1))]
        (y\<lparr>subState := IN_ORDER\<rparr>) w'"
    by (rule expected_packet_then_others [where ds = "[]" and revs = revs and q = q and a = a and rq = rq])
      (use y x(3,5) fl(2) assms(4,7,12,13,15) f(2) in auto)
  then show ?thesis using 1 2 3 y(6) x(10) v(6) u(6) by (auto simp: file_contents_def)
qed

text \<open>The way of \<open>main\<close> to its state machine.\<close>

lemma main_starts:
  assumes "checkArgs argv w = Ok p w'" "addr_info w (cstring (remote_machine p)) = Some ip"
    and "sys_q w = s # sq" "0 \<le> s" "channel_ok w" "\<forall>k. heap_fn w k \<noteq> None" "pset w = empty_pollset"
  obtains x b where "main argv w = bnd (rcopy_fsm p s b SEND_FILENAME x) (\<lambda>_ w. bnd (close_socket s w) (\<lambda>_ w. Ok 0 w))"
    "length b = 113" "channel_ok x" "ps_ok (pset x)" "heap_fn x = heap_fn w" "send_ok x = send_ok w"
    "poll_q x = poll_q w" "recv_q x = recv_q w" "fs x = fs w" "writable x = writable w" "subState x = IN_ORDER"
    "b = sealed_request p" "rr_seq_num x = 0" "sent x = sent w" "static_next x = static_next w"
    "\<not> env_ErrRate (pmgr w) \<Longrightarrow> \<forall>k. send_ok w k \<Longrightarrow> \<forall>sd k. to_float w (error_rate p) < to_float w (Finite (drand48 w sd k)) \<Longrightarrow> lossless x"
proof -
  obtain ps where ps: "PollLib.setupPollSet True (pset w) = Ok () ps" by (simp add: PollLib.setupPollSet_def Let_def)
  then have pk: "ps_ok ps" using setupPollSet_ok assms(7) by simp
  define w1 where "w1 = (static_init w)\<lparr>heap_no := heap_no w + 1, pset := ps\<rparr>"
  have 1: "World.setupPollSet (static_init w) = Ok () w1"
    using ps assms(6) by (simp add: World.setupPollSet_def on_pset_def static_init_def w1_def)
  have 2: "checkArgs argv w1 = Ok p w1"
    using assms(1) by (auto simp: checkArgs_def w1_def static_init_def split: if_splits)
  let ?srv = "\<lparr>sin6_addr = ip, sin6_port = ntohs (word_of_int (remote_port p))\<rparr>"
  define w2 where "w2 = w1\<lparr>sys_q := sq, sys_log := sys_log w1 @ [Sys_socket False]\<rparr>"
  have 3: "setupUdpClientToServer (cstring (remote_machine p)) (remote_port p) w1 = Ok (s, ?srv) w2"
    using assms(2-4) by (simp add: setupUdpClientToServer_def must_def syscall_def w1_def w2_def static_init_def
        gethostbyname6_def getIPAddress6_def)
  define x where "x = init_errors (error_rate p) False (w2\<lparr>server := ?srv\<rparr>)"
  let ?m = "makeFilenamePDUBeforeChecksum p"
  define b where "b = makeFilenamePDUAfterChecksum ?m (calculateFilenameChecksum ?m)"
  have l: "length ?m = 113" "take 2 (drop 4 ?m) = [0, 0]"
    using makeFilenamePDUBeforeChecksum_layout [of p] checkArgs_Ok(9) [OF assms(1)] by simp_all
  have 4: "calculateFilenameChecksum b = 0" "length b = 113"
    unfolding b_def by (rule filename_pdu.sealed_verifies(1) [OF l]) (rule filename_pdu.seal_length [OF l(1)])
  have "main argv w = bnd (rcopy_fsm p s b SEND_FILENAME x) (\<lambda>_ w. bnd (close_socket s w) (\<lambda>_ w. Ok 0 w))"
    using 1 2 3 4 by (simp add: main_def Let_def x_def b_def)
  moreover have "channel_ok x" using assms(5)
    by (simp add: x_def init_errors_def w2_def w1_def static_init_def channel_ok_def sendErr_init_drop_channel)
  moreover have "lossless x" if "\<not> env_ErrRate (pmgr w)" "\<forall>k. send_ok w k"
      "\<forall>sd k. to_float w (error_rate p) < to_float w (Finite (drand48 w sd k))"
    unfolding x_def
    by (rule lossless_init_errors) (use assms(5) that in \<open>simp_all add: w2_def w1_def static_init_def channel_ok_def\<close>)
  ultimately show ?thesis using 4(2) pk
    by (intro that [of b x]) (simp_all add: x_def init_errors_def w2_def w1_def static_init_def b_def sealed_request_def)
qed

end
