(* ===== verification/ServerPdu.thy ===== *)
theory ServerPdu
  imports Pdu
begin

text \<open>
  The datagrams that \<^verbatim>\<open>server.c\<close> builds and parses: the three 7-byte answers
  of the file-name exchange, the data packet, and the reading of the filename
  request and of the sequence number of a control packet.
\<close>

section \<open>Answers of the file-name exchange\<close>

definition calculateFilenameChecksumFILENAME :: "byte list \<Rightarrow> u16" where
  "calculateFilenameChecksumFILENAME buffer =
     (let temp_buff = replicate (2 * (7 + 100 + 2 + 4 + 1)) 0;
          temp_buff = memcpy_at temp_buff 0 (take 113 buffer);
          temp_buff = memcpy_at temp_buff (2 * 113) [0]
      in in_cksum temp_buff)"

definition makeVALIDFilenameACKBeforeChecksum :: "byte list" where
  "makeVALIDFilenameACKBeforeChecksum =
     (let buffer = replicate 7 0;
          sequence_num = ntohl 1;
          buffer = memcpy_at buffer 0 (bytes32 sequence_num);
          buffer = memcpy_at buffer 4 (bytes16 0);
          buffer = memcpy_at buffer 6 [9]
      in buffer)"

definition makeERRORFilenameACKBeforeChecksum :: "byte list" where
  "makeERRORFilenameACKBeforeChecksum =
     (let buffer = replicate 7 0;
          sequence_num = ntohl 1;
          buffer = memcpy_at buffer 0 (bytes32 sequence_num);
          buffer = memcpy_at buffer 4 (bytes16 0);
          buffer = memcpy_at buffer 6 [32]
      in buffer)"

definition makeTalkHereNowBeforeChecksum :: "byte list" where
  "makeTalkHereNowBeforeChecksum =
     (let buffer = replicate 7 0;
          sequence_num = ntohl 1;
          buffer = memcpy_at buffer 0 (bytes32 sequence_num);
          buffer = memcpy_at buffer 4 (bytes16 0);
          buffer = memcpy_at buffer 6 [33]
      in buffer)"

definition calculateFilenameChecksumACK :: "byte list \<Rightarrow> u16" where
  "calculateFilenameChecksumACK buffer =
     (let temp_buff = replicate (2 * 8) 0;
          temp_buff = memcpy_at temp_buff 0 (take 7 buffer);
          temp_buff = memcpy_at temp_buff (2 * 7) [0]
      in in_cksum temp_buff)"

definition makeFilenameACKAfterChecksum :: "byte list \<Rightarrow> u16 \<Rightarrow> byte list" where
  "makeFilenameACKAfterChecksum buffer calculated_checksum =
     memcpy_at buffer 4 (bytes16 calculated_checksum)"

definition makeTalkHereNowAfterChecksum :: "byte list \<Rightarrow> u16 \<Rightarrow> byte list" where
  "makeTalkHereNowAfterChecksum buffer calculated_checksum =
     memcpy_at buffer 4 (bytes16 calculated_checksum)"

section \<open>Data packets\<close>

text \<open>
  \<open>m\<close> is what \<open>malloc\<close> returned for the new buffer: \<open>None\<close> for
  NULL, or the uninitialised block. The parameter \<open>buffer_size\<close> of
  \<open>makeDataPacketBeforeChecksum\<close> is a \<open>uint8_t\<close> in the code, so the
  caller's 16-bit size is truncated to a byte. \<open>data_sequence_number\<close> is the
  global counter.
\<close>

definition makeDataPacketBeforeChecksum ::
    "byte list option \<Rightarrow> u32 \<Rightarrow> byte list \<Rightarrow> byte \<Rightarrow> fault + byte list option" where
  "makeDataPacketBeforeChecksum m data_sequence_number data_chunk buffer_size =
     (case m of None \<Rightarrow> Inr None
      | Some buffer \<Rightarrow>
          let sequence_num = htonl data_sequence_number;
              buffer = memcpy_at buffer 0 (bytes32 sequence_num);
              buffer = memcpy_at buffer 4 (bytes16 0);
              buffer = memcpy_at buffer 6 [16]
          in sbind (check (unat buffer_size \<le> length data_chunk) OutOfBounds) (\<lambda>_.
               Inr (Some (memcpy_at buffer 7 (take (unat buffer_size) data_chunk)))))"

definition makeDataPacketAfterChecksum :: "byte list \<Rightarrow> u16 \<Rightarrow> byte list" where
  "makeDataPacketAfterChecksum buffer calculated_checksum =
     memcpy_at buffer 4 (bytes16 calculated_checksum)"

text \<open>The number of bytes allocated for and summed by the data checksum.\<close>

definition checksum_size :: "int \<Rightarrow> int" where
  "checksum_size buffer_size =
     (let n = s32 (buffer_size + 7) in if cmod n 2 \<noteq> 0 then s32 (n + 1) else n)"

definition calculateDataPacketChecksum ::
    "byte list option \<Rightarrow> byte list \<Rightarrow> int \<Rightarrow> fault + u16" where
  "calculateDataPacketChecksum m buffer buffer_size =
     (case m of None \<Rightarrow> Inr 0
      | Some temp_buff \<Rightarrow>
          let n = s32 (buffer_size + 7) in
          sbind (check (0 \<le> n \<and> n \<le> int (length buffer) \<and> n \<le> int (length temp_buff)) OutOfBounds) (\<lambda>_.
            let temp_buff = memcpy_at temp_buff 0 (take (nat n) buffer);
                temp_buff = (if cmod buffer_size 2 \<noteq> 0
                             then temp_buff[nat (checksum_size buffer_size - 1) := 0] else temp_buff)
            in Inr (in_cksum (take (nat (checksum_size buffer_size)) temp_buff))))"

section \<open>Parsing\<close>

definition getSequenceFromBuffer :: "byte list \<Rightarrow> u32" where
  "getSequenceFromBuffer buffer = ntohl (load32 buffer 0)"

text \<open>
  The fields that \<open>main\<close> extracts from an accepted filename request. The
  window size is read as 32 bits and stored in a \<open>uint16_t\<close>.
\<close>

definition request_filename :: "byte list \<Rightarrow> byte list" where
  "request_filename buffer = take 100 (drop 7 buffer)"

definition request_buffer_size :: "byte list \<Rightarrow> u16" where
  "request_buffer_size buffer = ntohs (load16 buffer 107)"

definition request_window_size :: "byte list \<Rightarrow> u16" where
  "request_window_size buffer = ucast (ntohl (load32 buffer 109))"

section \<open>Layout\<close>

lemma ack_layouts:
  "makeVALIDFilenameACKBeforeChecksum = bytes32 (ntohl 1) @ [0, 0] @ [9]"
  "makeERRORFilenameACKBeforeChecksum = bytes32 (ntohl 1) @ [0, 0] @ [32]"
  "makeTalkHereNowBeforeChecksum = bytes32 (ntohl 1) @ [0, 0] @ [33]"
  by (simp_all add: makeVALIDFilenameACKBeforeChecksum_def makeERRORFilenameACKBeforeChecksum_def
      makeTalkHereNowBeforeChecksum_def Let_def memcpy_at_def bytes16_def [of 0])

lemma makeDataPacketBeforeChecksum_layout:
  assumes "length block = 7 + unat buffer_size" "unat buffer_size \<le> length data_chunk"
  shows "makeDataPacketBeforeChecksum (Some block) sq data_chunk buffer_size =
    Inr (Some (bytes32 (htonl sq) @ [0, 0] @ [16] @ take (unat buffer_size) data_chunk))"
proof -
  obtain b0 b1 b2 b3 b4 b5 b6 r where "block = b0 # b1 # b2 # b3 # b4 # b5 # b6 # r"
      "length r = unat buffer_size"
    using assms(1) by (auto simp: eval_nat_numeral length_Suc_conv)
  moreover obtain s0 s1 s2 s3 where "bytes32 (htonl sq) = [s0, s1, s2, s3]"
    by (simp add: bytes32_def)
  ultimately show ?thesis
    using assms(2)
    by (simp add: makeDataPacketBeforeChecksum_def Let_def check_def memcpy_at_def bytes16_def)
qed

lemma getSequenceFromBuffer_head: "getSequenceFromBuffer (bytes32 (htonl n) @ r) = n"
  by (simp add: getSequenceFromBuffer_def)

interpretation filename_request:
  sealed_pdu calculateFilenameChecksumFILENAME makeFilenameACKAfterChecksum 113
  by (rule padded_calc [OF calculateFilenameChecksumFILENAME_def [unfolded Let_def]
        makeFilenameACKAfterChecksum_def]) simp_all

interpretation ack_answer:
  sealed_pdu calculateFilenameChecksumACK makeFilenameACKAfterChecksum 7
  by (rule padded_calc [OF calculateFilenameChecksumACK_def [unfolded Let_def]
        makeFilenameACKAfterChecksum_def]) simp_all

interpretation talk_answer:
  sealed_pdu calculateFilenameChecksumACK makeTalkHereNowAfterChecksum 7
  by (rule padded_calc [OF calculateFilenameChecksumACK_def [unfolded Let_def]
        makeTalkHereNowAfterChecksum_def]) simp_all

section \<open>The data checksum\<close>

text \<open>
  With an even payload the summed block is one byte longer than the packet and that
  byte is whatever \<open>malloc\<close> left there; with an odd payload nothing is padded
  and the last payload byte is summed as zero.
\<close>

lemma calculateDataPacketChecksum_even:
  assumes "even n" "length buffer = nat n + 7" "length temp = nat n + 8" "0 \<le> n" "n < 2147483640"
  shows "calculateDataPacketChecksum (Some temp) buffer n = Inr (in_cksum (buffer @ [last temp]))"
proof -
  have r: "s32 (n + 7) = n + 7" "s32 (n + 7 + 1) = n + 8"
    using assms(4,5) by (simp_all add: int_range_def)
  have "(n + 7) mod 2 = 1" "n mod 2 = 0" using assms(1) by presburger+
  then have m: "cmod (n + 7) 2 \<noteq> 0" "cmod n 2 = 0"
    using assms(4) by (simp_all add: cmod_nonneg)
  have c: "checksum_size n = n + 8"
    by (simp only: checksum_size_def r m Let_def not_False_eq_True if_True)
  have t2: "drop (nat n + 7) temp = [last temp]" if "length temp = nat n + 8"
    using that by (cases temp rule: rev_cases) auto
  have "drop (nat n + 7) temp = [last temp]"
    using assms(3) by (rule t2)
  moreover have "nat (n + 7) = nat n + 7" "nat (n + 8) = nat n + 8" using assms(4) by simp_all
  ultimately show ?thesis
    using assms by (simp add: calculateDataPacketChecksum_def r m c Let_def check_def memcpy_at_def)
qed

lemma calculateDataPacketChecksum_odd:
  assumes "odd n" "length buffer = nat n + 7" "length temp = nat n + 7" "0 \<le> n" "n < 2147483640"
  shows "calculateDataPacketChecksum (Some temp) buffer n = Inr (in_cksum (butlast buffer @ [0]))"
proof -
  have r: "s32 (n + 7) = n + 7" using assms(4,5) by (simp add: int_range_def)
  have "(n + 7) mod 2 = 0" "n mod 2 = 1" using assms(1) by presburger+
  then have m: "cmod (n + 7) 2 = 0" "cmod n 2 \<noteq> 0" using assms(4) by (simp_all add: cmod_nonneg)
  have c: "checksum_size n = n + 7" by (simp add: checksum_size_def r m Let_def)
  have k: "nat (n + 7) = nat n + 7" "nat (6 + n) = nat n + 6" using assms(4) by simp_all
  have "buffer \<noteq> []" using assms(2) by auto
  moreover have "nat n + 6 = length buffer - 1" using assms(2) by simp
  ultimately have "buffer[nat n + 6 := 0] = butlast buffer @ [0]"
    by (metis append_butlast_last_id length_butlast list_update_length)
  then show ?thesis
    using assms by (simp add: calculateDataPacketChecksum_def r m c k Let_def check_def memcpy_at_def)
qed

section \<open>Properties\<close>

text \<open>
  C25. The checksum of a data packet is off by one byte: as the server builds it, the
  packet verifies exactly when, for an even payload, the byte of the uninitialised summing
  block behind the packet happens to be 0, and, for an odd payload, the last payload
  byte is 0, because that byte is summed as 0.
\<close>

theorem data_packet_verifies_iff:
  assumes "0 < length c" "length c \<le> 255" "length block = 7 + length c"
    and "length temp = nat (checksum_size (int (length c)))"
  shows "\<exists>pdu cs. makeDataPacketBeforeChecksum (Some block) sq c (word_of_int (int (length c))) = Inr (Some pdu)
    \<and> calculateDataPacketChecksum (Some temp) pdu (int (length c)) = Inr cs
    \<and> drop 7 (makeDataPacketAfterChecksum pdu cs) = c
    \<and> (in_cksum (makeDataPacketAfterChecksum pdu cs) = 0 \<longleftrightarrow>
        (if even (length c) then last temp = 0 else last c = 0))"
proof -
  let ?n = "int (length c)"
  let ?x = "bytes32 (htonl sq)" and ?y = "16 # c"
  let ?pdu = "?x @ [0, 0] @ ?y"
  have u: "unat (word_of_int ?n :: byte) = length c"
    using assms(2) by (simp add: unat_word_ariths unsigned_of_nat take_bit_eq_mod)
  have b: "makeDataPacketBeforeChecksum (Some block) sq c (word_of_int ?n) = Inr (Some ?pdu)"
    using makeDataPacketBeforeChecksum_layout [of block "word_of_int ?n" c sq] assms(3) u by simp
  have l: "length ?pdu = length c + 7" by simp
  have r: "s32 (?n + 7) = ?n + 7" "s32 (?n + 7 + 1) = ?n + 8" "s32 (8 + ?n) = ?n + 8"
    using assms(2) by (simp_all add: int_range_def)
  have nz: "wsum ?pdu \<noteq> 0"
    using wsum_nonneg [of c] by (simp add: wsum_append) (cases c; simp add: wsum_nonneg add_nonneg_eq_0_iff)
  have v: "makeDataPacketAfterChecksum ?pdu cs = ?x @ bytes16 cs @ ?y" for cs
    by (simp add: makeDataPacketAfterChecksum_def memcpy_at_def)
  have small: "\<bar>256 * uint j\<bar> < 65535" "256 * uint j = 0 \<longleftrightarrow> j = 0" for j :: byte
    using uint_lt2p [of j] by (simp_all add: uint_0_iff)
  have "\<exists>zs d. calculateDataPacketChecksum (Some temp) ?pdu ?n = Inr (in_cksum zs) \<and> length zs \<le> 65534
      \<and> wsum zs = wsum ?pdu + d \<and> \<bar>d\<bar> < 65535 \<and> (d = 0 \<longleftrightarrow> (if even (length c) then last temp = 0 else last c = 0))"
  proof (cases "even (length c)")
    case True
    then have "(?n + 7) mod 2 = 1" by presburger
    then have "checksum_size ?n = ?n + 8" by (simp add: checksum_size_def r cmod_nonneg Let_def)
    then have "calculateDataPacketChecksum (Some temp) ?pdu ?n = Inr (in_cksum (?pdu @ [last temp]))"
      using True assms(2,4) l by (intro calculateDataPacketChecksum_even) simp_all
    moreover have "wsum (?pdu @ [last temp]) = wsum ?pdu + 256 * uint (last temp)"
      using True by (intro wsum_append_odd) simp
    ultimately show ?thesis
      using True small assms(2) by (intro exI [of _ "?pdu @ [last temp]"] exI [of _ "256 * uint (last temp)"]) simp
  next
    case False
    then have "(?n + 7) mod 2 = 0" by presburger
    then have "checksum_size ?n = ?n + 7" by (simp add: checksum_size_def r cmod_nonneg Let_def)
    then have k: "calculateDataPacketChecksum (Some temp) ?pdu ?n = Inr (in_cksum (butlast ?pdu @ [0]))"
      using False assms(2,4) l by (intro calculateDataPacketChecksum_odd) simp_all
    have odd: "odd (length (butlast ?pdu))" using False by simp
    have "?pdu = butlast ?pdu @ [last c]"
      using assms(1) append_butlast_last_id [of ?pdu] by (cases "c = []") simp_all
    then have "wsum ?pdu = wsum (butlast ?pdu) + 256 * uint (last c)"
      using wsum_append_odd [OF odd, of "last c"] by metis
    then have "wsum (butlast ?pdu @ [0]) = wsum ?pdu + (- 256 * uint (last c))"
      using wsum_append_odd [OF odd, of 0] by simp
    moreover have "length (butlast ?pdu @ [0]) \<le> 65534" using assms(2) by simp
    ultimately show ?thesis
      using False small [of "last c"] k
      by (intro exI [of _ "butlast ?pdu @ [0]"] exI [of _ "- 256 * uint (last c)"]) simp
  qed
  then obtain zs d where z: "calculateDataPacketChecksum (Some temp) ?pdu ?n = Inr (in_cksum zs)"
      "length zs \<le> 65534" "wsum zs = wsum ?pdu + d" "\<bar>d\<bar> < 65535"
      "d = 0 \<longleftrightarrow> (if even (length c) then last temp = 0 else last c = 0)" by blast
  have "in_cksum (?x @ bytes16 (in_cksum zs) @ ?y) = 0 \<longleftrightarrow> d = 0"
    using assms(2) by (intro in_cksum_of_other [OF _ _ z(2,3,4) nz]) simp_all
  then show ?thesis using b z(1,5) v by (intro exI [of _ ?pdu] exI [of _ "in_cksum zs"]) simp
qed

theorem data_packet_verifies_iff_witness:
  "\<exists>pdu cs. calculateDataPacketChecksum (Some (replicate 8 0)) pdu 1 = Inr cs \<and>
     drop 7 (makeDataPacketAfterChecksum pdu cs) = [65] \<and> in_cksum (makeDataPacketAfterChecksum pdu cs) \<noteq> 0"
proof -
  have "checksum_size 1 = 8" by (simp add: checksum_size_def int_range_def cmod_nonneg)
  then show ?thesis using data_packet_verifies_iff [of "[65]" "replicate 8 0" "replicate 8 0" 0] by auto
qed

end
