(* ===== verification/Server.thy ===== *)
theory Server
  imports World ServerPdu Networks Clib
begin

text \<open>
  \<^verbatim>\<open>server.c\<close>: the main loop that waits for file-name requests, the child
  process that serves one client, and the sending state machine. One run of the model
  is one process: after \<open>fork\<close> it follows the process whose return value the
  system answers. A file opened for reading is the list of its unread bytes.
\<close>

section \<open>State\<close>

datatype state = INIT | GET_FILENAME | DONE | SEND_DATA | WAIT_ON_ACK | WAIT_ON_EOF_ACK

record ServerParams =
  error_rate :: floating
  port_number :: int

text \<open>The globals of \<^verbatim>\<open>server.h\<close> and the address of the current client.\<close>

record server_proc = world +
  child_server_socket :: int
  data_sequence_number :: u32
  client :: sockaddr

section \<open>The command line\<close>

definition checkArgs :: "byte list list \<Rightarrow> server_proc \<Rightarrow> (server_proc, ServerParams) res" where
  "checkArgs argv w =
     (if length argv > 3 \<or> length argv < 3 then Stop (Exited (- 1)) w
      else if atoi (argv ! 2) \<le> 0 \<or> atof (to_double w) (argv ! 1) < 0 \<or> atof (to_double w) (argv ! 1) > 1
      then Stop (Exited 1) w
      else Ok \<lparr>error_rate = atof (to_double w) (argv ! 1), port_number = atoi (argv ! 2)\<rparr> w)"

section \<open>The file name\<close>

text \<open>
  \<open>filename\<close> is an array of 100 bytes filled by \<open>memcpy\<close>. With 100 bytes of
  name it has no terminating NUL, and using it as a string reads past its end.
\<close>

definition c_string :: "byte list \<Rightarrow> fault + byte list" where
  "c_string a = (if 0 \<in> set a then Inr (cstring a) else Inl OutOfBounds)"

definition fopen_source :: "byte list \<Rightarrow> server_proc \<Rightarrow> (server_proc, byte list option) res" where
  "fopen_source filename w = bnd (lift (c_string filename) w) (\<lambda>name w. Ok (fopen_rb name w) w)"

section \<open>GET_FILENAME\<close>

text \<open>\<open>recvfrom\<close> on the child's socket that overwrites the client's address.\<close>

definition recvfrom_client :: "byte list \<Rightarrow> nat \<Rightarrow> server_proc \<Rightarrow> (server_proc, int \<times> byte list) res" where
  "recvfrom_client recv_buffer n w =
     bnd (recvfrom recv_buffer n w) (\<lambda>(received, recv_buffer, src) w.
       Ok (received, recv_buffer) (case src of None \<Rightarrow> w | Some a \<Rightarrow> w\<lparr>client := a\<rparr>))"

text \<open>
  The wait for the client's answer to the error packet: ten polls, and any datagram
  ends it.
\<close>

fun await_error_ack :: "nat \<Rightarrow> server_proc \<Rightarrow> (server_proc, state) res" where
  "await_error_ack 0 w = Ok DONE w"
| "await_error_ack (Suc left) w =
     bnd (pollCall 1000 w) (\<lambda>poll_result w.
       if poll_result \<noteq> - 1 then
         bnd (recvfrom_client (local_array 7 w) 7 w) (\<lambda>(received, _) w.
           if received > 0 then Ok DONE w else await_error_ack left w)
       else await_error_ack left w)"

text \<open>Each answer is sealed and its checksum verified before it is sent.\<close>

definition send_sealed :: "byte list \<Rightarrow> server_proc \<Rightarrow> (server_proc, int) res" where
  "send_sealed temp_buff w =
     (let buff_send = makeFilenameACKAfterChecksum temp_buff (calculateFilenameChecksumACK temp_buff)
      in if calculateFilenameChecksumACK buff_send \<noteq> 0 then Stop (Exited 1) w
         else sendtoErr (child_server_socket w) buff_send 7 (client w) w)"

definition doGetFilenameState :: "byte list \<Rightarrow> server_proc \<Rightarrow> (server_proc, state) res" where
  "doGetFilenameState filename w =
     bnd (fopen_source filename w) (\<lambda>curr_file_open w.
       case curr_file_open of
         None \<Rightarrow>
           bnd (send_sealed makeERRORFilenameACKBeforeChecksum w) (\<lambda>bytes_sent w.
             if bytes_sent < 0 then Ok DONE w else await_error_ack 10 w)
       | Some _ \<Rightarrow>
           bnd (send_sealed makeVALIDFilenameACKBeforeChecksum w) (\<lambda>bytes_sent w.
             if bytes_sent < 0 then Ok DONE w else Ok SEND_DATA w))"

section \<open>Reading the file\<close>

text \<open>
  The chunk is a block of \<open>buffer_size\<close> bytes whose first \<open>bytes_read\<close> are
  from the file. \<open>bytes_read = 0\<close> also when memory runs out.
\<close>

definition getDataChunk :: "byte list \<Rightarrow> int \<Rightarrow> server_proc \<Rightarrow>
    (server_proc, byte list option \<times> int \<times> byte list) res" where
  "getDataChunk fp buffer_size w =
     (if buffer_size \<le> 0 then Ok (None, 0, fp) w
      else bnd (malloc (nat buffer_size) w) (\<lambda>m w.
        case m of None \<Rightarrow> Ok (None, 0, fp) w
        | Some chunk \<Rightarrow>
            let nread = min (nat buffer_size) (length fp) in
            if nread = 0 then Ok (None, 0, fp) w
            else Ok (Some (memcpy_at chunk 0 (take nread fp)), int nread, drop nread fp) w))"

section \<open>SEND_DATA: filling the window\<close>

text \<open>The data packet of one chunk; the 16-bit size is truncated to \<open>uint8_t\<close>.\<close>

definition build_data_pdu :: "byte list option \<Rightarrow> int \<Rightarrow> int \<Rightarrow> server_proc \<Rightarrow> (server_proc, byte list) res" where
  "build_data_pdu data_chunk buffer_size bytesRead w =
     bnd (malloc (7 + unat (word_of_int buffer_size :: byte)) w) (\<lambda>m w.
     bnd (lift (sbind (deref data_chunk) (\<lambda>c.
            makeDataPacketBeforeChecksum m (data_sequence_number w) c (word_of_int buffer_size))) w) (\<lambda>dataPDU w.
     bnd (malloc (nat (checksum_size bytesRead)) w) (\<lambda>t w.
     bnd (lift (deref dataPDU) w) (\<lambda>pdu w.
     bnd (lift (calculateDataPacketChecksum t pdu bytesRead) w) (\<lambda>checksum w.
       Ok (makeDataPacketAfterChecksum pdu checksum) w)))))"

text \<open>The index the server itself computes: the sequence number is unsigned, so is the remainder.\<close>

definition unsigned_slot :: "SenderWindow \<Rightarrow> u32 \<Rightarrow> fault + Packet" where
  "unsigned_slot window sq =
     sbind (check (sw_window_size window \<noteq> 0) DivByZero) (\<lambda>_.
     sbind (slot (sw_buffer window) (s32 (uint (sq mod word_of_int (sw_window_size window))))) deref)"

definition send_chunk :: "SenderWindow \<Rightarrow> byte list option \<Rightarrow> int \<Rightarrow> int \<Rightarrow> server_proc \<Rightarrow>
    (server_proc, int \<times> SenderWindow) res" where
  "send_chunk window data_chunk buffer_size bytesRead w =
     bnd (build_data_pdu data_chunk buffer_size bytesRead w) (\<lambda>finalPDU w.
     bnd (lift (insertPacketIntoWindow window (sint (data_sequence_number w)) finalPDU (s32 (bytesRead + 7))) w) (\<lambda>window w.
     bnd (lift (unsigned_slot window (data_sequence_number w)) w) (\<lambda>p w.
     bnd (sendtoErr (child_server_socket w) (data p) (s32 (bytesRead + 7)) (client w) w) (\<lambda>bytes_sent w.
       Ok (bytes_sent, window\<lparr>current := sint (data_sequence_number w)\<rparr>) w))))"

text \<open>
  The first inner loop. The result has the state to return at once, if any, the window
  and the unread bytes. Every round but the last reads at least one byte.
\<close>

lemma getDataChunk_shorter:
  "getDataChunk fp n w = Ok (c, k, fp') w' \<Longrightarrow> k \<noteq> 0 \<Longrightarrow> length fp' < length fp"
  by (auto simp: getDataChunk_def Let_def elim!: bnd_Ok_E split: if_splits option.splits)

function fill_window :: "int \<Rightarrow> SenderWindow \<Rightarrow> byte list \<Rightarrow> server_proc \<Rightarrow>
    (server_proc, state option \<times> SenderWindow \<times> byte list) res" where
  "fill_window buffer_size window file w =
     (if canSendMorePackets window then
        bnd (getDataChunk file buffer_size w) (\<lambda>(data_chunk, bytesRead, file') w.
          if bytesRead = 0 then Ok (Some WAIT_ON_EOF_ACK, window, file') w
          else bnd (send_chunk window data_chunk buffer_size bytesRead w) (\<lambda>(bytes_sent, window) w.
            if bytes_sent < 0 then Ok (Some DONE, window, file') w
            else fill_window buffer_size window file'
                   (w\<lparr>data_sequence_number := data_sequence_number w + 1\<rparr>)))
      else Ok (None, window, file) w)"
  by pat_completeness auto
termination
  by (relation "measure (\<lambda>(_, _, file, _). length file)") (auto dest: getDataChunk_shorter)

declare fill_window.simps [simp del]

section \<open>SEND_DATA: control packets\<close>

text \<open>
  What both receiving loops do with a datagram: an RR acknowledges the packet whose
  number the header carries and slides the window behind it, an SREJ resends one.
\<close>

definition resend :: "Packet \<Rightarrow> server_proc \<Rightarrow> (server_proc, unit) res" where
  "resend p w =
     bnd (sendtoErr (child_server_socket w) (data p) (s32 (data_size p + 7)) (client w) w) (\<lambda>_ w. Ok () w)"

definition handle_control :: "int \<Rightarrow> byte list \<Rightarrow> SenderWindow \<Rightarrow> server_proc \<Rightarrow> (server_proc, SenderWindow) res" where
  "handle_control received recv_buffer window w =
     (if received > 0 then
        let response_flag = recv_buffer ! 6;
            receivedSeq = getSequenceFromBuffer recv_buffer
        in if response_flag = 5 then
             bnd (lift (acknowledgePacket window (sint receivedSeq)) w) (\<lambda>window w.
             bnd (lift (advanceSenderWindow window (sint (receivedSeq + 1))) w) (\<lambda>window w. Ok window w))
           else if response_flag = 6 then
             bnd (lift (unsigned_slot window receivedSeq) w) (\<lambda>p w.
             bnd (resend p w) (\<lambda>_ w. Ok window w))
           else Ok window w
      else Ok window w)"

definition receive_control :: "SenderWindow \<Rightarrow> server_proc \<Rightarrow> (server_proc, SenderWindow) res" where
  "receive_control window w =
     bnd (recvfrom (local_array 7 w) 7 w) (\<lambda>(received, recv_buffer, _) w.
       handle_control received recv_buffer window w)"

text \<open>On a timeout: the lowest packet of the window that is present and not acknowledged.\<close>

fun lowest_unacked :: "SenderWindow \<Rightarrow> int \<Rightarrow> nat \<Rightarrow> fault + Packet option" where
  "lowest_unacked window sq 0 = Inr None"
| "lowest_unacked window sq (Suc n) =
     sbind (sender_slot window sq) (\<lambda>o'.
       case o' of
         Some p \<Rightarrow> if ACK p = 0 then Inr (Some p) else lowest_unacked window (sq + 1) n
       | None \<Rightarrow> lowest_unacked window (sq + 1) n)"

definition resend_lowest :: "SenderWindow \<Rightarrow> server_proc \<Rightarrow> (server_proc, unit) res" where
  "resend_lowest window w =
     bnd (lift (lowest_unacked window (lower window) (nat (upper window - lower window + 1))) w) (\<lambda>o' w.
       case o' of None \<Rightarrow> Ok () w | Some p \<Rightarrow> resend p w)"

section \<open>What a step changes\<close>

text \<open>
  The interface for facts about whole runs of the sending process, as for the client:
  a relation between the states before and after that the system calls keep.
\<close>

locale server_effects = effect_order R for R :: "server_proc \<Rightarrow> server_proc \<Rightarrow> bool" +
  assumes R_pollCall [simp]: "R w (final (pollCall t w))"
    and R_recvfrom [simp]: "R w (final (recvfrom buf len w))"
    and R_malloc [simp]: "R w (final (malloc n w))"
    and R_sendtoErr [simp]: "R w (final (sendtoErr s buf sz dest w))"
    and R_client [simp]: "R w (w\<lparr>client := a\<rparr>)"
    and R_data_sequence_number [simp]: "R w (w\<lparr>data_sequence_number := k\<rparr>)"
begin

lemma R_self [simp]: "R w w"
  by (rule R_refl)

lemma R_recvfrom_client [simp]: "R w (final (recvfrom_client b n w))"
  unfolding recvfrom_client_def by (rule bnd_final) (auto split: option.splits)

lemma R_await_error_ack [simp]: "R w (final (await_error_ack n w))"
  by (induction n w rule: await_error_ack.induct) (auto intro!: bnd_final)

lemma R_send_sealed [simp]: "R w (final (send_sealed b w))"
  by (simp add: send_sealed_def Let_def)

lemma R_fopen_source [simp]: "R w (final (fopen_source f w))"
  unfolding fopen_source_def by (rule bnd_final) auto

lemma R_doGetFilenameState [simp]: "R w (final (doGetFilenameState f w))"
  unfolding doGetFilenameState_def by (auto intro!: bnd_final split: option.split)

lemma R_getDataChunk [simp]: "R w (final (getDataChunk fp n w))"
  unfolding getDataChunk_def by (auto simp: Let_def intro!: bnd_final split: option.split)

lemma R_build_data_pdu [simp]: "R w (final (build_data_pdu c n k w))"
  unfolding build_data_pdu_def by (auto intro!: bnd_final)

lemma R_send_chunk [simp]: "R w (final (send_chunk window c n k w))"
  unfolding send_chunk_def by (auto intro!: bnd_final)

lemma R_resend [simp]: "R w (final (resend p w))"
  unfolding resend_def by (auto intro!: bnd_final)

lemma R_handle_control [simp]: "R w (final (handle_control n b window w))"
  unfolding handle_control_def by (auto simp: Let_def intro!: bnd_final)

lemma R_receive_control [simp]: "R w (final (receive_control window w))"
  unfolding receive_control_def by (auto intro!: bnd_final)

lemma R_resend_lowest [simp]: "R w (final (resend_lowest window w))"
  unfolding resend_lowest_def by (auto intro!: bnd_final split: option.split)

lemma R_fill_window [simp]: "R w (final (fill_window n window fp w))"
proof (induction n window fp w rule: fill_window.induct)
  case (1 n window fp w)
  have "R w2 (final (fill_window n win fp' (w2\<lparr>data_sequence_number := data_sequence_number w2 + 1\<rparr>)))"
    if "canSendMorePackets window" "getDataChunk fp n w = Ok (c, k, fp') w1" "k \<noteq> 0"
      "send_chunk window c n k w1 = Ok (m, win) w2" "\<not> m < 0" for c k fp' w1 m win w2
    by (rule R_trans [OF R_data_sequence_number 1 [OF that(1,2) refl refl that(3,4) refl that(5)]])
  then show ?case
    unfolding fill_window.simps [of n window fp w] by (auto intro!: bnd_final)
qed

end

text \<open>Answers of \<open>poll\<close> are only consumed, and the server never touches a file.\<close>

definition polls_consumed :: "server_proc \<Rightarrow> server_proc \<Rightarrow> bool" where
  "polls_consumed w w' \<longleftrightarrow> length (poll_q w') \<le> length (poll_q w) \<and> fs w' = fs w"

lemma final_pollCall_shorter: "length (poll_q (final (pollCall t w))) \<le> length (poll_q w)"
  by (auto simp: pollCall_def on_pset_def split: list.split res.splits)

interpretation polling: server_effects polls_consumed
proof
  show "polls_consumed w (final (pollCall t w))" for t w
    using final_pollCall [of t w] final_pollCall_shorter [of t w] by (auto simp: polls_consumed_def)
  show "polls_consumed w (final (recvfrom buf len w))" for buf len w
    using final_recvfrom [of buf len w] by (auto simp: polls_consumed_def)
  show "polls_consumed w (final (sendtoErr s buf sz dest w))" for s buf sz dest w
    using final_sendtoErr [of s buf sz dest w] by (auto simp: polls_consumed_def)
qed (auto simp: polls_consumed_def malloc_def)

lemma polls_consumed_Ok:
  "polls_consumed w (final m) \<Longrightarrow> m = Ok a w' \<Longrightarrow> length (poll_q w') \<le> length (poll_q w)"
  by (simp add: polls_consumed_def)

lemmas poll_q_receive_control = polls_consumed_Ok [OF polling.R_receive_control]
lemmas poll_q_resend_lowest = polls_consumed_Ok [OF polling.R_resend_lowest]
lemmas poll_q_fill_window = polls_consumed_Ok [OF polling.R_fill_window]

section \<open>SEND_DATA: the loops\<close>

function drain_control :: "SenderWindow \<Rightarrow> server_proc \<Rightarrow> (server_proc, SenderWindow) res" where
  "drain_control window w =
     bnd (pollCall 0 w) (\<lambda>r w.
       if r > 0 then bnd (receive_control window w) (\<lambda>window w. drain_control window w)
       else Ok window w)"
  by pat_completeness auto
termination
  by (relation "measure (\<lambda>(_, w). length (poll_q w))")
    (auto elim!: pollCall_Ok dest!: poll_q_receive_control)

declare drain_control.simps [simp del]

function wait_control :: "SenderWindow \<Rightarrow> server_proc \<Rightarrow> (server_proc, SenderWindow) res" where
  "wait_control window w =
     (if canSendMorePackets window then Ok window w
      else bnd (pollCall 1000 w) (\<lambda>pollResult w.
        if pollResult > 0 then bnd (receive_control window w) (\<lambda>window w. wait_control window w)
        else bnd (resend_lowest window w) (\<lambda>_ w. wait_control window w)))"
  by pat_completeness auto
termination
  by (relation "measure (\<lambda>(_, w). length (poll_q w))")
    (auto elim!: pollCall_Ok dest!: poll_q_receive_control poll_q_resend_lowest)

declare wait_control.simps [simp del]

context server_effects
begin

lemma R_drain_control [simp]: "R w (final (drain_control window w))"
proof (induction window w rule: drain_control.induct)
  case (1 window w)
  then show ?case
    unfolding drain_control.simps [of window w] by (auto intro!: bnd_final)
qed

lemma R_wait_control [simp]: "R w (final (wait_control window w))"
proof (induction window w rule: wait_control.induct)
  case (1 window w)
  then show ?case
    unfolding wait_control.simps [of window w] by (auto intro!: bnd_final)
qed

end

lemmas poll_q_drain_control = polls_consumed_Ok [OF polling.R_drain_control]
lemmas poll_q_wait_control = polls_consumed_Ok [OF polling.R_wait_control]

lemma drain_control_shorter:
  "drain_control window w = Ok r w' \<Longrightarrow> length (poll_q w') < length (poll_q w)"
  unfolding drain_control.simps [of window w]
  by (auto elim!: bnd_Ok_E pollCall_Ok split: if_splits dest!: poll_q_receive_control poll_q_drain_control)

text \<open>The outer loop; every round polls at least once.\<close>

function send_data_loop :: "int \<Rightarrow> SenderWindow \<Rightarrow> byte list \<Rightarrow> server_proc \<Rightarrow> (server_proc, state) res" where
  "send_data_loop buffer_size window file w =
     bnd (fill_window buffer_size window file w) (\<lambda>(ret, window, file) w.
       case ret of
         Some st \<Rightarrow> Ok st w
       | None \<Rightarrow>
           bnd (drain_control window w) (\<lambda>window w.
           bnd (wait_control window w) (\<lambda>window w.
             send_data_loop buffer_size window file w)))"
  by pat_completeness auto
termination
  by (relation "measure (\<lambda>(_, _, _, w). length (poll_q w))")
    (auto dest!: poll_q_fill_window drain_control_shorter poll_q_wait_control)

declare send_data_loop.simps [simp del]

definition doSendDataState :: "byte list \<Rightarrow> u16 \<Rightarrow> u32 \<Rightarrow> server_proc \<Rightarrow> (server_proc, state) res" where
  "doSendDataState filename buffer_size window_size w =
     bnd (fopen_source filename w) (\<lambda>file w.
       case file of None \<Rightarrow> Ok DONE w
       | Some file \<Rightarrow>
           (case initSenderWindow (heap_fn w) (heap_no w) (sint window_size) of
              (window, k) \<Rightarrow>
                let w = w\<lparr>heap_no := k\<rparr> in
                (case window of None \<Rightarrow> Ok DONE w
                 | Some window \<Rightarrow> send_data_loop (uint buffer_size) window file w)))"

section \<open>The child process\<close>

text \<open>The function exists, but no state of the machine calls it.\<close>

definition doDoneState :: "int \<Rightarrow> server_proc \<Rightarrow> (server_proc, unit) res" where
  "doDoneState socketNum w =
     bnd (removeFromPollSet socketNum w) (\<lambda>_ w.
     bnd (close_socket socketNum w) (\<lambda>_ w. Stop (Exited 0) w))"

lemma await_error_ack_state: "await_error_ack n w = Ok st w' \<Longrightarrow> st = DONE"
  by (induction n w rule: await_error_ack.induct) (auto elim!: bnd_Ok_E split: if_splits)

lemma doGetFilenameState_state: "doGetFilenameState f w = Ok st w' \<Longrightarrow> st = DONE \<or> st = SEND_DATA"
  by (auto simp: doGetFilenameState_def elim!: bnd_Ok_E split: option.splits if_splits
      dest!: await_error_ack_state)

lemma fill_window_state:
  "fill_window n window fp w = Ok r w' \<Longrightarrow> fst r = None \<or> fst r = Some DONE \<or> fst r = Some WAIT_ON_EOF_ACK"
proof (induction n window fp w rule: fill_window.induct)
  case (1 n window fp w)
  show ?case
    using "1.prems" unfolding fill_window.simps [of n window fp w]
    by (auto simp del: not_None_eq elim!: bnd_Ok_E split: if_splits)
      (drule (5) "1.IH" [OF _ _ refl refl _ _ refl], simp)
qed

lemma send_data_loop_state: "send_data_loop n window fp w = Ok st w' \<Longrightarrow> st = DONE \<or> st = WAIT_ON_EOF_ACK"
proof (induction n window fp w rule: send_data_loop.induct)
  case (1 n window fp w)
  show ?case
    using "1.prems" unfolding send_data_loop.simps [of n window fp w]
    by (auto elim!: bnd_Ok_E split: option.splits)
      (drule (3) "1.IH" [OF _ refl refl refl], simp, drule fill_window_state, simp)
qed

lemma doSendDataState_state: "doSendDataState f n k w = Ok st w' \<Longrightarrow> st = DONE \<or> st = WAIT_ON_EOF_ACK"
  by (auto simp: doSendDataState_def Let_def elim!: bnd_Ok_E split: option.splits prod.splits
      dest: send_data_loop_state)

text \<open>
  The state machine of the child. The cases INIT and WAIT_ON_ACK of the code spin
  without a system call; no run reaches them.
\<close>

function child_fsm :: "byte list \<Rightarrow> u16 \<Rightarrow> u32 \<Rightarrow> state \<Rightarrow> server_proc \<Rightarrow> (server_proc, unit) res" where
  "child_fsm filename buffer_size window_size st w =
     (case st of
        DONE \<Rightarrow> Ok () w
      | GET_FILENAME \<Rightarrow> bnd (doGetFilenameState filename w)
          (\<lambda>st w. child_fsm filename buffer_size window_size st w)
      | SEND_DATA \<Rightarrow> bnd (doSendDataState filename buffer_size window_size w)
          (\<lambda>st w. child_fsm filename buffer_size window_size st w)
      | WAIT_ON_EOF_ACK \<Rightarrow> Stop (Exited 1) w
      | WAIT_ON_ACK \<Rightarrow> Stop Blocked w
      | INIT \<Rightarrow> Stop Blocked w)"
  by pat_completeness auto
termination
  by (relation "measure (\<lambda>(_, _, _, st, _). case st of GET_FILENAME \<Rightarrow> 2 | SEND_DATA \<Rightarrow> 1 | _ \<Rightarrow> 0)")
    (auto dest!: doGetFilenameState_state doSendDataState_state)

declare child_fsm.simps [simp del]

text \<open>
  \<open>state\<close> is set to DONE when the first packet cannot be sent, and then to
  GET_FILENAME in any case.
\<close>

definition run_child :: "byte list \<Rightarrow> u16 \<Rightarrow> u32 \<Rightarrow> int \<Rightarrow> ServerParams \<Rightarrow> server_proc \<Rightarrow> (server_proc, unit) res" where
  "run_child filename buffer_size window_size main_server_socket serverParam w =
     bnd (close_socket main_server_socket (init_errors (error_rate serverParam) True w)) (\<lambda>_ w.
     bnd (removeFromPollSet main_server_socket w) (\<lambda>_ w.
     bnd (udpServerSetup 0 w) (\<lambda>s w.
     let w = w\<lparr>child_server_socket := s\<rparr> in
     bnd (addToPollSet s w) (\<lambda>_ w.
       let temp_buff = makeTalkHereNowBeforeChecksum;
           talk_buff_send = makeTalkHereNowAfterChecksum temp_buff (calculateFilenameChecksumACK temp_buff)
       in if calculateFilenameChecksumACK talk_buff_send \<noteq> 0 then Stop (Exited 1) w
          else bnd (sendtoErr s talk_buff_send 7 (client w) w) (\<lambda>bytes_sent w.
            let st = (if bytes_sent < 0 then DONE else INIT);
                st = GET_FILENAME
            in child_fsm filename buffer_size window_size st w)))))"

definition startFSM :: "byte list \<Rightarrow> u16 \<Rightarrow> u32 \<Rightarrow> int \<Rightarrow> ServerParams \<Rightarrow> server_proc \<Rightarrow> (server_proc, unit) res" where
  "startFSM filename buffer_size window_size main_server_socket serverParam w =
     bnd (forkMod w) (\<lambda>server_child w.
       if server_child < 0 then Ok () w
       else if server_child = 0
       then run_child filename buffer_size window_size main_server_socket serverParam w
       else Ok () w)"

text \<open>The SIGCHLD handler. \<open>Processes\<close> runs it between the steps of the main process.\<close>

function handleZombies :: "server_proc \<Rightarrow> (server_proc, unit) res" where
  "handleZombies w =
     bnd (syscall Sys_waitpid w) (\<lambda>r w. if r > 0 then handleZombies w else Ok () w)"
  by pat_completeness auto
termination
  by (relation "measure (\<lambda>w. length (sys_q w))") (auto simp: syscall_def split: list.splits)

declare handleZombies.simps [simp del]

locale process_effects = server_effects R for R :: "server_proc \<Rightarrow> server_proc \<Rightarrow> bool" +
  assumes R_close_socket [simp]: "R w (final (close_socket s w))"
    and R_removeFromPollSet [simp]: "R w (final (removeFromPollSet s w))"
    and R_addToPollSet [simp]: "R w (final (addToPollSet s w))"
    and R_syscall [simp]: "R w (final (syscall e w))"
    and R_forkMod [simp]: "R w (final (forkMod w))"
    and R_init_errors: "R w (init_errors rate rnd w)"
    and R_child_server_socket: "R w (w\<lparr>child_server_socket := s\<rparr>)"
    and R_heap_no: "R w (w\<lparr>heap_no := h\<rparr>)"
begin

lemma R_send_data_loop [simp]: "R w (final (send_data_loop n window fp w))"
proof (induction n window fp w rule: send_data_loop.induct)
  case (1 n window fp w)
  have "R w3 (final (send_data_loop n win2 fp' w3))"
    if "fill_window n window fp w = Ok (None, win, fp') w1" "drain_control win w1 = Ok win1 w2"
      "wait_control win1 w2 = Ok win2 w3" for win fp' w1 win1 w2 win2 w3
    by (rule 1 [OF that(1) refl refl refl that(2,3)])
  then show ?case
    unfolding send_data_loop.simps [of n window fp w] by (auto intro!: bnd_final split: option.split)
qed

lemma R_doSendDataState [simp]: "R w (final (doSendDataState f n k w))"
  unfolding doSendDataState_def
  by (auto simp: Let_def R_heap_no intro!: bnd_final R_trans [OF R_heap_no R_send_data_loop]
      split: option.split prod.split)

lemma R_child_fsm [simp]: "R w (final (child_fsm f n k st w))"
proof (induction f n k st w rule: child_fsm.induct)
  case (1 f n k st w)
  then show ?case
    unfolding child_fsm.simps [of f n k st w] by (auto split: state.split intro!: bnd_final)
qed

lemma R_must [simp]: "R w (final (must st e w))"
  unfolding must_def by (auto intro!: bnd_final)

lemma R_udpServerSetup [simp]: "R w (final (udpServerSetup port w))"
  unfolding udpServerSetup_def by (auto intro!: bnd_final)

lemma R_run_child [simp]: "R w (final (run_child f n k s p w))"
  unfolding run_child_def Let_def
  by (rule R_trans [OF R_init_errors [of w "error_rate p" True]], intro bnd_final)
    (auto intro!: bnd_final R_trans [OF R_child_server_socket R_addToPollSet])

lemma R_startFSM [simp]: "R w (final (startFSM f n k s p w))"
  unfolding startFSM_def by (auto intro!: bnd_final)

end

interpretation polling: process_effects polls_consumed
proof
  show "polls_consumed w (final (removeFromPollSet s w))" for s w
    using final_removeFromPollSet [of s w] by (auto simp: polls_consumed_def)
  show "polls_consumed w (final (addToPollSet s w))" for s w
    using final_addToPollSet [of s w] by (auto simp: polls_consumed_def)
  show "polls_consumed w (final (forkMod w))" for w
    using final_forkMod [of w] by (auto simp: polls_consumed_def)
qed (auto simp: polls_consumed_def close_socket_def syscall_def init_errors_def split: list.split)

lemmas poll_q_startFSM = polls_consumed_Ok [OF polling.R_startFSM]

section \<open>main\<close>

text \<open>
  One round of the loop of \<open>main\<close>, behind \<open>pollCall\<close>: the result is the request buffer of
  114 bytes, which keeps its bytes between requests. A datagram with a bad checksum is
  ignored. The child returns here as well when its machine ends in DONE.
\<close>

definition serve_round :: "int \<Rightarrow> ServerParams \<Rightarrow> byte list \<Rightarrow> server_proc \<Rightarrow> (server_proc, byte list) res" where
  "serve_round main_server_socket serverParam buffer w =
     bnd (recvfrom_client buffer 114 w) (\<lambda>(recv_len, buffer) w.
       if recv_len < 0 then Ok buffer w
       else if calculateFilenameChecksumFILENAME buffer \<noteq> 0 then Ok buffer w
       else bnd (startFSM (request_filename buffer) (request_buffer_size buffer)
                   (ucast (request_window_size buffer)) main_server_socket serverParam w)
              (\<lambda>_ w. Ok buffer w))"

context process_effects
begin

lemma R_serve_round [simp]: "R w (final (serve_round s p buf w))"
  unfolding serve_round_def by (auto intro!: bnd_final)

end

lemmas poll_q_serve_round = polls_consumed_Ok [OF polling.R_serve_round]

function server_loop :: "int \<Rightarrow> ServerParams \<Rightarrow> byte list \<Rightarrow> server_proc \<Rightarrow> (server_proc, unit) res" where
  "server_loop main_server_socket serverParam buffer w =
     bnd (pollCall (- 1) w) (\<lambda>poll w.
       if poll < 0 then Stop (Exited 1) w
       else bnd (serve_round main_server_socket serverParam buffer w) (\<lambda>buffer w.
         server_loop main_server_socket serverParam buffer w))"
  by pat_completeness auto
termination
  by (relation "measure (\<lambda>(_, _, _, w). length (poll_q w))")
    (auto elim!: pollCall_Ok dest!: poll_q_serve_round)

declare server_loop.simps [simp del]

definition main :: "byte list list \<Rightarrow> server_proc \<Rightarrow> (server_proc, unit) res" where
  "main argv w =
     bnd (checkArgs argv (w\<lparr>child_server_socket := 0, data_sequence_number := 0\<rparr>)) (\<lambda>serverParam w.
     bnd (udpServerSetup (port_number serverParam) w) (\<lambda>main_server_socket w.
     bnd (setupPollSet w) (\<lambda>_ w.
     bnd (addToPollSet main_server_socket w) (\<lambda>_ w.
       let w = init_errors (error_rate serverParam) False w in
       server_loop main_server_socket serverParam (local_array 114 w) w))))"

section \<open>What one round of the fill loop sends\<close>

text \<open>A data packet with number \<open>sq\<close> and payload \<open>c\<close>, whatever its checksum.\<close>

definition is_data_pdu :: "byte list \<Rightarrow> u32 \<Rightarrow> byte list \<Rightarrow> bool" where
  "is_data_pdu d sq c \<longleftrightarrow> length d = 7 + length c \<and> getSequenceFromBuffer d = sq \<and> d ! 6 = 16 \<and> drop 7 d = c"

definition plenty :: "server_proc \<Rightarrow> bool" where
  "plenty w \<longleftrightarrow> (\<forall>k. heap_fn w k \<noteq> None)"

lemma malloc_plenty:
  assumes "plenty w"
  obtains b where "malloc n w = Ok (Some b) (w\<lparr>heap_no := heap_no w + 1\<rparr>)" "length b = n"
proof -
  obtain g where "heap_fn w (heap_no w) = Some g" using assms by (auto simp: plenty_def)
  then show ?thesis by (intro that [of "junk_bytes g 0 n"]) (simp_all add: malloc_def junk_bytes_def)
qed

lemma getDataChunk_plenty:
  assumes "plenty w" "0 < n" "fp \<noteq> []"
  obtains c where "getDataChunk fp n w = Ok (Some c, int (min (nat n) (length fp)), drop (nat n) fp)
      (w\<lparr>heap_no := heap_no w + 1\<rparr>)" "length c = nat n" "take (min (nat n) (length fp)) c = take (nat n) fp"
proof -
  obtain b where b: "malloc (nat n) w = Ok (Some b) (w\<lparr>heap_no := heap_no w + 1\<rparr>)" "length b = nat n"
    by (rule malloc_plenty [OF assms(1)])
  have "drop (min (nat n) (length fp)) fp = drop (nat n) fp" by (simp add: min_def)
  then show ?thesis
    using b assms(2,3)
    by (intro that [of "memcpy_at b 0 (take (min (nat n) (length fp)) fp)"])
      (auto simp: getDataChunk_def Let_def memcpy_at_def min_def)
qed

lemma checksum_size_ge: "0 < n \<Longrightarrow> n < 2147483640 \<Longrightarrow> n + 7 \<le> checksum_size n \<and> s32 (n + 7) = n + 7"
  by (auto simp: checksum_size_def Let_def s32_id int_range_def)

lemma build_data_pdu_plenty:
  assumes "plenty w" "0 < bs" "bs \<le> 255" "length c = nat bs" "0 < n" "n \<le> bs"
  obtains pdu where "build_data_pdu (Some c) bs n w = Ok pdu (w\<lparr>heap_no := heap_no w + 2\<rparr>)"
    "length pdu = 7 + nat bs" "is_data_pdu (take (7 + nat n) pdu) (data_sequence_number w) (take (nat n) c)"
proof -
  have u: "unat (word_of_int bs :: byte) = nat bs"
    using assms(2,3) by (simp add: unat_eq_nat_uint unsigned_of_int take_bit_int_eq_self)
  let ?w1 = "w\<lparr>heap_no := heap_no w + 1\<rparr>"
  obtain b where b: "malloc (7 + nat bs) w = Ok (Some b) ?w1" "length b = 7 + nat bs"
    by (rule malloc_plenty [OF assms(1)])
  have "plenty ?w1" using assms(1) by (simp add: plenty_def)
  then obtain t where t: "malloc (nat (checksum_size n)) ?w1 = Ok (Some t) (?w1\<lparr>heap_no := heap_no ?w1 + 1\<rparr>)"
      "length t = nat (checksum_size n)"
    by (rule malloc_plenty)
  define hd where "hd = bytes32 (htonl (data_sequence_number w)) @ [0, 0, 16] @ c"
  have m: "makeDataPacketBeforeChecksum (Some b) (data_sequence_number w) c (word_of_int bs) = Inr (Some hd)"
    using makeDataPacketBeforeChecksum_layout [of b "word_of_int bs" c "data_sequence_number w"] b(2) u assms(4)
    by (simp add: hd_def)
  have lh: "length hd = 7 + nat bs" using assms(4) by (simp add: hd_def)
  have s: "s32 (n + 7) = n + 7" "n + 7 \<le> checksum_size n"
    using checksum_size_ge [of n] assms(3,5,6) by simp_all
  then obtain cs where cs: "calculateDataPacketChecksum (Some t) hd n = Inr cs"
    using lh t(2) assms(5,6) by (auto simp: calculateDataPacketChecksum_def check_def Let_def)
  have p: "makeDataPacketAfterChecksum hd cs = bytes32 (htonl (data_sequence_number w)) @ bytes16 cs @ [16] @ c"
    by (simp add: makeDataPacketAfterChecksum_def hd_def memcpy_at_def)
  have "build_data_pdu (Some c) bs n w = Ok (makeDataPacketAfterChecksum hd cs) (w\<lparr>heap_no := heap_no w + 2\<rparr>)"
    using b(1) t(1) m cs by (simp add: build_data_pdu_def u)
  moreover have "is_data_pdu (take (7 + nat n) (makeDataPacketAfterChecksum hd cs)) (data_sequence_number w) (take (nat n) c)"
    unfolding p is_data_pdu_def using assms(4,6)
    by (simp add: getSequenceFromBuffer_head nth_append take_Cons')
  moreover have "length (makeDataPacketAfterChecksum hd cs) = 7 + nat bs" using assms(4) by (simp add: p)
  ultimately show ?thesis using that by blast
qed

text \<open>Only the first \<open>n\<close> bytes matter to \<open>insertPacketIntoWindow\<close>.\<close>

lemma insertPacketIntoWindow_take:
  assumes "0 \<le> n" "n \<le> int (length d)"
  shows "insertPacketIntoWindow window s d n = sw_put window s (take (nat n) d)"
  using assms by (simp add: insertPacketIntoWindow_def sw_put_def)

lemma unsigned_slot_eq:
  assumes "sw_ok window" "0 \<le> s" "s < 2147483648" "sw_slot window s = Some p"
  shows "unsigned_slot window (word_of_int s) = Inr p"
proof -
  have w: "0 < sw_window_size window" "sw_window_size window < 2147483648"
    using assms(1) by (auto simp: sw_ok_def)
  have "s mod sw_window_size window < sw_window_size window" "0 \<le> s mod sw_window_size window"
    using w(1) by simp_all
  then have "s32 (s mod sw_window_size window) = s mod sw_window_size window"
    using w(2) by (simp add: s32_id int_range_def)
  then show ?thesis
    using assms w sender_slot_eq(2) [OF assms(1,2)]
    by (simp add: unsigned_slot_def check_def word_mod_of_int)
qed

text \<open>What a burst leaves alone, and what it adds to the network.\<close>

definition burst :: "byte list list \<Rightarrow> server_proc \<Rightarrow> server_proc \<Rightarrow> bool" where
  "burst ds w w' \<longleftrightarrow> lossless w' \<and> plenty w' \<and> client w' = client w \<and> poll_q w' = poll_q w \<and> pset w' = pset w
     \<and> child_server_socket w' = child_server_socket w \<and> recv_q w' = recv_q w
     \<and> data_sequence_number w' = data_sequence_number w + of_nat (length ds)
     \<and> sent w' = sent w @ map (\<lambda>d. (child_server_socket w, client w, d)) ds"

lemma burst_append: "burst ds u v \<Longrightarrow> burst es v w \<Longrightarrow> burst (ds @ es) u w"
  by (simp add: burst_def algebra_simps)

definition full_window :: "SenderWindow \<Rightarrow> bool" where
  "full_window window \<longleftrightarrow> sw_ok window \<and> (\<forall>t. sw_slot window t \<noteq> None)"

lemma full_window_put:
  assumes "full_window window" "0 \<le> s" "length d \<le> 1407"
  obtains wb p where "sw_put window s d = Inr wb" "full_window wb" "sw_slot wb s = Some p"
    "length (data p) = 1407" "take (length d) (data p) = d"
    "lower wb = lower window" "upper wb = upper window" "sw_window_size wb = sw_window_size window"
proof -
  have ok: "sw_ok window" and acc: "sw_accepts window s d"
    using assms by (auto simp: full_window_def sw_accepts_def)
  obtain q where q: "sw_slot window s = Some q" "length (data q) = 1407"
    "sw_put window s d = Inr (window\<lparr>sw_buffer := (sw_buffer window)[nat (s mod sw_window_size window) := Some (sent_packet q s d)]\<rparr>)"
    by (rule sw_put_eq [OF ok acc])
  let ?wb = "window\<lparr>sw_buffer := (sw_buffer window)[nat (s mod sw_window_size window) := Some (sent_packet q s d)]\<rparr>"
  have sl: "sw_slot ?wb t = (if sw_window_size window dvd (t - s) then Some (sent_packet q s d) else sw_slot window t)" for t
    by (rule sw_slot_update [OF ok]) simp_all
  have l: "length (data (sent_packet q s d)) = 1407" "take (length d) (data (sent_packet q s d)) = d"
    using q(2) assms(3) by (simp_all add: sent_packet_def memcpy_at_def)
  have "full_window ?wb"
    using assms(1) sl sw_ok_update [OF ok, of "Some (sent_packet q s d)"] l(1) by (auto simp: full_window_def)
  with q(3) l sl [of s] show ?thesis by (intro that [of ?wb "sent_packet q s d"]) simp_all
qed

lemma burst_one:
  assumes "lossless w" "plenty w" "drop_channel pm" "m_ErrorRate pm = m_ErrorRate (pmgr w)"
  shows "burst [d] w (w\<lparr>heap_no := h, pmgr := pm, send_no := k,
      sent := sent w @ [(child_server_socket w, client w, d)],
      data_sequence_number := data_sequence_number w + 1\<rparr>)"
  using assms by (simp add: burst_def lossless_def channel_ok_def plenty_def)

lemma send_chunk_plenty:
  assumes "lossless w" "plenty w" "full_window window" "0 < bs" "bs \<le> 255" "length c = nat bs"
    "0 < n" "n \<le> bs" "data_sequence_number w = word_of_int s" "0 \<le> s" "s < 2147483648"
  obtains d wb pm k where "send_chunk window (Some c) bs n w = Ok (n + 7, wb\<lparr>current := s\<rparr>)
      (w\<lparr>heap_no := heap_no w + 2, pmgr := pm, send_no := k,
         sent := sent w @ [(child_server_socket w, client w, d)]\<rparr>)"
    "drop_channel pm" "m_ErrorRate pm = m_ErrorRate (pmgr w)"
    "sw_put window s d = Inr wb" "is_data_pdu d (word_of_int s) (take (nat n) c)"
    "full_window wb" "lower wb = lower window" "upper wb = upper window"
    "sw_window_size wb = sw_window_size window"
proof -
  let ?w = "w\<lparr>heap_no := heap_no w + 2\<rparr>"
  obtain pdu where pdu: "build_data_pdu (Some c) bs n w = Ok pdu ?w" "length pdu = 7 + nat bs"
      "is_data_pdu (take (7 + nat n) pdu) (data_sequence_number w) (take (nat n) c)"
    by (rule build_data_pdu_plenty [OF assms(2,4,5,6,7,8)])
  define d where "d = take (7 + nat n) pdu"
  have ld: "length d = 7 + nat n" using pdu(2) assms(7,8) by (simp add: d_def)
  have r: "s32 (n + 7) = n + 7" using assms(5,7,8) by (simp add: s32_id int_range_def)
  have k: "nat (n + 7) = 7 + nat n" using assms(7) by simp
  have sq: "sint (data_sequence_number w) = s" using sint_of_int assms(9-11) by simp
  obtain wb p where wb: "sw_put window s d = Inr wb" "full_window wb" "sw_slot wb s = Some p"
      "length (data p) = 1407" "take (length d) (data p) = d"
      "lower wb = lower window" "upper wb = upper window" "sw_window_size wb = sw_window_size window"
    by (rule full_window_put [OF assms(3,10), of d]) (use ld assms(5,8) in auto)
  have ins: "insertPacketIntoWindow window s pdu (n + 7) = Inr wb"
    using insertPacketIntoWindow_take [of "n + 7" pdu window s] pdu(2) assms(7,8) k wb(1)
    by (simp add: d_def)
  have us: "unsigned_slot wb (word_of_int s) = Inr p"
    using unsigned_slot_eq [OF _ assms(10,11) wb(3)] wb(2) by (simp add: full_window_def)
  have ll: "lossless ?w" using assms(1) by (simp add: lossless_def channel_ok_def)
  obtain pm j where sn: "sendtoErr (child_server_socket ?w) (data p) (n + 7) (client ?w) ?w = Ok (n + 7)
      (?w\<lparr>pmgr := pm, send_no := j, sent := sent ?w @ [(child_server_socket ?w, client ?w, take (nat (n + 7)) (data p))]\<rparr>)"
      "drop_channel pm" "m_ErrorRate pm = m_ErrorRate (pmgr ?w)"
    by (rule sendtoErr_lossless [OF ll, of "n + 7" "data p" "child_server_socket ?w" "client ?w"])
      (use assms(5,7,8) wb(4) in auto)
  have t: "take (nat (n + 7)) (data p) = d" using wb(5) ld k by simp
  have "send_chunk window (Some c) bs n w = Ok (n + 7, wb\<lparr>current := s\<rparr>)
      (w\<lparr>heap_no := heap_no w + 2, pmgr := pm, send_no := j,
         sent := sent w @ [(child_server_socket w, client w, d)]\<rparr>)"
    using pdu(1) ins us sn(1) assms(9) sq t by (simp add: send_chunk_def r)
  moreover have "is_data_pdu d (word_of_int s) (take (nat n) c)" using pdu(3) assms(9) by (simp add: d_def)
  ultimately show ?thesis
    using sn(2,3) wb by (intro that [where d = d and wb = wb and pm = pm and k = j]) simp_all
qed

lemma sw_put_current:
  "sw_put (window\<lparr>current := c\<rparr>) s d = map_sum id (\<lambda>w. w\<lparr>current := c\<rparr>) (sw_put window s d)"
  by (cases "sw_buffer window ! nat (cmod s (sw_window_size window))")
    (simp_all add: sw_put_def insertPacketIntoWindow_def sender_index_def check_def slot_def Let_def)

lemma put_all_current:
  "sender_ring.put_all (window\<lparr>current := c\<rparr>) s ds = Inr wc \<Longrightarrow>
     \<exists>wd. sender_ring.put_all window s ds = Inr wd \<and> wc = wd\<lparr>current := current wc\<rparr>"
proof (induction ds arbitrary: window s)
  case Nil
  then show ?case by auto
next
  case (Cons d ds)
  obtain wb where wb: "sw_put window s d = Inr wb"
    using Cons.prems by (cases "sw_put window s d") (auto simp: sw_put_current)
  then have "sender_ring.put_all (wb\<lparr>current := c\<rparr>) (s + 1) ds = Inr wc"
    using Cons.prems by (simp add: sw_put_current)
  with Cons.IH wb show ?case by simp
qed

text \<open>One round of the loop, and then a run of rounds.\<close>

lemma fill_window_step:
  assumes "getDataChunk fp bs w = Ok (c, int m, fp') w1" "m \<noteq> 0"
    "send_chunk window c bs (int m) w1 = Ok (k, win) w2" "0 \<le> k" "current window < upper window"
  shows "fill_window bs window fp w =
    fill_window bs win fp' (w2\<lparr>data_sequence_number := data_sequence_number w2 + 1\<rparr>)"
  using assms by (simp add: fill_window.simps [of bs window fp w] canSendMorePackets_def)

lemma fill_one:
  assumes "lossless w" "plenty w" "full_window window" "0 < bs" "bs \<le> 255" "fp \<noteq> []"
    "current window < upper window"
    "data_sequence_number w = word_of_int s" "0 \<le> s" "s < 2147483647"
  obtains d wb w' where "fill_window bs window fp w = fill_window bs (wb\<lparr>current := s\<rparr>) (drop (nat bs) fp) w'"
    "sw_put window s d = Inr wb" "is_data_pdu d (word_of_int s) (take (nat bs) fp)" "burst [d] w w'"
    "full_window wb" "upper wb = upper window" "lower wb = lower window"
    "sw_window_size wb = sw_window_size window" "data_sequence_number w' = word_of_int (s + 1)"
proof -
  obtain c where c: "getDataChunk fp bs w = Ok (Some c, int (min (nat bs) (length fp)), drop (nat bs) fp)
      (w\<lparr>heap_no := heap_no w + 1\<rparr>)" "length c = nat bs" "take (min (nat bs) (length fp)) c = take (nat bs) fp"
    by (rule getDataChunk_plenty [OF assms(2,4,6)])
  let ?w1 = "w\<lparr>heap_no := heap_no w + 1\<rparr>" and ?n = "int (min (nat bs) (length fp))"
  have n: "0 < ?n" "?n \<le> bs" and n0: "min (nat bs) (length fp) \<noteq> 0" using assms(4,6) by auto
  have w1: "lossless ?w1" "plenty ?w1" "data_sequence_number ?w1 = word_of_int s"
    using assms(1,2,8) by (simp_all add: lossless_def channel_ok_def plenty_def)
  obtain d wb pm k where s: "send_chunk window (Some c) bs ?n ?w1 = Ok (?n + 7, wb\<lparr>current := s\<rparr>)
      (?w1\<lparr>heap_no := heap_no ?w1 + 2, pmgr := pm, send_no := k,
         sent := sent ?w1 @ [(child_server_socket ?w1, client ?w1, d)]\<rparr>)"
    "drop_channel pm" "m_ErrorRate pm = m_ErrorRate (pmgr ?w1)"
    "sw_put window s d = Inr wb" "is_data_pdu d (word_of_int s) (take (nat ?n) c)"
    "full_window wb" "lower wb = lower window" "upper wb = upper window"
    "sw_window_size wb = sw_window_size window"
    by (rule send_chunk_plenty [OF w1(1,2) assms(3,4,5) c(2) n w1(3) assms(9)]) (use assms(10) in auto)
  let ?w2 = "w\<lparr>heap_no := heap_no ?w1 + 2, pmgr := pm, send_no := k,
      sent := sent w @ [(child_server_socket w, client w, d)],
      data_sequence_number := data_sequence_number w + 1\<rparr>"
  have "burst [d] w ?w2" using burst_one [OF assms(1,2) s(2)] s(3) by simp
  moreover have "fill_window bs window fp w = fill_window bs (wb\<lparr>current := s\<rparr>) (drop (nat bs) fp) ?w2"
    using fill_window_step [OF c(1) n0 s(1) _ assms(7)] n(1) by simp
  moreover have "is_data_pdu d (word_of_int s) (take (nat bs) fp)" using s(5) c(3) by simp
  moreover have "data_sequence_number ?w2 = word_of_int (s + 1)" using assms(8) by simp
  ultimately show ?thesis using s(4,6-9) by (intro that [of wb ?w2 d]) blast+
qed

lemma fill_run:
  assumes "lossless w" "plenty w" "full_window window" "0 < bs" "bs \<le> 255"
    "n \<noteq> 0 \<Longrightarrow> current window < upper window \<and> (n - 1) * nat bs < length fp"
    "s + int n \<le> upper window + 1"
    "data_sequence_number w = word_of_int s" "0 \<le> s" "s + int n < 2147483647"
  shows "\<exists>ds wb w'. length ds = n
    \<and> fill_window bs window fp w = fill_window bs
        (if n = 0 then window else wb\<lparr>current := s + int n - 1\<rparr>) (drop (n * nat bs) fp) w'
    \<and> sender_ring.put_all window s ds = Inr wb
    \<and> (\<forall>i < n. is_data_pdu (ds ! i) (word_of_int (s + int i)) (take (nat bs) (drop (i * nat bs) fp)))
    \<and> burst ds w w' \<and> full_window wb \<and> upper wb = upper window \<and> lower wb = lower window
    \<and> sw_window_size wb = sw_window_size window \<and> data_sequence_number w' = word_of_int (s + int n)"
  using assms
proof (induction n arbitrary: window fp w s)
  case 0
  then show ?case by (intro exI [of _ "[]"] exI [of _ window] exI [of _ w]) (simp add: burst_def)
next
  case (Suc n)
  have ne: "fp \<noteq> []" "current window < upper window" using Suc.prems(6) by auto
  obtain d wb w1 where one: "fill_window bs window fp w = fill_window bs (wb\<lparr>current := s\<rparr>) (drop (nat bs) fp) w1"
    "sw_put window s d = Inr wb" "is_data_pdu d (word_of_int s) (take (nat bs) fp)" "burst [d] w w1"
    "full_window wb" "upper wb = upper window" "lower wb = lower window"
    "sw_window_size wb = sw_window_size window" "data_sequence_number w1 = word_of_int (s + 1)"
    by (rule fill_one [OF Suc.prems(1-5) ne Suc.prems(8,9)]) (use Suc.prems(10) in auto)
  have cur: "full_window (wb\<lparr>current := s\<rparr>)"
    using one(5) by (simp add: full_window_def sw_ok_def sw_slot_def)
  have more: "current (wb\<lparr>current := s\<rparr>) < upper (wb\<lparr>current := s\<rparr>) \<and>
      (n - 1) * nat bs < length (drop (nat bs) fp)" if "n \<noteq> 0"
    using Suc.prems(6,7) one(6) that by (cases n) auto
  have b1: "lossless w1" "plenty w1" using one(4) by (simp_all add: burst_def)
  have s1: "0 \<le> s + 1" "s + 1 + int n < 2147483647" using Suc.prems(9,10) by simp_all
  have Suc_bound: "s + 1 + int n \<le> upper (wb\<lparr>current := s\<rparr>) + 1" using Suc.prems(7) one(6) by simp
  obtain ds wc w2 where ih: "length ds = n"
    "fill_window bs (wb\<lparr>current := s\<rparr>) (drop (nat bs) fp) w1 = fill_window bs
        (if n = 0 then wb\<lparr>current := s\<rparr> else wc\<lparr>current := s + 1 + int n - 1\<rparr>) (drop (n * nat bs) (drop (nat bs) fp)) w2"
    "sender_ring.put_all (wb\<lparr>current := s\<rparr>) (s + 1) ds = Inr wc"
    "\<forall>i < n. is_data_pdu (ds ! i) (word_of_int (s + 1 + int i)) (take (nat bs) (drop (i * nat bs) (drop (nat bs) fp)))"
    "burst ds w1 w2" "full_window wc" "upper wc = upper (wb\<lparr>current := s\<rparr>)" "lower wc = lower (wb\<lparr>current := s\<rparr>)"
    "sw_window_size wc = sw_window_size (wb\<lparr>current := s\<rparr>)" "data_sequence_number w2 = word_of_int (s + 1 + int n)"
    using Suc.IH [OF b1 cur Suc.prems(4,5) more Suc_bound one(9) s1] by blast
  obtain wd where wd: "sender_ring.put_all wb (s + 1) ds = Inr wd" "wc = wd\<lparr>current := current wc\<rparr>"
    using put_all_current ih(3) by blast
  have fw: "full_window wd" "upper wd = upper window" "lower wd = lower window" "sw_window_size wd = sw_window_size window"
    using ih(6-9) one(6-8) arg_cong [OF wd(2), of full_window] arg_cong [OF wd(2), of upper]
      arg_cong [OF wd(2), of lower] arg_cong [OF wd(2), of sw_window_size]
    by (simp_all add: full_window_def sw_ok_def sw_slot_def)
  have "fill_window bs window fp w =
      fill_window bs (wd\<lparr>current := s + int (Suc n) - 1\<rparr>) (drop (Suc n * nat bs) fp) w2"
  proof (cases "n = 0")
    case True
    then have "wd = wb" using wd(1) ih(1) by simp
    then show ?thesis using one(1) ih(2) True by simp
  next
    case False
    have "wc\<lparr>current := s + 1 + int n - 1\<rparr> = wd\<lparr>current := s + int n\<rparr>"
      by (subst wd(2)) simp
    then show ?thesis using one(1) ih(2) False by (simp add: add.commute)
  qed
  moreover have "is_data_pdu ((d # ds) ! i) (word_of_int (s + int i)) (take (nat bs) (drop (i * nat bs) fp))"
    if "i < Suc n" for i
    using that one(3) ih(4) by (cases i) (auto simp: algebra_simps)
  moreover have "burst (d # ds) w w2" using burst_append [OF one(4) ih(5)] by simp
  moreover have "sender_ring.put_all window s (d # ds) = Inr wd" using one(2) wd(1) by simp
  ultimately show ?case
    using fw ih(1,10) by (intro exI [of _ "d # ds"] exI [of _ wd] exI [of _ w2]) (simp add: algebra_simps)
qed

section \<open>Chunks\<close>

lemma concat_chunks:
  "concat (map (\<lambda>i. take b (drop (i * b) xs)) [0..<n]) = take (n * b) xs"
proof (induction n)
  case (Suc n)
  have "take (Suc n * b) xs = take (n * b) xs @ take b (drop (n * b) xs)"
    using take_add [of "n * b" b xs] by (simp add: add.commute)
  with Suc show ?case by simp
qed simp

lemma concat_payloads:
  assumes "length ds = n" "\<And>i. i < n \<Longrightarrow> drop 7 (ds ! i) = take b (drop (i * b) xs)"
  shows "concat (map (drop 7) ds) = take (n * b) xs"
proof -
  have "map (drop 7) ds = map (\<lambda>i. take b (drop (i * b) xs)) [0..<n]"
    using assms by (intro nth_equalityI) simp_all
  then show ?thesis by (simp add: concat_chunks)
qed

lemma getDataChunk_eof:
  assumes "plenty w" "0 < bs"
  shows "getDataChunk [] bs w = Ok (None, 0, []) (w\<lparr>heap_no := heap_no w + 1\<rparr>)"
proof -
  obtain b where "malloc (nat bs) w = Ok (Some b) (w\<lparr>heap_no := heap_no w + 1\<rparr>)"
    by (rule malloc_plenty [OF assms(1)])
  then show ?thesis using assms(2) by (simp add: getDataChunk_def)
qed

text \<open>The number of chunks of a file.\<close>

definition chunk_count :: "int \<Rightarrow> byte list \<Rightarrow> nat" where
  "chunk_count bs fp = (length fp + nat bs - 1) div nat bs"

lemma chunk_count_bounds:
  assumes "0 < bs"
  shows "length fp \<le> chunk_count bs fp * nat bs"
    "chunk_count bs fp \<noteq> 0 \<Longrightarrow> (chunk_count bs fp - 1) * nat bs < length fp"
    "length fp \<le> m * nat bs \<Longrightarrow> chunk_count bs fp \<le> m"
proof -
  let ?b = "nat bs"
  have b: "0 < ?b" using assms by simp
  have d: "chunk_count bs fp * ?b + (length fp + ?b - 1) mod ?b = length fp + ?b - 1"
    by (simp add: chunk_count_def)
  have m: "(length fp + ?b - 1) mod ?b < ?b" using b by simp
  show "length fp \<le> chunk_count bs fp * ?b" using d m b by linarith
  show "(chunk_count bs fp - 1) * ?b < length fp" if "chunk_count bs fp \<noteq> 0"
  proof -
    have "(chunk_count bs fp - 1) * ?b + ?b = chunk_count bs fp * ?b"
      using that by (cases "chunk_count bs fp") simp_all
    then show ?thesis using d b by linarith
  qed
  show "chunk_count bs fp \<le> m" if "length fp \<le> m * ?b"
  proof -
    have "(length fp + ?b - 1) div ?b \<le> (m * ?b + (?b - 1)) div ?b"
      using that b by (intro div_le_mono) simp
    also have "\<dots> = m" using div_less [of "?b - 1" ?b] div_mult_self3 [of ?b m "?b - 1"] b by simp
    finally show ?thesis using b by (simp add: chunk_count_def)
  qed
qed

section \<open>Sliding onto released slots\<close>

lemma acknowledgePacket_eq:
  assumes "sw_ok window" "0 \<le> r"
  shows "\<exists>w1. acknowledgePacket window r = Inr w1 \<and> sw_ok w1 \<and> sw_window_size w1 = sw_window_size window
    \<and> lower w1 = lower window \<and> upper w1 = upper window \<and> current w1 = current window"
proof (cases "sw_slot window r")
  case None
  then show ?thesis
    using assms sender_slot_eq(1,2) [OF assms] by (simp add: acknowledgePacket_def)
next
  case (Some p)
  have "length (data p) = 1407" by (rule sw_okD(3) [OF assms(1) Some])
  then have "sw_ok (window\<lparr>sw_buffer := (sw_buffer window)[nat (r mod sw_window_size window) := Some (p\<lparr>ACK := 1\<rparr>)]\<rparr>)"
    by (intro sw_ok_update [OF assms(1)]) auto
  then show ?thesis
    using Some sender_slot_eq(1,2) [OF assms] by (simp add: acknowledgePacket_def)
qed

lemma insert_into_released:
  assumes "sw_ok window" "0 \<le> s" "sw_slot window s = None"
  shows "insertPacketIntoWindow window s d n = Inl NullDeref"
  using assms sender_slot_eq(1,2) [OF assms(1,2)] by (simp add: insertPacketIntoWindow_def)

lemma fill_released_faults:
  assumes "plenty w" "sw_ok window" "0 < bs" "bs \<le> 255" "fp \<noteq> []" "current window < upper window"
    "data_sequence_number w = word_of_int s" "0 \<le> s" "s < 2147483648" "sw_slot window s = None"
  shows "\<exists>w'. fill_window bs window fp w = Stop (Faulted NullDeref) w'"
proof -
  obtain c where c: "getDataChunk fp bs w = Ok (Some c, int (min (nat bs) (length fp)), drop (nat bs) fp)
      (w\<lparr>heap_no := heap_no w + 1\<rparr>)" "length c = nat bs"
    by (rule getDataChunk_plenty [OF assms(1,3,5)])
  let ?w1 = "w\<lparr>heap_no := heap_no w + 1\<rparr>"
  define m where "m = min (nat bs) (length fp)"
  have n: "0 < int m" "int m \<le> bs" "m \<noteq> 0" using assms(3,5) by (auto simp: m_def)
  have p: "plenty ?w1" using assms(1) by (simp add: plenty_def)
  obtain pdu where pdu: "build_data_pdu (Some c) bs (int m) ?w1 = Ok pdu (?w1\<lparr>heap_no := heap_no ?w1 + 2\<rparr>)"
    by (rule build_data_pdu_plenty [OF p assms(3,4) c(2) n(1,2)])
  have "sint (data_sequence_number w) = s" using sint_of_int assms(7-9) by simp
  then have "send_chunk window (Some c) bs (int m) ?w1
      = Stop (Faulted NullDeref) (?w1\<lparr>heap_no := heap_no ?w1 + 2\<rparr>)"
    using pdu insert_into_released [OF assms(2,8,10)] by (simp add: send_chunk_def)
  then show ?thesis
    using c(1) n(3) assms(6)
    by (simp add: fill_window.simps [of bs window fp w] canSendMorePackets_def m_def [symmetric])
qed

section \<open>The lowest unacknowledged packet\<close>

lemma lowest_unacked_eq:
  assumes "sw_ok window" "0 \<le> a" "a \<le> t" "t < a + int n" "sw_slot window t = Some p" "ACK p = 0"
    "\<And>u q. a \<le> u \<Longrightarrow> u < t \<Longrightarrow> sw_slot window u = Some q \<Longrightarrow> ACK q \<noteq> 0"
  shows "lowest_unacked window a n = Inr (Some p)"
  using assms
proof (induction n arbitrary: a)
  case (Suc n)
  show ?case
  proof (cases "a = t")
    case True
    then show ?thesis using Suc.prems sender_slot_eq(3) [OF assms(1) Suc.prems(2)] by simp
  next
    case False
    have "lowest_unacked window (a + 1) n = Inr (Some p)"
    proof (rule Suc.IH)
      show "ACK q \<noteq> 0" if "a + 1 \<le> u" "u < t" "sw_slot window u = Some q" for u q
        using Suc.prems(7) [of u q] that by simp
    qed (use Suc.prems False in auto)
    then show ?thesis
      using Suc.prems(7) [of a] False Suc.prems(3) sender_slot_eq(3) [OF assms(1) Suc.prems(2)]
      by (auto split: option.split)
  qed
qed simp

context process_effects
begin

lemma R_server_loop [simp]: "R w (final (server_loop s p buf w))"
proof (induction s p buf w rule: server_loop.induct)
  case (1 s p buf w)
  then show ?case
    unfolding server_loop.simps [of s p buf w] by (auto intro!: bnd_final)
qed

end

lemma server_loop_no_return: "server_loop s p buf w \<noteq> Ok u w'"
proof (induction s p buf w rule: server_loop.induct)
  case (1 s p buf w)
  then show ?case
    unfolding server_loop.simps [of s p buf w] by (auto simp: bnd_Ok_iff)
qed

text \<open>A concrete server process with an accepting network that drops nothing.\<close>

definition idle_server :: "(byte list \<rightharpoonup> byte list) \<Rightarrow> (int \<times> int list) list \<Rightarrow> recv_event list \<Rightarrow> int list \<Rightarrow> server_proc" where
  "idle_server files pq rq sq =
     \<lparr>pset = \<lparr>pollFileDescriptors = [\<lparr>fd = 0, events = 0, revents = 0\<rparr>, \<lparr>fd = 0, events = 0, revents = 0\<rparr>],
              maxFileDescriptor = 0, currentPollSetSize = 2\<rparr>,
      pmgr = \<lparr>m_ErrorRate = 0, m_MsgNo = 0, m_ErrorCase_Constant = [], m_ErrorCase_Chance = [],
              rand_seed = 0, rand_pos = 0, nextSeed = 1, env_ErrRate = False, env_ErrDrop = False,
              env_ErrFlip = False, env_SeedRand = False\<rparr>,
      poll_q = pq, recv_q = rq, send_ok = (\<lambda>_. True), send_no = 0, sent = [], closed = [],
      sys_q = sq, sys_log = [], addr_info = (\<lambda>_. Some 1), fs = files,
      writable = (\<lambda>_. True), heap_fn = (\<lambda>_. Some (\<lambda>_. 0)), heap_no = 0,
      drand48 = (\<lambda>_ _. 1 / 2), to_float = (\<lambda>r. r), to_double = (\<lambda>r. r), time_now = 0,
      stack_junk = (\<lambda>_. 0), static_next = 0,
      child_server_socket = 4, data_sequence_number = 0, client = \<lparr>sin6_addr = 9, sin6_port = 7\<rparr>\<rparr>"

lemma idle_server_facts [simp]:
  "lossless (idle_server files pq rq sq)" "plenty (idle_server files pq rq sq)"
  "data_sequence_number (idle_server files pq rq sq) = 0" "fs (idle_server files pq rq sq) = files"
  by (simp_all add: lossless_def channel_ok_def drop_channel_def plenty_def idle_server_def)

section \<open>Properties\<close>

text \<open>
  The server is read-only and never returns: no run of \<open>main\<close>, parent or
  child, changes any file, and \<open>main\<close> has no normal return.
\<close>

theorem server_never_writes_and_never_returns:
  "fs (final (Server.main argv w)) = fs w \<and>
   (case Server.main argv w of Ok _ _ \<Rightarrow> False | Stop _ _ \<Rightarrow> True)"
proof -
  let ?w = "w\<lparr>child_server_socket := 0, data_sequence_number := 0\<rparr>"
  have c: "fs (final (checkArgs argv u)) = fs u" for u by (auto simp: checkArgs_def)
  have s: "fs (final (setupPollSet u)) = fs u" for u :: server_proc
    by (auto simp: setupPollSet_def on_pset_def split: res.split)
  have r: "fs (final m) = fs u" if "polls_consumed u (final m)" for m :: "(server_proc, 'x) res" and u
    using that by (simp add: polls_consumed_def)
  note same = r [OF polling.R_udpServerSetup] r [OF polling.R_addToPollSet] r [OF polling.R_server_loop]
  have "fs (final (Server.main argv w)) = fs ?w"
    unfolding main_def Let_def
    by (intro final_bnd [where R = "\<lambda>u v. fs v = fs u"])
      (use c [of ?w] s same in \<open>auto simp: init_errors_def\<close>)
  moreover have "Server.main argv w \<noteq> Ok u v" for u v
    by (auto simp: main_def Let_def bnd_Ok_iff server_loop_no_return)
  ultimately show ?thesis by (simp split: res.split)
qed



lemma small_file_sent:
  assumes "lossless w" "plenty w" "data_sequence_number w = 0" "full_window window" "current window = 0" "upper window = int W"
    and "0 < bs" "bs \<le> 255" "0 < W" "W < 2147483000" "length fp \<le> W * nat bs"
  obtains ds w' where "send_data_loop bs window fp w = Ok WAIT_ON_EOF_ACK w'"
    "length ds = chunk_count bs fp" "concat (map (drop 7) ds) = fp"
    "\<forall>i < length ds. is_data_pdu (ds ! i) (word_of_nat i) (take (nat bs) (drop (i * nat bs) fp))"
    "sent w' = sent w @ map (\<lambda>d. (child_server_socket w, client w, d)) ds"
    "recv_q w' = recv_q w" "poll_q w' = poll_q w"
proof -
  let ?n = "chunk_count bs fp"
  note c = chunk_count_bounds [OF assms(7), of fp]
  have n: "?n \<le> W" by (rule c(3) [OF assms(11)])
  obtain ds wb w1 where r: "length ds = ?n"
    "fill_window bs window fp w = fill_window bs
        (if ?n = 0 then window else wb\<lparr>current := 0 + int ?n - 1\<rparr>) (drop (?n * nat bs) fp) w1"
    "\<forall>i < ?n. is_data_pdu (ds ! i) (word_of_int (0 + int i)) (take (nat bs) (drop (i * nat bs) fp))"
    "burst ds w w1" "upper wb = upper window"
    using fill_run [OF assms(1,2,4,7,8), of ?n fp 0] c(2) n assms(3,5,6,9,10) by auto
  have e: "drop (?n * nat bs) fp = []" using c(1) by simp
  have pl: "plenty w1" using r(4) by (simp add: burst_def)
  let ?w2 = "w1\<lparr>heap_no := heap_no w1 + 1\<rparr>"
  have "\<exists>x. fill_window bs window fp w = Ok (Some WAIT_ON_EOF_ACK, x, []) ?w2"
    unfolding r(2) e using getDataChunk_eof [OF pl assms(7)] r(5) n assms(5,6,9)
    by (subst fill_window.simps) (auto simp: canSendMorePackets_def)
  then have "send_data_loop bs window fp w = Ok WAIT_ON_EOF_ACK ?w2"
    by (auto simp: send_data_loop.simps [of bs window fp])
  moreover have "concat (map (drop 7) ds) = fp"
    using concat_payloads [of ds ?n "nat bs" fp] r(1,3) c(1) by (simp add: is_data_pdu_def)
  ultimately show ?thesis using r(1,3,4) by (intro that [of ?w2 ds]) (simp_all add: burst_def)
qed



text \<open>
  C14. Sliding the window crashes the child: after the first burst (window \<open>W\<close>,
  \<open>current = W\<close>, next number \<open>W + 1\<close>), the first RR whose header
  carries a number of at least 1 is processed normally and opens the window, but it
  releases the slot of the next packet and nothing allocates it again; if any
  byte of the file is left, the next round of the fill loop dereferences NULL.
\<close>

theorem opening_the_window_crashes:
  assumes "plenty w" "0 < bs" "bs \<le> 255" "fp \<noteq> []"
    and "sw_ok window" "sw_window_size window = int W" "lower window = 0" "current window = int W"
    and "data_sequence_number w = word_of_nat (W + 1)"
    and "received > 0" "buf ! 6 = 5" "getSequenceFromBuffer buf = word_of_nat r"
    and "1 \<le> r" "r + W < 2147483000"
  shows "\<exists>window' w'. handle_control received buf window w = Ok window' w \<and> canSendMorePackets window'
    \<and> fill_window bs window' fp w = Stop (Faulted NullDeref) w'"
proof -
  have W: "0 < int W" using assms(5,6) by (auto simp: sw_ok_def)
  obtain w1 where a: "acknowledgePacket window (int r) = Inr w1" "sw_ok w1"
      "sw_window_size w1 = int W" "lower w1 = 0" "current w1 = int W"
    using acknowledgePacket_eq [OF assms(5), of "int r"] assms(6-8) by auto
  obtain w2 where b: "advanceSenderWindow w1 (int r + 1) = Inr w2" "sw_ok w2" "lower w2 = int r + 1"
      "upper w2 = int r + 1 + int W - 1" "current w2 = int W" "sw_window_size w2 = int W"
      "\<And>t. sw_slot w2 t = (if \<exists>k. 0 \<le> k \<and> k < int r + 1 \<and> int W dvd (t - k) then None else sw_slot w1 t)"
    using advanceSenderWindow_eq [OF a(2), of "int r + 1"] a(3-5) assms(14) by auto
  have "sint (word_of_nat r :: u32) = int r" using sint_of_int [of "int r"] assms(14) by simp
  moreover have "sint (word_of_nat r + 1 :: u32) = int r + 1"
    using sint_of_int [of "int r + 1"] assms(14) by simp
  ultimately have h: "handle_control received buf window w = Ok w2 w"
    using assms(10-12) a(1) b(1) by (simp add: handle_control_def)
  have c: "current w2 < upper w2" using b(4,5) assms(13) by simp
  have "\<exists>k. 0 \<le> k \<and> k < int r + 1 \<and> int W dvd (int W + 1 - k)"
    using assms(13) by (intro exI [of _ 1]) simp
  then have "sw_slot w2 (int W + 1) = None" using b(7) [of "int W + 1"] by simp
  moreover have "data_sequence_number w = word_of_int (int W + 1)" using assms(9) by (simp add: add.commute)
  ultimately obtain w' where "fill_window bs w2 fp w = Stop (Faulted NullDeref) w'"
    using fill_released_faults [OF assms(1) b(2) assms(2,3,4) c, of "int W + 1"] assms(14) by auto
  with h c show ?thesis by (auto simp: canSendMorePackets_def)
qed

theorem opening_the_window_crashes_witness:
  "\<exists>window window' w'. sw_window_size window = 2 \<and>
     handle_control 7 (bytes32 (htonl 1) @ [0, 0, 5]) window
       ((idle_server Map.empty [] [] [])\<lparr>data_sequence_number := 3\<rparr>) =
       Ok window' ((idle_server Map.empty [] [] [])\<lparr>data_sequence_number := 3\<rparr>) \<and>
     fill_window 4 window' [65] ((idle_server Map.empty [] [] [])\<lparr>data_sequence_number := 3\<rparr>)
       = Stop (Faulted NullDeref) w'"
proof -
  let ?w = "(idle_server Map.empty [] [] [])\<lparr>data_sequence_number := 3\<rparr>"
  obtain window k where w: "initSenderWindow (\<lambda>_. Some (\<lambda>_. 0)) 0 2 = (Some window, k)" "sw_ok window"
      "lower window = 0" "upper window = 2" "current window = 0" "sw_window_size window = 2"
    by (rule initSenderWindow_ok [of 0 "\<lambda>_. Some (\<lambda>_. 0)" 2]) auto
  have ok: "sw_ok (window\<lparr>current := 2\<rparr>)" using w(2) by (simp add: sw_ok_def)
  have p: "plenty ?w" by (simp add: plenty_def idle_server_def)
  have "\<exists>window' w'. handle_control 7 (bytes32 (htonl 1) @ [0, 0, 5]) (window\<lparr>current := 2\<rparr>) ?w = Ok window' ?w
    \<and> canSendMorePackets window' \<and> fill_window 4 window' [65] ?w = Stop (Faulted NullDeref) w'"
    by (rule opening_the_window_crashes [OF p _ _ _ ok, where W = 2 and r = 1])
      (use w in \<open>simp_all add: getSequenceFromBuffer_head nth_append\<close>)
  then obtain window' w' where "handle_control 7 (bytes32 (htonl 1) @ [0, 0, 5]) (window\<lparr>current := 2\<rparr>) ?w = Ok window' ?w"
      "fill_window 4 window' [65] ?w = Stop (Faulted NullDeref) w'" by blast
  moreover have "sw_window_size (window\<lparr>current := 2\<rparr>) = 2" using w(6) by simp
  ultimately show ?thesis by blast
qed

text \<open>
  On a timeout the child resends the right packet, but not the right bytes: of the
  packets in the window it picks the lowest one that is present and unacknowledged and
  sends it to the client with 7 bytes more than were sent the first time, because
  \<open>data_size\<close> already counts the header.
\<close>

theorem timeout_resends_lowest_unacked:
  assumes "lossless w" "sw_ok window" "0 \<le> lower window" "lower window \<le> t" "t \<le> upper window"
    and "sw_slot window t = Some p" "ACK p = 0" "0 \<le> data_size p" "data_size p \<le> 1400"
    and "\<And>u q. lower window \<le> u \<Longrightarrow> u < t \<Longrightarrow> sw_slot window u = Some q \<Longrightarrow> ACK q \<noteq> 0"
  shows "\<exists>w'. resend_lowest window w = Ok () w'
    \<and> sent w' = sent w @ [(child_server_socket w, client w, take (nat (data_size p) + 7) (data p))]"
proof -
  have l: "lowest_unacked window (lower window) (nat (upper window - lower window + 1)) = Inr (Some p)"
    by (rule lowest_unacked_eq [OF assms(2,3,4) _ assms(6,7,10)]) (use assms(4,5) in auto)
  have n: "s32 (data_size p + 7) = data_size p + 7" using assms(8,9) by (simp add: s32_id int_range_def)
  have d: "length (data p) = 1407" by (rule sw_okD(3) [OF assms(2,6)])
  obtain pm k where "sendtoErr (child_server_socket w) (data p) (data_size p + 7) (client w) w =
      Ok (data_size p + 7) (w\<lparr>pmgr := pm, send_no := k,
        sent := sent w @ [(child_server_socket w, client w, take (nat (data_size p + 7)) (data p))]\<rparr>)"
    by (rule sendtoErr_lossless [OF assms(1), of "data_size p + 7" "data p" "child_server_socket w" "client w"])
      (use assms(8,9) d in auto)
  moreover have "nat (data_size p + 7) = nat (data_size p) + 7" using assms(8) by simp
  ultimately show ?thesis using l n by (simp add: resend_lowest_def resend_def)
qed

theorem timeout_resends_lowest_unacked_witness:
  "\<exists>w'. resend_lowest \<lparr>sw_buffer = [Some \<lparr>sequence_number = 0, data_size = 8, valid = 0, ACK = 0,
        data = replicate 1407 65\<rparr>], sw_window_size = 1, lower = 0, upper = 1, current = 1\<rparr>
      (idle_server Map.empty [] [] []) = Ok () w' \<and> map (\<lambda>(_, _, d). length d) (sent w') = [15]"
proof -
  let ?p = "\<lparr>sequence_number = 0, data_size = 8, valid = 0, ACK = 0, data = replicate 1407 65\<rparr>"
  let ?s = "\<lparr>sw_buffer = [Some ?p], sw_window_size = 1, lower = 0, upper = 1, current = 1\<rparr>"
  have ok: "sw_ok ?s" "sw_slot ?s 0 = Some ?p"
    by (simp_all add: sw_ok_def MAX_PACKET_SIZE_def sw_slot_def)
  have s: "sent (idle_server Map.empty [] [] []) = []" by (simp add: idle_server_def)
  have l: "lossless (idle_server Map.empty [] [] [])" by simp
  obtain w' where "resend_lowest ?s (idle_server Map.empty [] [] []) = Ok () w'"
    "sent w' = sent (idle_server Map.empty [] [] []) @ [(child_server_socket (idle_server Map.empty [] [] []),
       client (idle_server Map.empty [] [] []), take (nat (data_size ?p) + 7) (data ?p))]"
    using timeout_resends_lowest_unacked [OF l ok(1) _ _ _ ok(2)] by auto
  then show ?thesis using s by auto
qed

text \<open>
  Opening the source: when the file exists the child's answer is the sealed packet
  with flag 9 and it moves on to SEND_DATA; when it does not exist the answer
  has flag 32, and whatever the client does the child ends in DONE (or blocks in
  one of at most ten polls).
\<close>

theorem source_file_answer:
  assumes "lossless w" "c_string name = Inr path"
  shows "case fs w path of
      Some _ \<Rightarrow> (\<exists>w' d. doGetFilenameState name w = Ok SEND_DATA w' \<and> d ! 6 = 9 \<and> length d = 7
        \<and> calculateFilenameChecksumACK d = 0
        \<and> sent w' = sent w @ [(child_server_socket w, client w, d)])
    | None \<Rightarrow> (\<exists>w' d. d ! 6 = 32 \<and> length d = 7 \<and> calculateFilenameChecksumACK d = 0
        \<and> sent w' = sent w @ [(child_server_socket w, client w, d)]
        \<and> doGetFilenameState name w = await_error_ack 10 w'
        \<and> (case doGetFilenameState name w of Ok st _ \<Rightarrow> st = DONE | Stop _ _ \<Rightarrow> True))"
proof -
  have seal: "\<exists>w' d. send_sealed (bytes32 (ntohl 1) @ [0, 0, f]) w = Ok 7 w' \<and> d ! 6 = f \<and> length d = 7
      \<and> calculateFilenameChecksumACK d = 0 \<and> sent w' = sent w @ [(child_server_socket w, client w, d)]" for f
  proof -
    let ?b = "bytes32 (ntohl 1) @ [0, 0, f]"
    define d where "d = makeFilenameACKAfterChecksum ?b (calculateFilenameChecksumACK ?b)"
    have d: "length d = 7" "d ! 6 = f" by (simp_all add: d_def makeFilenameACKAfterChecksum_def memcpy_at_def nth_append)
    have z: "calculateFilenameChecksumACK d = 0"
      unfolding d_def by (rule ack_answer.sealed_verifies(1)) (simp_all add: load16_def)
    obtain pm k where "sendtoErr (child_server_socket w) d 7 (client w) w = Ok 7 (w\<lparr>pmgr := pm, send_no := k,
        sent := sent w @ [(child_server_socket w, client w, take (nat 7) d)]\<rparr>)"
      by (rule sendtoErr_lossless [OF assms(1), of 7 d "child_server_socket w" "client w"]) (use d in auto)
    then show ?thesis using d z by (auto simp: send_sealed_def d_def [symmetric])
  qed
  show ?thesis
  proof (cases "fs w path")
    case (Some c)
    then show ?thesis using seal [of 9] assms(2)
      by (auto simp: doGetFilenameState_def fopen_source_def fopen_rb_def ack_layouts)
  next
    case None
    obtain w' d where s: "send_sealed makeERRORFilenameACKBeforeChecksum w = Ok 7 w'" "d ! 6 = 32" "length d = 7"
        "calculateFilenameChecksumACK d = 0" "sent w' = sent w @ [(child_server_socket w, client w, d)]"
      using seal [of 32] by (auto simp: ack_layouts)
    have e: "doGetFilenameState name w = await_error_ack 10 w'"
      using None assms(2) s(1) by (simp add: doGetFilenameState_def fopen_source_def fopen_rb_def)
    moreover have "case await_error_ack 10 w' of Ok st _ \<Rightarrow> st = DONE | Stop _ _ \<Rightarrow> True"
      by (auto split: res.split dest: await_error_ack_state)
    ultimately show ?thesis using None s(2-5) by auto
  qed
qed

theorem source_file_answer_witness:
  "(\<exists>w'. doGetFilenameState [97, 0] (idle_server [[97] \<mapsto> [65]] [] [] []) = Ok SEND_DATA w') \<and>
   (\<exists>w'. length (sent w') = 1 \<and>
      doGetFilenameState [98, 0] (idle_server [[97] \<mapsto> [65]] [] [] []) = await_error_ack 10 w')"
proof -
  let ?w = "idle_server [[97] \<mapsto> [65]] [] [] []"
  have c: "c_string [97, 0] = Inr [97]" "c_string [98, 0] = Inr [98]"
    by (simp_all add: c_string_def cstring_def)
  have l: "lossless ?w" "sent ?w = []" by (simp, simp add: idle_server_def)
  have first: "\<exists>w'. doGetFilenameState [97, 0] ?w = Ok SEND_DATA w'"
    using source_file_answer [OF l(1) c(1)] by auto
  obtain w' d where second: "sent w' = sent ?w @ [(child_server_socket ?w, client ?w, d)]"
      "doGetFilenameState [98, 0] ?w = await_error_ack 10 w'"
    using source_file_answer [OF l(1) c(2)] by auto
  have "length (sent w') = 1" using second(1) l(2) by simp
  then show ?thesis using first second(2) by blast
qed

end
