(* ===== verification/ServerSends.thy ===== *)
theory ServerSends
  imports Server
begin

text \<open>
  What leaves the server: every datagram that a child process hands to the network is
  one of its three answers or carries one chunk of the source file under the number of
  that chunk, whatever it receives, whenever polls time out, and also when
  sends fail or memory runs out.
\<close>

section \<open>Chunks and the datagrams that carry them\<close>

definition chunk :: "byte list \<Rightarrow> int \<Rightarrow> nat \<Rightarrow> byte list" where
  "chunk src bs k = take (nat bs) (drop (k * nat bs) src)"

text \<open>A resent packet has seven bytes too many behind its payload.\<close>

definition carries_chunk :: "byte list \<Rightarrow> int \<Rightarrow> byte list \<Rightarrow> bool" where
  "carries_chunk src bs d \<longleftrightarrow> (\<exists>k e. getSequenceFromBuffer d = word_of_nat k \<and> d ! 6 = 16
     \<and> chunk src bs k \<noteq> [] \<and> drop 7 d = chunk src bs k @ e \<and> (e = [] \<or> length e = 7))"

definition is_answer :: "byte list \<Rightarrow> bool" where
  "is_answer d \<longleftrightarrow> length d = 7 \<and> getSequenceFromBuffer d = 1 \<and> d ! 6 \<in> {9, 32, 33}"

definition from_child :: "byte list \<Rightarrow> int \<Rightarrow> byte list \<Rightarrow> bool" where
  "from_child src bs d \<longleftrightarrow> is_answer d \<or> carries_chunk src bs d"

text \<open>A packet of the window that holds a whole chunk with its header.\<close>

definition holds_chunk :: "byte list \<Rightarrow> int \<Rightarrow> Packet \<Rightarrow> bool" where
  "holds_chunk src bs p \<longleftrightarrow> (\<exists>k. getSequenceFromBuffer (data p) = word_of_nat k \<and> data p ! 6 = 16
     \<and> chunk src bs k \<noteq> [] \<and> data_size p = 7 + int (length (chunk src bs k))
     \<and> take (length (chunk src bs k)) (drop 7 (data p)) = chunk src bs k)"

lemma getSequenceFromBuffer_take: "4 \<le> n \<Longrightarrow> getSequenceFromBuffer (take n d) = getSequenceFromBuffer d"
  by (simp add: getSequenceFromBuffer_def load32_def)

text \<open>Sending it the first time, and again with seven bytes more.\<close>

lemma holds_chunk_sent:
  assumes "holds_chunk src bs p" "n = data_size p \<or> n = data_size p + 7" "n \<le> int (length (data p))"
  shows "carries_chunk src bs (take (nat n) (data p))"
proof -
  obtain k where k: "getSequenceFromBuffer (data p) = word_of_nat k" "data p ! 6 = 16"
      "chunk src bs k \<noteq> []" "data_size p = 7 + int (length (chunk src bs k))"
      "take (length (chunk src bs k)) (drop 7 (data p)) = chunk src bs k"
    using assms(1) by (auto simp: holds_chunk_def)
  let ?c = "chunk src bs k" and ?x = "drop 7 (data p)"
  have n: "nat n = 7 + length ?c \<or> nat n = 7 + (length ?c + 7)" using assms(2) k(4) by auto
  have "nat n \<le> length (data p)" using assms(3) by simp
  then have l: "nat n - 7 \<le> length ?x" by simp
  have d: "drop 7 (take (nat n) (data p)) = take (nat n - 7) ?x" by (simp add: drop_take)
  have "take (nat n - 7) ?x = ?c \<or> (\<exists>e. take (nat n - 7) ?x = ?c @ e \<and> length e = 7)"
    using n
  proof
    assume 2: "nat n = 7 + (length ?c + 7)"
    then have "nat n - 7 = length ?c + 7" by simp
    then have "take (nat n - 7) ?x = ?c @ take 7 (drop (length ?c) ?x)"
      by (metis take_add k(5))
    moreover have "length (take 7 (drop (length ?c) ?x)) = 7" using l 2 by simp
    ultimately show ?thesis by blast
  qed (use k(5) in simp)
  moreover have "getSequenceFromBuffer (take (nat n) (data p)) = word_of_nat k"
    using n k(1) by (auto simp: getSequenceFromBuffer_take)
  moreover have "take (nat n) (data p) ! 6 = 16" using n k(2) by auto
  ultimately show ?thesis using k(3) d unfolding carries_chunk_def by (metis append_Nil2)
qed

section \<open>What a child has done so far\<close>

text \<open>
  \<open>w0\<close> is the state in which the child begins: it has not touched a file, its
  counter is at packet \<open>n\<close>, and every datagram it has sent satisfies \<open>P\<close>.
\<close>

definition child_so_far :: "(byte list \<Rightarrow> bool) \<Rightarrow> server_proc \<Rightarrow> nat \<Rightarrow> server_proc \<Rightarrow> bool" where
  "child_so_far P w0 n w \<longleftrightarrow> drop_channel (pmgr w) \<and> fs w = fs w0
     \<and> data_sequence_number w = word_of_nat n
     \<and> (\<exists>ds. sent w = sent w0 @ ds \<and> (\<forall>e \<in> set ds. P (snd (snd e))))"

text \<open>The assertion for a call that only sends datagrams with \<open>P\<close>.\<close>

abbreviation keeps :: "(byte list \<Rightarrow> bool) \<Rightarrow> server_proc \<Rightarrow> nat \<Rightarrow> (server_proc, 'a) res \<Rightarrow> bool" where
  "keeps P w0 n m \<equiv> post m (\<lambda>_. child_so_far P w0 n) (child_so_far P w0 n)"

lemma so_far_same:
  "child_so_far P w0 n w \<Longrightarrow> pmgr w' = pmgr w \<Longrightarrow> fs w' = fs w \<Longrightarrow> sent w' = sent w \<Longrightarrow>
     data_sequence_number w' = data_sequence_number w \<Longrightarrow> child_so_far P w0 n w'"
  by (simp add: child_so_far_def)

lemma so_far_frame [simp]:
  "child_so_far P w0 n (w\<lparr>client := a\<rparr>) = child_so_far P w0 n w"
  "child_so_far P w0 n (w\<lparr>heap_no := h\<rparr>) = child_so_far P w0 n w"
  "child_so_far P w0 n (w\<lparr>pset := ps\<rparr>) = child_so_far P w0 n w"
  "child_so_far P w0 n (w\<lparr>closed := cs\<rparr>) = child_so_far P w0 n w"
  "child_so_far P w0 n (w\<lparr>sys_q := sq\<rparr>) = child_so_far P w0 n w"
  "child_so_far P w0 n (w\<lparr>sys_log := sl\<rparr>) = child_so_far P w0 n w"
  "child_so_far P w0 n (w\<lparr>child_server_socket := sk\<rparr>) = child_so_far P w0 n w"
  by (simp_all add: child_so_far_def)

named_theorems keeps_rules \<open>calls that send nothing, or only what the assertion allows\<close>

lemma keeps_pollCall [keeps_rules]: "child_so_far P w0 n w \<Longrightarrow> keeps P w0 n (pollCall t w)"
  unfolding post_final using final_pollCall [of t w] by (auto intro: so_far_same)

lemma keeps_recvfrom [keeps_rules]: "child_so_far P w0 n w \<Longrightarrow> keeps P w0 n (recvfrom b len w)"
  unfolding post_final using final_recvfrom [of b len w] by (auto intro: so_far_same)

lemma keeps_recvfrom_client [keeps_rules]: "child_so_far P w0 n w \<Longrightarrow> keeps P w0 n (recvfrom_client b len w)"
  unfolding recvfrom_client_def
  by (rule post_bnd [OF keeps_recvfrom]) (auto split: option.split)

lemma keeps_malloc [keeps_rules]: "child_so_far P w0 n w \<Longrightarrow> keeps P w0 n (malloc k w)"
  by (simp add: malloc_def so_far_same)

lemma keeps_sendtoErr:
  assumes "child_so_far P w0 n w" "0 < len \<Longrightarrow> len \<le> int (length buf) \<Longrightarrow> P (take (nat len) buf)"
  shows "keeps P w0 n (sendtoErr s buf len dest w)"
proof (cases "sendtoErr s buf len dest w")
  case (Ok r w')
  have c: "drop_channel (pmgr w)" using assms(1) by (simp add: child_so_far_def)
  note d = sendtoErr_drop_channel [OF Ok c]
  have f: "fs w' = fs w" "data_sequence_number w' = data_sequence_number w"
    using Ok by (auto elim!: sendtoErr_Ok)
  obtain ds where ds: "sent w = sent w0 @ ds" "\<forall>e \<in> set ds. P (snd (snd e))"
    using assms(1) by (auto simp: child_so_far_def)
  have "\<exists>ds. sent w' = sent w0 @ ds \<and> (\<forall>e \<in> set ds. P (snd (snd e)))"
    using d(5)
  proof
    assume "sent w' = sent w @ [(s, dest, take (nat len) buf)]"
    then show ?thesis
      using ds assms(2) [OF d(2,3)] by (intro exI [of _ "ds @ [(s, dest, take (nat len) buf)]"]) simp
  qed (use ds in auto)
  then show ?thesis using assms(1) d(1) f Ok by (simp add: child_so_far_def)
next
  case (Stop r w')
  then have "w' = w" by (auto simp: sendtoErr_def Let_def bnd_Stop_iff lift_Stop_iff lift_Ok_iff
        deliver_def split: if_splits)
  then show ?thesis using Stop assms(1) by simp
qed

section \<open>Filling the window\<close>

lemma final_lift [simp]: "final (lift m w) = w"
  by (cases m) simp_all

lemma build_data_pdu_layout:
  assumes "build_data_pdu (Some c) bs m w = Ok pdu w'"
  obtains cs h where "pdu = bytes32 (htonl (data_sequence_number w)) @ bytes16 cs @ [16] @ take (unat (word_of_int bs :: byte)) c"
    "w' = w\<lparr>heap_no := h\<rparr>"
proof -
  let ?b = "unat (word_of_int bs :: byte)"
  obtain g where g: "makeDataPacketBeforeChecksum (map_option (\<lambda>g. junk_bytes g 0 (7 + ?b)) (heap_fn w (heap_no w)))
      (data_sequence_number w) c (word_of_int bs) = Inr (Some g)"
    and p: "\<exists>cs. pdu = makeDataPacketAfterChecksum g cs" "\<exists>h. w' = w\<lparr>heap_no := h\<rparr>"
    using assms by (auto simp: build_data_pdu_def malloc_def lift_Ok_iff elim!: bnd_Ok_E deref.elims) blast
  then have "g = bytes32 (htonl (data_sequence_number w)) @ [0, 0] @ [16] @ take ?b c"
    using makeDataPacketBeforeChecksum_layout [of _ "word_of_int bs :: byte" c "data_sequence_number w"]
    by (cases "?b \<le> length c")
      (auto simp: junk_bytes_def makeDataPacketBeforeChecksum_def check_def Let_def split: option.splits if_splits)
  then show ?thesis using p that
    by (auto simp: makeDataPacketAfterChecksum_def memcpy_at_def)
qed

text \<open>The slots with an index in \<open>G\<close> are empty or hold a chunk.\<close>

definition window_so_far :: "byte list \<Rightarrow> int \<Rightarrow> nat set \<Rightarrow> SenderWindow \<Rightarrow> bool" where
  "window_so_far src bs G window \<longleftrightarrow> sw_window_size window < 2147483648
     \<and> int (length (sw_buffer window)) = sw_window_size window
     \<and> (\<forall>i \<in> G. i < length (sw_buffer window) \<longrightarrow> (\<forall>p. sw_buffer window ! i = Some p \<longrightarrow> holds_chunk src bs p))"

lemma window_so_far_put:
  assumes "window_so_far src bs G window" "insertPacketIntoWindow window s d n = Inr wb" "0 \<le> s"
    "take (nat n) d = bytes32 (htonl (word_of_nat k)) @ bytes16 cs @ [16] @ chunk src bs k"
    "chunk src bs k \<noteq> []" "n = 7 + int (length (chunk src bs k))"
  obtains p where "window_so_far src bs (insert (nat (s mod sw_window_size window)) G) wb"
    "sw_buffer wb ! nat (s mod sw_window_size window) = Some p" "data_size p = n" "holds_chunk src bs p"
    "0 < sw_window_size window" "sw_window_size wb = sw_window_size window" "upper wb = upper window"
proof -
  let ?i = "s mod sw_window_size window"
  note w = assms(1) [unfolded window_so_far_def]
  obtain p where p: "sw_window_size window \<noteq> 0" "slot (sw_buffer window) (cmod s (sw_window_size window)) = Inr (Some p)"
    "n \<le> int (length (data p))"
    "wb = window\<lparr>sw_buffer := (sw_buffer window)[nat (cmod s (sw_window_size window)) :=
       Some (p\<lparr>sequence_number := s, data := memcpy_at (data p) 0 (take (nat n) d), data_size := n, ACK := 0\<rparr>)]\<rparr>"
    using assms(2)
    by (auto simp: insertPacketIntoWindow_def sender_index_def sbind_Inr_iff check_def Let_def
        split: if_splits elim!: deref.elims)
  let ?p = "p\<lparr>sequence_number := s, data := memcpy_at (data p) 0 (take (nat n) d), data_size := n, ACK := 0\<rparr>"
  have W: "0 < sw_window_size window" using p(1) w by (metis of_nat_0_le_iff order_le_neq_trans)
  have c: "cmod s (sw_window_size window) = ?i" using assms(3) W by (simp add: cmod_nonneg)
  have i: "nat ?i < length (sw_buffer window)"
    using pos_mod_bound [OF W, of s] pos_mod_sign [OF W, of s] w by linarith
  have d: "data ?p = bytes32 (htonl (word_of_nat k)) @ bytes16 cs @ [16] @ chunk src bs k
      @ drop (7 + length (chunk src bs k)) (data p)"
    by (simp add: memcpy_at_def assms(4))
  have h: "holds_chunk src bs ?p"
    unfolding holds_chunk_def d using assms(5,6)
    by (intro exI [of _ k]) (simp add: getSequenceFromBuffer_head nth_append)
  have b: "sw_buffer wb = (sw_buffer window)[nat ?i := Some ?p]" using p(4) c by simp
  have "window_so_far src bs (insert (nat ?i) G) wb"
    using w i h p(4) unfolding window_so_far_def b by (auto simp: nth_list_update)
  then show ?thesis using that [of ?p] h i W b p(4) by simp
qed

lemma chunk_index:
  assumes "chunk src bs k \<noteq> []" "length src < 2147483648" "0 < bs"
  shows "int k < 2147483648"
proof -
  have "k * nat bs < length src" using assms(1) by (auto simp: chunk_def)
  moreover have "k * 1 \<le> k * nat bs" using assms(3) by (intro mult_le_mono2) simp
  ultimately show ?thesis using assms(2) by linarith
qed

abbreviation chunk_stored :: "byte list \<Rightarrow> int \<Rightarrow> nat set \<Rightarrow> SenderWindow \<Rightarrow> nat \<Rightarrow> nat \<Rightarrow> SenderWindow \<Rightarrow> Packet \<Rightarrow> bool" where
  "chunk_stored src bs G window k m wb p \<equiv> window_so_far src bs (insert (k mod nat (sw_window_size window)) G) wb
     \<and> sw_buffer wb ! (k mod nat (sw_window_size window)) = Some p \<and> data_size p = int m + 7 \<and> holds_chunk src bs p
     \<and> 0 < sw_window_size window \<and> sw_window_size wb = sw_window_size window \<and> upper wb = upper window"

lemma so_far_number:
  assumes "child_so_far P w0 k u" "int k < 2147483648"
  shows "data_sequence_number u = word_of_nat k" "sint (data_sequence_number u) = int k"
  using assms sint_of_int [of "int k"] by (simp_all add: child_so_far_def)

lemma build_data_pdu_so_far:
  assumes "child_so_far P w0 k w"
  shows "post (build_data_pdu (Some c) bs n w)
    (\<lambda>pdu u. child_so_far P w0 k u \<and> (\<exists>cs j. pdu = bytes32 (htonl (data_sequence_number w)) @ bytes16 cs @ [16] @ take j c))
    (child_so_far P w0 k)"
proof (cases "build_data_pdu (Some c) bs n w")
  case (Ok pdu u)
  show ?thesis
    by (rule build_data_pdu_layout [OF Ok]) (use Ok assms in auto)
next
  case (Stop r u)
  have "child_so_far P w0 k (final (build_data_pdu (Some c) bs n w))"
    using assms unfolding build_data_pdu_def
    by (intro final_bnd [where R = "\<lambda>_. child_so_far P w0 k"]) (auto simp: malloc_def lift_Ok_iff lift_Stop_iff)
  then show ?thesis using Stop by simp
qed

lemma pdu_is_stored:
  assumes "window_so_far src bs G window" "0 \<le> int k" "chunk src bs k \<noteq> []" "length (chunk src bs k) = m"
    and "take m c = chunk src bs k" "pdu = bytes32 (htonl (word_of_nat k)) @ bytes16 cs @ [16] @ take j c"
    and "insertPacketIntoWindow window (int k) pdu (int m + 7) = Inr wb"
  shows "\<exists>p. chunk_stored src bs G window k m wb p"
proof -
  have "int m + 7 \<le> int (length pdu)"
    using assms(7) by (auto simp: insertPacketIntoWindow_def sbind_Inr_iff check_def split: if_splits)
  then have "m \<le> length (take j c)" by (simp add: assms(6))
  then have "take m (take j c) = chunk src bs k" using assms(5) by (simp add: min_absorb1)
  then have t: "take (nat (int m + 7)) pdu = bytes32 (htonl (word_of_nat k)) @ bytes16 cs @ [16] @ chunk src bs k"
    by (simp add: assms(6) nat_add_distrib)
  have e: "nat (int k mod sw_window_size window) = k mod nat (sw_window_size window)" if "0 < sw_window_size window"
    using that nat_mod_distrib [of "int k" "sw_window_size window"] by simp
  show ?thesis
    by (rule window_so_far_put [OF assms(1,7,2) t assms(3)]) (use assms(4) e in auto)
qed

lemma stored_chunk_found:
  assumes "chunk_stored src bs G window k m wb p" "int k < 2147483648" "unsigned_slot wb (word_of_nat k) = Inr q"
  shows "q = p"
proof -
  let ?W = "sw_window_size window"
  have W: "0 < ?W" "?W < 2147483648" using assms(1) by (simp_all add: window_so_far_def)
  have "uint ((word_of_nat k :: u32) mod word_of_int ?W) = int k mod ?W"
    using word_mod_of_int [of "int k" ?W] assms(2) W by simp
  moreover have "0 \<le> int k mod ?W" "int k mod ?W < ?W" using W(1) by simp_all
  then have "int_range (int k mod ?W)" using W(2) unfolding int_range_def by linarith
  moreover have "nat (int k mod ?W) = k mod nat ?W"
    using nat_mod_distrib [of "int k" ?W] W(1) by simp
  ultimately show ?thesis
    using assms(1,3) by (auto simp: unsigned_slot_def sbind_Inr_iff slot_Inr_iff elim!: deref.elims)
qed

lemma send_chunk_sends:
  assumes "child_so_far (from_child src bs) w0 k w" "window_so_far src bs G window"
    "m = min (nat bs) (length fp)" "fp = drop (k * nat bs) src" "m \<noteq> 0"
    "length blk = nat bs" "0 < bs" "bs < 65536" "length src < 2147483648"
  shows "post (send_chunk window (Some (memcpy_at blk 0 (take m fp))) bs (int m) w)
    (\<lambda>(r, win) w'. child_so_far (from_child src bs) w0 k w'
       \<and> window_so_far src bs (insert (k mod nat (sw_window_size window)) G) win
       \<and> current win = int k \<and> upper win = upper window \<and> sw_window_size win = sw_window_size window)
    (child_so_far (from_child src bs) w0 k)"
proof -
  let ?c = "memcpy_at blk 0 (take m fp)" and ?P = "from_child src bs"
  have "chunk src bs k = take m fp" "length (chunk src bs k) = m"
    using assms(3,4) by (simp_all add: chunk_def min_def)
  then have ch: "chunk src bs k = take m fp" "chunk src bs k \<noteq> []" "length (chunk src bs k) = m"
    using assms(5) by (metis length_0_conv)+
  have k: "0 \<le> int k" "int k < 2147483648" using chunk_index [OF ch(2) assms(9,7)] by simp_all
  have n: "s32 (int m + 7) = int m + 7" using assms(3,8) by (simp add: s32_id int_range_def)
  note sq = so_far_number [OF _ k(2)]
  have c: "take m ?c = chunk src bs k" using ch(1,3) by (simp add: memcpy_at_def)
  show ?thesis
    unfolding send_chunk_def n
  proof (rule post_bnd [OF build_data_pdu_so_far [OF assms(1)]], elim conjE exE, rule post_bnd [OF post_lift
        [where Q = "\<lambda>wb u. child_so_far ?P w0 k u \<and> (\<exists>p. chunk_stored src bs G window k m wb p)"]])
    fix pdu u cs j wb
    assume u: "child_so_far ?P w0 k u"
      and pdu: "pdu = bytes32 (htonl (data_sequence_number w)) @ bytes16 cs @ [16] @ take j ?c"
      and ins: "insertPacketIntoWindow window (sint (data_sequence_number u)) pdu (int m + 7) = Inr wb"
    show "child_so_far ?P w0 k u \<and> (\<exists>p. chunk_stored src bs G window k m wb p)"
      using u pdu_is_stored [OF assms(2) k(1) ch(2,3) c pdu [unfolded sq(1) [OF assms(1)]] ins [unfolded sq(2) [OF u]]] by blast
  next
    fix pdu u cs j wb u'
    assume "child_so_far ?P w0 k u' \<and> (\<exists>p. chunk_stored src bs G window k m wb p)"
    then obtain p where u': "child_so_far ?P w0 k u'" "chunk_stored src bs G window k m wb p" by blast
    have us: "q = p" if "unsigned_slot wb (data_sequence_number u') = Inr q" for q
      by (rule stored_chunk_found [OF u'(2) k(2)]) (use that sq(1) [OF u'(1)] in simp)
    have sent: "keeps ?P w0 k (sendtoErr (child_server_socket u') (data p) (int m + 7) (client u') u')"
      by (rule keeps_sendtoErr [OF u'(1)]) (use holds_chunk_sent [of src bs p] u'(2) in \<open>simp add: from_child_def\<close>)
    show "post (bnd (lift (unsigned_slot wb (data_sequence_number u')) u') (\<lambda>p w.
        bnd (sendtoErr (child_server_socket w) (data p) (int m + 7) (client w) w) (\<lambda>bytes_sent w.
          Ok (bytes_sent, wb\<lparr>current := sint (data_sequence_number w)\<rparr>) w)))
      (\<lambda>(r, win) w'. child_so_far ?P w0 k w'
         \<and> window_so_far src bs (insert (k mod nat (sw_window_size window)) G) win
         \<and> current win = int k \<and> upper win = upper window \<and> sw_window_size win = sw_window_size window)
      (child_so_far ?P w0 k)"
      by (rule post_bnd [OF post_lift [where Q = "\<lambda>q v. q = p \<and> v = u'"]])
        (use u' us sq(2) sent in \<open>auto simp: post_bnd_iff window_so_far_def elim!: post_mono\<close>)
  qed (use assms(1) in auto)
qed

text \<open>
  The fill loop from packet \<open>k\<close> on. If it ends because the window is full, the
  packets from \<open>k\<close> up to the counter are in the window.
\<close>

abbreviation filled_up_to :: "byte list \<Rightarrow> int \<Rightarrow> nat set \<Rightarrow> SenderWindow \<Rightarrow> nat \<Rightarrow> nat \<Rightarrow> SenderWindow \<Rightarrow> byte list \<Rightarrow> bool" where
  "filled_up_to src bs G window k k' win fp \<equiv>
     fp = drop (k' * nat bs) src \<and> \<not> canSendMorePackets win
     \<and> window_so_far src bs (G \<union> (\<lambda>i. i mod nat (sw_window_size window)) ` {k..<k'}) win
     \<and> sw_window_size win = sw_window_size window \<and> upper win = upper window
     \<and> current win = (if k' = k then current window else int k' - 1)"

abbreviation fills :: "byte list \<Rightarrow> int \<Rightarrow> server_proc \<Rightarrow> nat set \<Rightarrow> SenderWindow \<Rightarrow> nat \<Rightarrow>
    (server_proc, state option \<times> SenderWindow \<times> byte list) res \<Rightarrow> bool" where
  "fills src bs w0 G window k r \<equiv> post r
    (\<lambda>(ret, win, fp') w'. \<exists>k' \<ge> k. child_so_far (from_child src bs) w0 k' w'
       \<and> (ret = None \<longrightarrow> filled_up_to src bs G window k k' win fp'))
    (\<lambda>w'. \<exists>k'. child_so_far (from_child src bs) w0 k' w')"

lemma fills_one_more:
  assumes "fills src bs w0 (insert (k mod nat (sw_window_size window)) G) win (Suc k) r"
    and "current win = int k" "upper win = upper window" "sw_window_size win = sw_window_size window"
  shows "fills src bs w0 G window k r"
  using assms(1)
proof (rule post_mono)
  let ?W = "nat (sw_window_size window)"
  fix y v
  assume y: "(\<lambda>(ret, win', fp') v. \<exists>k' \<ge> Suc k. child_so_far (from_child src bs) w0 k' v \<and> (ret = None \<longrightarrow>
    filled_up_to src bs (insert (k mod ?W) G) win (Suc k) k' win' fp')) y v"
  obtain ret win' fp' k' where k': "y = (ret, win', fp')" "Suc k \<le> k'" "child_so_far (from_child src bs) w0 k' v"
    "ret = None \<longrightarrow> filled_up_to src bs (insert (k mod ?W) G) win (Suc k) k' win' fp'"
    using y by (cases y) auto
  have set: "insert (k mod ?W) (G \<union> (\<lambda>i. i mod ?W) ` {Suc k..<k'}) = G \<union> (\<lambda>i. i mod ?W) ` {k..<k'}"
    using k'(2) by (auto simp: image_iff) (metis Suc_leI atLeastLessThan_iff le_neq_implies_less order_refl)
  have "filled_up_to src bs G window k k' win' fp'" if "ret = None"
    using k'(2,4) that assms(2-4) by (simp add: set split: if_splits)
  then show "(\<lambda>(ret, win', fp') v. \<exists>k' \<ge> k. child_so_far (from_child src bs) w0 k' v \<and> (ret = None \<longrightarrow>
    filled_up_to src bs G window k k' win' fp')) y v"
    unfolding k'(1) prod.case using k'(2,3) by (intro exI [of _ k'] conjI) auto
qed

lemma fill_window_sends:
  assumes "child_so_far (from_child src bs) w0 k w" "window_so_far src bs G window"
    "fp = drop (k * nat bs) src" "bs < 65536" "length src < 2147483648"
  shows "fills src bs w0 G window k (fill_window bs window fp w)"
  using assms
proof (induction bs window fp w arbitrary: k G rule: fill_window.induct)
  case (1 bs window fp w)
  let ?P = "from_child src bs" and ?W = "nat (sw_window_size window)"
  show ?case
  proof (cases "canSendMorePackets window")
    case False
    then show ?thesis
      unfolding fill_window.simps [of bs window fp w] using "1.prems" by auto
  next
    case True
    show ?thesis
    proof (cases "getDataChunk fp bs w")
      case (Stop r u)
      then show ?thesis by (auto simp: getDataChunk_def malloc_def Let_def split: if_splits option.splits)
    next
      case (Ok x w1)
      obtain c n fp' where x: "x = (c, n, fp')" by (cases x)
      have w1: "child_so_far ?P w0 k w1"
        using Ok "1.prems"(1) by (auto simp: getDataChunk_def malloc_def Let_def split: if_splits option.splits)
      show ?thesis
      proof (cases "n = 0")
        case n: True
        show ?thesis
          unfolding fill_window.simps [of bs window fp w] using True Ok x w1 n by auto
      next
        case False
        define m where "m = min (nat bs) (length fp)"
        obtain blk where c: "c = Some (memcpy_at blk 0 (take m fp))" "n = int m" "fp' = drop m fp"
            "length blk = nat bs" "0 < bs" "m \<noteq> 0"
          using Ok x False
          by (auto simp: getDataChunk_def malloc_def Let_def junk_bytes_def m_def split: if_splits option.splits)
        have fp': "fp' = drop (Suc k * nat bs) src"
          using "1.prems"(3) c(3) by (simp add: m_def min_def add.commute)
        note step = send_chunk_sends [OF w1 "1.prems"(2) m_def "1.prems"(3) c(6,4,5) "1.prems"(4,5), folded c(1,2)]
        let ?Q = "\<lambda>(r, win) v. child_so_far ?P w0 k v \<and> window_so_far src bs (insert (k mod ?W) G) win
          \<and> current win = int k \<and> upper win = upper window \<and> sw_window_size win = sw_window_size window"
        have sc: "post (send_chunk window c bs n w1) ?Q (\<lambda>w'. \<exists>k'. child_so_far ?P w0 k' w')"
          by (rule post_mono [OF step]) auto
        have "fills src bs w0 G window k (bnd (send_chunk window c bs n w1) (\<lambda>(bytes_sent, window) w.
            if bytes_sent < 0 then Ok (Some DONE, window, fp') w
            else fill_window bs window fp' (w\<lparr>data_sequence_number := data_sequence_number w + 1\<rparr>)))"
        proof (rule post_bnd [OF sc])
          fix y v
          assume y: "send_chunk window c bs n w1 = Ok y v" and "?Q y v"
          then obtain bytes win where v: "y = (bytes, win)" "child_so_far ?P w0 k v"
              "window_so_far src bs (insert (k mod ?W) G) win" "current win = int k"
              "upper win = upper window" "sw_window_size win = sw_window_size window" by (cases y) auto
          let ?v = "v\<lparr>data_sequence_number := data_sequence_number v + 1\<rparr>"
          have next_k: "child_so_far ?P w0 (Suc k) ?v" using v(2) by (simp add: child_so_far_def)
          have "fills src bs w0 G window k (fill_window bs win fp' ?v)" if bytes: "\<not> bytes < 0"
            by (rule fills_one_more [OF "1.IH" [OF True Ok x refl False y v(1) bytes next_k v(3) fp' "1.prems"(4,5)] v(4-6)])
          then show "fills src bs w0 G window k ((\<lambda>(bytes_sent, window) w.
              if bytes_sent < 0 then Ok (Some DONE, window, fp') w
              else fill_window bs window fp' (w\<lparr>data_sequence_number := data_sequence_number w + 1\<rparr>)) y v)"
            using v(1,2) by auto
        qed
        then show ?thesis
          unfolding fill_window.simps [of bs window fp w] using True Ok x False by simp
      qed
    qed
  qed
qed

section \<open>Control packets\<close>

text \<open>From here on every packet of the window holds a chunk.\<close>

abbreviation all_chunks :: "byte list \<Rightarrow> int \<Rightarrow> SenderWindow \<Rightarrow> bool" where
  "all_chunks src bs \<equiv> window_so_far src bs UNIV"

lemma all_chunksD:
  assumes "all_chunks src bs window" "slot (sw_buffer window) i = Inr (Some p)"
  shows "holds_chunk src bs p"
proof -
  have "nat i < length (sw_buffer window)" "sw_buffer window ! nat i = Some p"
    using assms(2) by (auto simp: slot_Inr_iff)
  then show ?thesis using assms(1) by (auto simp: window_so_far_def)
qed

lemma all_chunks_update:
  assumes "all_chunks src bs window" "\<And>p. x = Some p \<Longrightarrow> holds_chunk src bs p"
  shows "all_chunks src bs (window\<lparr>sw_buffer := (sw_buffer window)[i := x]\<rparr>)"
proof -
  have "holds_chunk src bs p" if "j < length (sw_buffer window)" "(sw_buffer window)[i := x] ! j = Some p" for j p
    using that assms by (cases "i = j") (simp_all add: window_so_far_def)
  then show ?thesis using assms(1) by (simp add: window_so_far_def)
qed

lemma all_chunks_acknowledge:
  assumes "all_chunks src bs window" "acknowledgePacket window s = Inr w'"
  shows "all_chunks src bs w'"
proof -
  obtain i o' where a: "slot (sw_buffer window) i = Inr o'"
      "w' = (case o' of None \<Rightarrow> window
        | Some p \<Rightarrow> window\<lparr>sw_buffer := (sw_buffer window)[nat i := Some (p\<lparr>ACK := 1\<rparr>)]\<rparr>)"
    using assms(2) by (auto simp: acknowledgePacket_def sbind_Inr_iff)
  have "holds_chunk src bs (p\<lparr>ACK := 1\<rparr>)" if "o' = Some p" for p
    using all_chunksD [OF assms(1)] a(1) that by (simp add: holds_chunk_def)
  then show ?thesis using assms(1) a(2) by (auto intro: all_chunks_update split: option.split)
qed

lemma all_chunks_release:
  "all_chunks src bs window \<Longrightarrow> release_slots window i n = Inr w' \<Longrightarrow> all_chunks src bs w'"
proof (induction window i n rule: release_slots.induct)
  case (2 window i n)
  obtain j o' where "sender_index window i = Inr j" "slot (sw_buffer window) j = Inr o'"
      "release_slots (window\<lparr>sw_buffer := (sw_buffer window)[nat j := None]\<rparr>) (i + 1) n = Inr w'"
    using "2.prems"(2) by (auto simp: sbind_Inr_iff)
  with "2.IH" [OF this(1,2)] all_chunks_update [OF "2.prems"(1), of None] show ?case by simp
qed simp

lemma all_chunks_advance:
  assumes "all_chunks src bs window" "advanceSenderWindow window s = Inr w'"
  shows "all_chunks src bs w'"
  using assms all_chunks_release [OF assms(1)]
  by (auto simp: advanceSenderWindow_def sbind_Inr_iff window_so_far_def split: if_splits)

lemma keeps_resend:
  assumes "child_so_far (from_child src bs) w0 k w" "holds_chunk src bs p" "bs < 65536"
  shows "keeps (from_child src bs) w0 k (resend p w)"
proof -
  have "length (chunk src bs j) \<le> nat bs" for j by (simp add: chunk_def)
  moreover have "nat bs < 65536" using assms(3) by simp
  ultimately have b: "int (length (chunk src bs j)) < 65536" for j
    using order_le_less_trans [of "length (chunk src bs j)" "nat bs" 65536] by simp
  obtain j where "data_size p = 7 + int (length (chunk src bs j))" using assms(2) by (auto simp: holds_chunk_def)
  then have "int_range (data_size p + 7)" using b [of j] by (simp add: int_range_def)
  then have n: "s32 (data_size p + 7) = data_size p + 7" by simp
  show ?thesis
    unfolding resend_def n
  proof (rule post_bnd [OF keeps_sendtoErr [OF assms(1)]])
    assume "data_size p + 7 \<le> int (length (data p))"
    then show "from_child src bs (take (nat (data_size p + 7)) (data p))"
      using holds_chunk_sent [OF assms(2)] by (simp add: from_child_def)
  qed simp
qed

lemma lowest_unacked_chunk:
  "lowest_unacked window s n = Inr (Some p) \<Longrightarrow> all_chunks src bs window \<Longrightarrow> holds_chunk src bs p"
proof (induction window s n rule: lowest_unacked.induct)
  case (2 window s n)
  obtain i o' where o': "slot (sw_buffer window) i = Inr o'" "sender_slot window s = Inr o'"
      "(case o' of Some p \<Rightarrow> if ACK p = 0 then Inr (Some p) else lowest_unacked window (s + 1) n
         | None \<Rightarrow> lowest_unacked window (s + 1) n) = Inr (Some p)"
    using "2.prems"(1) by (auto simp: sbind_Inr_iff sender_slot_def)
  show ?case
  proof (cases o')
    case None
    then show ?thesis using "2.IH" [OF o'(2)] o'(3) "2.prems"(2) by simp
  next
    case (Some q)
    then show ?thesis
      using "2.IH" [OF o'(2)] o'(3) "2.prems"(2) all_chunksD [OF "2.prems"(2)] o'(1)
      by (cases "ACK q = 0") auto
  qed
qed simp

lemma resend_lowest_sends:
  assumes "child_so_far (from_child src bs) w0 k w" "all_chunks src bs window" "bs < 65536"
  shows "keeps (from_child src bs) w0 k (resend_lowest window w)"
  unfolding resend_lowest_def
  by (rule post_bnd [OF post_lift [where Q = "\<lambda>o' v. v = w \<and> (\<forall>p. o' = Some p \<longrightarrow> holds_chunk src bs p)"]])
    (use assms lowest_unacked_chunk [OF _ assms(2)] in \<open>auto split: option.split intro: keeps_resend\<close>)

lemma receive_control_sends:
  assumes "child_so_far (from_child src bs) w0 k w" "all_chunks src bs window" "bs < 65536"
  shows "post (receive_control window w)
    (\<lambda>win w'. child_so_far (from_child src bs) w0 k w' \<and> all_chunks src bs win) (child_so_far (from_child src bs) w0 k)"
proof -
  let ?I = "child_so_far (from_child src bs) w0 k"
  have us: "holds_chunk src bs p" if "unsigned_slot window s = Inr p" for s p
    using that all_chunksD [OF assms(2)]
    by (auto simp: unsigned_slot_def sbind_Inr_iff elim!: deref.elims)
  have "post (handle_control n b window v) (\<lambda>win w'. ?I w' \<and> all_chunks src bs win) ?I" if v: "?I v" for n b v
  proof -
    let ?s = "getSequenceFromBuffer b"
    have rr: "post (bnd (lift (acknowledgePacket window (sint ?s)) v) (\<lambda>window w.
        bnd (lift (advanceSenderWindow window (sint (?s + 1))) w) (\<lambda>window w. Ok window w)))
        (\<lambda>win w'. ?I w' \<and> all_chunks src bs win) ?I"
      by (intro post_bnd [OF post_lift [where Q = "\<lambda>win w'. ?I w' \<and> all_chunks src bs win"]])
        (use v in \<open>auto intro: all_chunks_acknowledge [OF assms(2)] all_chunks_advance\<close>)
    have srej: "post (bnd (lift (unsigned_slot window ?s) v) (\<lambda>p w. bnd (resend p w) (\<lambda>_ w. Ok window w)))
        (\<lambda>win w'. ?I w' \<and> all_chunks src bs win) ?I"
      by (rule post_bnd [OF post_lift [where Q = "\<lambda>p w'. w' = v \<and> holds_chunk src bs p"]])
        (use v us assms(2,3) in \<open>auto simp: post_bnd_iff intro!: post_mono [OF keeps_resend]\<close>)
    show ?thesis
      using v rr srej assms(2) by (simp add: handle_control_def Let_def)
  qed
  then show ?thesis
    unfolding receive_control_def by (intro post_bnd [OF keeps_recvfrom [OF assms(1)]]) auto
qed

lemma drain_control_sends:
  assumes "child_so_far (from_child src bs) w0 k w" "all_chunks src bs window" "bs < 65536"
  shows "post (drain_control window w)
    (\<lambda>win w'. child_so_far (from_child src bs) w0 k w' \<and> all_chunks src bs win) (child_so_far (from_child src bs) w0 k)"
  using assms
proof (induction window w rule: drain_control.induct)
  case (1 window w)
  show ?case
    unfolding drain_control.simps [of window w]
  proof (rule post_bnd [OF keeps_pollCall [OF "1.prems"(1)]])
    fix r u assume r: "pollCall 0 w = Ok r u" "child_so_far (from_child src bs) w0 k u"
    show "post (if r > 0 then bnd (receive_control window u) (\<lambda>window w. drain_control window w) else Ok window u)
      (\<lambda>win w'. child_so_far (from_child src bs) w0 k w' \<and> all_chunks src bs win) (child_so_far (from_child src bs) w0 k)"
      using r(2) "1.prems"(2,3) "1.IH" [OF r(1)]
      by (auto intro!: post_bnd [OF receive_control_sends])
  qed
qed

lemma wait_control_sends:
  assumes "child_so_far (from_child src bs) w0 k w" "all_chunks src bs window" "bs < 65536"
  shows "post (wait_control window w)
    (\<lambda>win w'. child_so_far (from_child src bs) w0 k w' \<and> all_chunks src bs win) (child_so_far (from_child src bs) w0 k)"
  using assms
proof (induction window w rule: wait_control.induct)
  case (1 window w)
  show ?case
  proof (cases "canSendMorePackets window")
    case True
    then show ?thesis unfolding wait_control.simps [of window w] using "1.prems" by simp
  next
    case False
    have "post (bnd (pollCall 1000 w) (\<lambda>pollResult w.
        if pollResult > 0 then bnd (receive_control window w) (\<lambda>window w. wait_control window w)
        else bnd (resend_lowest window w) (\<lambda>_ w. wait_control window w)))
      (\<lambda>win w'. child_so_far (from_child src bs) w0 k w' \<and> all_chunks src bs win) (child_so_far (from_child src bs) w0 k)"
    proof (rule post_bnd [OF keeps_pollCall [OF "1.prems"(1)]])
      fix r u assume r: "pollCall 1000 w = Ok r u" "child_so_far (from_child src bs) w0 k u"
      show "post (if r > 0 then bnd (receive_control window u) (\<lambda>window w. wait_control window w)
          else bnd (resend_lowest window u) (\<lambda>_ w. wait_control window w))
        (\<lambda>win w'. child_so_far (from_child src bs) w0 k w' \<and> all_chunks src bs win) (child_so_far (from_child src bs) w0 k)"
        using r(2) "1.prems"(2,3) "1.IH" [OF False r(1)]
        by (auto intro!: post_bnd [OF receive_control_sends] post_bnd [OF resend_lowest_sends])
    qed
    then show ?thesis unfolding wait_control.simps [of window w] using False by simp
  qed
qed

section \<open>The child process\<close>

text \<open>What a whole run of the child may have done when it ends.\<close>

definition child_sent :: "(byte list \<Rightarrow> bool) \<Rightarrow> server_proc \<Rightarrow> server_proc \<Rightarrow> bool" where
  "child_sent P w0 w \<longleftrightarrow> (\<exists>k. child_so_far P w0 k w)"

lemma child_sentI: "child_so_far P w0 k w \<Longrightarrow> child_sent P w0 w"
  by (auto simp: child_sent_def)

lemma full_round_covers:
  assumes "window_so_far src bs ((\<lambda>i. i mod nat (sw_window_size window)) ` {0..<k}) window"
    "sw_window_size window < int k"
  shows "all_chunks src bs window"
proof -
  have "i \<in> (\<lambda>i. i mod nat (sw_window_size window)) ` {0..<k}" if "i < length (sw_buffer window)" for i
  proof
    have "int (length (sw_buffer window)) = sw_window_size window" using assms(1) by (simp add: window_so_far_def)
    then have "nat (sw_window_size window) = length (sw_buffer window)" by simp
    then show "i = i mod nat (sw_window_size window)" using that by simp
    show "i \<in> {0..<k}" using that assms \<open>int (length (sw_buffer window)) = _\<close> by simp
  qed
  then show ?thesis using assms(1) unfolding window_so_far_def by blast
qed

lemma send_data_loop_sends:
  assumes "child_so_far (from_child src bs) w0 k w" "fp = drop (k * nat bs) src"
    "bs < 65536" "length src < 2147483648"
    "all_chunks src bs window \<or> k = 0 \<and> current window = 0 \<and> upper window = sw_window_size window
       \<and> window_so_far src bs {} window"
  shows "post (send_data_loop bs window fp w) (\<lambda>_. child_sent (from_child src bs) w0) (child_sent (from_child src bs) w0)"
  using assms
proof (induction bs window fp w arbitrary: k rule: send_data_loop.induct)
  case (1 bs window fp w)
  let ?P = "from_child src bs"
  obtain G where G: "window_so_far src bs G window" "G = UNIV \<or> G = {} \<and> k = 0 \<and> current window = 0
      \<and> upper window = sw_window_size window"
    using "1.prems"(5) by blast
  note fill = fill_window_sends [OF "1.prems"(1) G(1) "1.prems"(2,3,4)]
  show ?case
  proof (cases "fill_window bs window fp w")
    case (Stop r u)
    then show ?thesis
      unfolding send_data_loop.simps [of bs window fp w] using fill by (auto simp: child_sent_def)
  next
    case (Ok x u)
    obtain ret win fp' where x: "x = (ret, win, fp')" by (cases x)
    show ?thesis
    proof (cases ret)
      case (Some st)
      then show ?thesis
        unfolding send_data_loop.simps [of bs window fp w] using fill Ok x by (auto simp: child_sent_def)
    next
      case None
      obtain k' where k': "k \<le> k'" "child_so_far ?P w0 k' u" "fp' = drop (k' * nat bs) src" "\<not> canSendMorePackets win"
        "window_so_far src bs (G \<union> (\<lambda>i. i mod nat (sw_window_size window)) ` {k..<k'}) win"
        "sw_window_size win = sw_window_size window" "upper win = upper window"
        "current win = (if k' = k then current window else int k' - 1)"
        using fill Ok x None by auto
      have all: "all_chunks src bs win"
      proof (cases "G = UNIV")
        case False
        then have g: "G = {}" "k = 0" "current window = 0" "upper window = sw_window_size window" using G(2) by auto
        have "sw_window_size win \<le> current win" using k'(4,6,7) g(4) by (simp add: canSendMorePackets_def)
        then show ?thesis
          using k'(5,6,8) g full_round_covers [of src bs win k']
          by (cases "k' = 0") (auto simp: window_so_far_def)
      qed (use k'(5) in simp)
      have rest: "post (bnd (drain_control win u) (\<lambda>window w. bnd (wait_control window w) (\<lambda>window w.
          send_data_loop bs window fp' w))) (\<lambda>_. child_sent ?P w0) (child_sent ?P w0)"
      proof (rule post_bnd)
        show "post (drain_control win u) (\<lambda>win w'. child_so_far ?P w0 k' w' \<and> all_chunks src bs win) (child_sent ?P w0)"
          by (rule post_mono [OF drain_control_sends [OF k'(2) all "1.prems"(3)]]) (auto intro: child_sentI)
        fix win1 w1
        assume 1: "drain_control win u = Ok win1 w1" "child_so_far ?P w0 k' w1 \<and> all_chunks src bs win1"
        show "post (bnd (wait_control win1 w1) (\<lambda>window w. send_data_loop bs window fp' w))
            (\<lambda>_. child_sent ?P w0) (child_sent ?P w0)"
        proof (rule post_bnd)
          show "post (wait_control win1 w1) (\<lambda>win w'. child_so_far ?P w0 k' w' \<and> all_chunks src bs win) (child_sent ?P w0)"
            by (rule post_mono [OF wait_control_sends [of src bs w0 k' w1 win1]]) (use 1 "1.prems"(3) in \<open>auto intro: child_sentI\<close>)
          fix win2 w2
          assume "wait_control win1 w1 = Ok win2 w2" "child_so_far ?P w0 k' w2 \<and> all_chunks src bs win2"
          then show "post (send_data_loop bs win2 fp' w2) (\<lambda>_. child_sent ?P w0) (child_sent ?P w0)"
            using 1(1) by (intro "1.IH" [OF Ok x refl None _ _ _ k'(3) "1.prems"(3,4)]) auto
        qed
      qed
      then show ?thesis
        unfolding send_data_loop.simps [of bs window fp w] using Ok x None by simp
    qed
  qed
qed

lemma sealed_is_answer:
  "f \<in> {9, 32, 33} \<Longrightarrow> is_answer (memcpy_at (bytes32 (ntohl 1) @ [0, 0] @ [f]) 4 (bytes16 cs))"
  by (simp add: is_answer_def memcpy_at_def nth_append getSequenceFromBuffer_head ntohl_def)

lemma keeps_answer:
  assumes "child_so_far (from_child src bs) w0 k w" "is_answer d"
  shows "keeps (from_child src bs) w0 k (sendtoErr s d 7 dest w)"
  by (rule keeps_sendtoErr [OF assms(1)]) (use assms(2) in \<open>simp add: from_child_def is_answer_def\<close>)

lemma keeps_send_sealed:
  assumes "child_so_far (from_child src bs) w0 k w"
  shows "keeps (from_child src bs) w0 k (send_sealed makeERRORFilenameACKBeforeChecksum w)"
    "keeps (from_child src bs) w0 k (send_sealed makeVALIDFilenameACKBeforeChecksum w)"
  using assms sealed_is_answer [of 32] sealed_is_answer [of 9]
  by (auto simp: send_sealed_def ack_layouts makeFilenameACKAfterChecksum_def Let_def intro!: keeps_answer)

lemma keeps_await_error_ack:
  "child_so_far P w0 k w \<Longrightarrow> keeps P w0 k (await_error_ack n w)"
proof (induction n w rule: await_error_ack.induct)
  case (2 left w)
  show ?case
    unfolding await_error_ack.simps
  proof (rule post_bnd [OF keeps_pollCall [OF "2.prems"]])
    fix r u assume u: "pollCall 1000 w = Ok r u" "child_so_far P w0 k u"
    show "keeps P w0 k (if r \<noteq> - 1 then bnd (recvfrom_client (local_array 7 u) 7 u) (\<lambda>(received, _) w.
        if received > 0 then Ok DONE w else await_error_ack left w) else await_error_ack left u)"
      using u "2.IH" by (auto intro!: post_bnd [OF keeps_recvfrom_client])
  qed
qed simp

lemma keeps_doGetFilenameState:
  assumes "child_so_far (from_child src bs) w0 k w"
  shows "keeps (from_child src bs) w0 k (doGetFilenameState name w)"
proof -
  have f: "keeps (from_child src bs) w0 k (fopen_source name w)"
    unfolding fopen_source_def by (intro post_bnd [OF post_lift [where Q = "\<lambda>_. child_so_far (from_child src bs) w0 k"]])
      (use assms in auto)
  show ?thesis
    unfolding doGetFilenameState_def
    by (rule post_bnd [OF f])
      (auto split: option.split intro!: post_bnd [OF keeps_send_sealed(1)] post_bnd [OF keeps_send_sealed(2)]
        keeps_await_error_ack)
qed

lemma alloc_packets_length: "alloc_packets h k n = (Some ps, k') \<Longrightarrow> length ps = n"
  by (induction h k n arbitrary: ps k' rule: alloc_packets.induct) (auto split: option.splits prod.splits)

lemma doSendDataState_sends:
  assumes "child_so_far (from_child src (uint bs)) w0 0 w" "src = file_contents w0 (cstring name)"
    "length src < 2147483648"
  shows "post (doSendDataState name bs ws w) (\<lambda>_. child_sent (from_child src (uint bs)) w0)
    (child_sent (from_child src (uint bs)) w0)"
proof (cases "fopen_source name w")
  case (Stop r u)
  then have "u = w" by (auto simp: fopen_source_def bnd_Stop_iff lift_Stop_iff)
  then show ?thesis using Stop assms(1) by (auto simp: doSendDataState_def intro: child_sentI)
next
  case (Ok fo u)
  have f: "u = w" "fo = fs w0 (cstring name)"
    using Ok assms(1) by (auto simp: fopen_source_def c_string_def lift_Ok_iff fopen_rb_def child_so_far_def
        elim!: bnd_Ok_E split: if_splits)
  show ?thesis
  proof (cases fo)
    case None
    then show ?thesis using Ok f(1) assms(1) by (auto simp: doSendDataState_def intro: child_sentI)
  next
    case (Some c)
    obtain window h where i: "initSenderWindow (heap_fn w) (heap_no w) (sint ws) = (window, h)"
      by (cases "initSenderWindow (heap_fn w) (heap_no w) (sint ws)")
    show ?thesis
    proof (cases window)
      case None
      then show ?thesis using Ok f(1) Some i assms(1)
        by (auto simp: doSendDataState_def Let_def intro!: child_sentI)
    next
      case w: (Some win)
      have "sint ws < 2147483648" using sint_lt [of ws] by simp
      then have win: "window_so_far src (uint bs) {} win" "current win = 0" "upper win = sw_window_size win"
        using i w by (auto simp: initSenderWindow_def window_so_far_def alloc_packets_length
            split: option.splits if_splits prod.splits dest: alloc_packets_length)
      have "c = src" using assms(2) f(2) Some by (simp add: file_contents_def split: option.splits)
      then have "post (send_data_loop (uint bs) win c (w\<lparr>heap_no := h\<rparr>)) (\<lambda>_. child_sent (from_child src (uint bs)) w0)
          (child_sent (from_child src (uint bs)) w0)"
        using assms(1,3) win uint_lt2p [of bs]
        by (intro send_data_loop_sends [where k = 0]) auto
      then show ?thesis using Ok f(1) Some i w by (simp add: doSendDataState_def)
    qed
  qed
qed

lemma child_fsm_sends:
  assumes "child_so_far (from_child src (uint bs)) w0 0 w" "src = file_contents w0 (cstring name)"
    "length src < 2147483648"
  shows "child_sent (from_child src (uint bs)) w0 (final (child_fsm name bs ws GET_FILENAME w))"
proof (cases "doGetFilenameState name w")
  case (Stop r u)
  then show ?thesis using keeps_doGetFilenameState [OF assms(1), of name]
    by (simp add: child_fsm.simps [of _ _ _ GET_FILENAME] child_sentI)
next
  case (Ok st u)
  have u: "child_so_far (from_child src (uint bs)) w0 0 u"
    using keeps_doGetFilenameState [OF assms(1), of name] Ok by simp
  have d: "child_sent (from_child src (uint bs)) w0 (final (child_fsm name bs ws SEND_DATA u))"
    using doSendDataState_sends [OF u assms(2,3), of ws]
    by (cases "doSendDataState name bs ws u")
      (auto simp: child_fsm.simps [of _ _ _ SEND_DATA] child_fsm.simps [of _ _ _ DONE]
        child_fsm.simps [of _ _ _ WAIT_ON_EOF_ACK] dest!: doSendDataState_state)
  show ?thesis
    using doGetFilenameState_state [OF Ok] Ok u d
    by (auto simp: child_fsm.simps [of _ _ _ GET_FILENAME] child_fsm.simps [of _ _ _ DONE] intro: child_sentI)
qed

lemma keeps_set_up:
  assumes "child_so_far P w0 k w"
  shows "keeps P w0 k (removeFromPollSet s w)" "keeps P w0 k (addToPollSet s w)"
    "keeps P w0 k (udpServerSetup port w)" "keeps P w0 k (close_socket s w)"
proof -
  show "keeps P w0 k (udpServerSetup port w)"
    using assms by (auto simp: udpServerSetup_def must_def syscall_def split: list.split)
  show "keeps P w0 k (removeFromPollSet s w)" "keeps P w0 k (addToPollSet s w)" "keeps P w0 k (close_socket s w)"
    unfolding post_final
    using final_removeFromPollSet [of s w] final_addToPollSet [of s w] assms
    by (auto simp: close_socket_def)
qed

lemma run_child_sends:
  assumes "child_so_far (from_child src (uint bs)) w0 0 w" "src = file_contents w0 (cstring name)"
    "length src < 2147483648"
  shows "child_sent (from_child src (uint bs)) w0 (final (run_child name bs ws m sp w))"
proof -
  let ?I = "child_so_far (from_child src (uint bs)) w0 0" and ?C = "child_sent (from_child src (uint bs)) w0"
  have i: "?I (init_errors rate rnd u)" if "?I u" for rate rnd u
    using that by (simp add: child_so_far_def init_errors_def sendErr_init_drop_channel)
  define t where "t = makeTalkHereNowAfterChecksum makeTalkHereNowBeforeChecksum
      (calculateFilenameChecksumACK makeTalkHereNowBeforeChecksum)"
  have t: "is_answer t"
    using sealed_is_answer [of 33] by (simp add: t_def ack_layouts makeTalkHereNowAfterChecksum_def)
  have weak: "post x (\<lambda>_. ?I) ?C" if "keeps (from_child src (uint bs)) w0 0 x" for x :: "(server_proc, 'x) res"
    by (rule post_mono [OF that]) (auto intro: child_sentI)
  have talk: "post (if calculateFilenameChecksumACK t \<noteq> 0 then Stop (Exited 1) v
      else bnd (sendtoErr s t 7 (client v) v) (\<lambda>_ w. child_fsm name bs ws GET_FILENAME w)) (\<lambda>_. ?C) ?C"
    if "?I v" for s v
  proof -
    have "post (bnd (sendtoErr s t 7 (client v) v) (\<lambda>_ w. child_fsm name bs ws GET_FILENAME w)) (\<lambda>_. ?C) ?C"
      by (rule post_bnd [OF weak [OF keeps_answer [OF that t]]])
        (simp add: post_final child_fsm_sends [OF _ assms(2,3)])
    then show ?thesis using child_sentI [OF that] by simp
  qed
  have "post (run_child name bs ws m sp w) (\<lambda>_. ?C) ?C"
    unfolding run_child_def t_def [symmetric] Let_def
    by (intro post_bnd [OF weak [OF keeps_set_up(4)]] post_bnd [OF weak [OF keeps_set_up(1)]]
        post_bnd [OF weak [OF keeps_set_up(3)]] post_bnd [OF weak [OF keeps_set_up(2)]] talk)
      (use i [OF assms(1)] in simp_all)
  then show ?thesis by (simp add: post_final)
qed

section \<open>Properties\<close>

lemma startFSM_sends:
  assumes "drop_channel (pmgr w)" "data_sequence_number w = 0"
    and "length (file_contents w (cstring name)) < 2147483648"
  obtains ds where "sent (final (startFSM name bs ws m sp w)) = sent w @ ds"
    "\<And>s a d. (s, a, d) \<in> set ds \<Longrightarrow> from_child (file_contents w (cstring name)) (uint bs) d"
proof -
  let ?P = "from_child (file_contents w (cstring name)) (uint bs)"
  have w: "child_so_far ?P w 0 w" using assms(1,2) by (simp add: child_so_far_def)
  have f: "post (forkMod w) (\<lambda>_. child_so_far ?P w 0) (child_so_far ?P w 0)"
    using w by (auto simp: forkMod_def syscall_def Let_def child_so_far_def drop_channel_def
        setUserMode_SeedRand_def split: list.split)
  have "post (startFSM name bs ws m sp w) (\<lambda>_. child_sent ?P w) (child_sent ?P w)"
  proof (cases "forkMod w")
    case (Stop r u)
    then show ?thesis using f by (simp add: startFSM_def child_sentI)
  next
    case (Ok pid u)
    then have "child_so_far ?P w 0 u" using f by simp
    then show ?thesis
      using Ok run_child_sends [OF _ refl assms(3)]
      by (auto simp: startFSM_def post_final intro: child_sentI)
  qed
  then have "child_sent ?P w (final (startFSM name bs ws m sp w))" by (simp add: post_final)
  then obtain ds where "sent (final (startFSM name bs ws m sp w)) = sent w @ ds" "\<forall>e \<in> set ds. ?P (snd (snd e))"
    by (auto simp: child_sent_def child_so_far_def)
  then show ?thesis by (intro that [of ds]) auto
qed

text \<open>
  C11. A child tells nothing but the file: whatever it receives and however its run ends, every
  datagram that the process serving a request sends is one of the three answers of the
  file-name exchange, or carries one whole chunk of the requested file under the number
  of that chunk (with seven further bytes when it is sent again); for a file that
  does not exist only answers are sent.
\<close>

theorem child_sends_only_the_file:
  assumes "drop_channel (pmgr w)" "data_sequence_number w = 0"
    and "length (file_contents w (cstring name)) < 2147483648"
  shows "\<exists>ds. sent (final (startFSM name bs ws m sp w)) = sent w @ ds
    \<and> list_all (\<lambda>(_, _, d). from_child (file_contents w (cstring name)) (uint bs) d) ds"
  by (rule startFSM_sends [OF assms]) (auto simp: list_all_iff)

theorem child_sends_only_the_file_witness:
  "\<exists>ds. sent (final (startFSM [98, 0] 100 5 1 \<lparr>error_rate = 0, port_number = 5\<rparr>
      (idle_server [[98] \<mapsto> [1, 2, 3]] [] [] [0, 6, 0, 0]))) = ds \<and> list_all (\<lambda>(_, _, d). from_child [1, 2, 3] 100 d) ds"
proof -
  let ?w = "idle_server [[98] \<mapsto> [1, 2, 3]] [] [] [0, 6, 0, 0]"
  have "file_contents ?w (cstring [98, 0]) = [1, 2, 3]" "sent ?w = []"
    by (simp_all add: file_contents_def cstring_def idle_server_def)
  moreover have "drop_channel (pmgr ?w)" "data_sequence_number ?w = 0"
    by (simp_all add: idle_server_def drop_channel_def)
  ultimately show ?thesis
    using child_sends_only_the_file [of ?w "[98, 0]" 100 5 1 "\<lparr>error_rate = 0, port_number = 5\<rparr>"] by auto
qed

end
