(* ===== verification/ServerRuns.thy ===== *)
theory ServerRuns
  imports Server
begin

text \<open>
  Whole runs of the server's processes: the SIGCHLD handler, and the child that serves a
  request for a file that does not exist.
\<close>

section \<open>The SIGCHLD handler\<close>

text \<open>
  The handler reaps every child that has terminated and then returns: while
  \<open>waitpid\<close> answers positive numbers it calls it again, and the first other answer
  ends it; nothing but the list of system calls changes.
\<close>

lemma handler_reaps_all:
  assumes "sys_q w = pids @ r # q" "\<forall>p \<in> set pids. 0 < p" "r \<le> 0"
  shows "handleZombies w = Ok () (w\<lparr>sys_q := q, sys_log := sys_log w @ replicate (Suc (length pids)) Sys_waitpid\<rparr>)"
  using assms
proof (induction pids arbitrary: w)
  case Nil
  then show ?case by (simp add: handleZombies.simps [of w] syscall_def)
next
  case (Cons p pids)
  let ?w = "w\<lparr>sys_q := pids @ r # q, sys_log := sys_log w @ [Sys_waitpid]\<rparr>"
  have "handleZombies w = handleZombies ?w"
    using Cons.prems by (simp add: handleZombies.simps [of w] syscall_def)
  moreover have "handleZombies ?w = Ok () (?w\<lparr>sys_q := q, sys_log := sys_log ?w @ replicate (Suc (length pids)) Sys_waitpid\<rparr>)"
    using Cons.prems by (intro Cons.IH) simp_all
  ultimately show ?case by simp
qed

lemma handler_reaps_all_example:
  "\<exists>w'. handleZombies (idle_server Map.empty [] [] [41, 42, - 1]) = Ok () w' \<and> length (sys_log w') = 3"
  using handler_reaps_all [of "idle_server Map.empty [] [] [41, 42, - 1]" "[41, 42]" "- 1" "[]"]
  by (simp add: idle_server_def)

section \<open>A request for a missing file\<close>

lemma send_sealed_answer:
  assumes "lossless w"
  obtains pm k d where "send_sealed (bytes32 (ntohl 1) @ [0, 0, f]) w = Ok 7 (w\<lparr>pmgr := pm, send_no := k,
      sent := sent w @ [(child_server_socket w, client w, d)]\<rparr>)" "d ! 6 = f"
    "drop_channel pm" "m_ErrorRate pm = m_ErrorRate (pmgr w)" "length d = 7"
proof -
  let ?b = "bytes32 (ntohl 1) @ [0, 0, f]"
  define d where "d = makeFilenameACKAfterChecksum ?b (calculateFilenameChecksumACK ?b)"
  have d: "length d = 7" "d ! 6 = f"
    by (simp_all add: d_def makeFilenameACKAfterChecksum_def memcpy_at_def nth_append)
  have z: "calculateFilenameChecksumACK d = 0"
    unfolding d_def by (rule ack_answer.sealed_verifies(1)) simp_all
  obtain pm k where s: "sendtoErr (child_server_socket w) d 7 (client w) w = Ok 7 (w\<lparr>pmgr := pm, send_no := k,
      sent := sent w @ [(child_server_socket w, client w, take (nat 7) d)]\<rparr>)"
    "drop_channel pm" "m_ErrorRate pm = m_ErrorRate (pmgr w)"
    by (rule sendtoErr_lossless [OF assms, of 7 d "child_server_socket w" "client w"]) (use d in auto)
  have "send_sealed ?b w = Ok 7 (w\<lparr>pmgr := pm, send_no := k,
      sent := sent w @ [(child_server_socket w, client w, d)]\<rparr>)"
    using s(1) d z by (simp add: send_sealed_def d_def [symmetric])
  then show ?thesis using that s(2,3) d by blast
qed

text \<open>Ten polls that time out end the wait for the client's answer.\<close>

lemma await_error_ack_timeout:
  assumes "poll_q w = as @ q" "\<forall>a \<in> set as. fst a = 0"
  shows "\<exists>ps. await_error_ack (length as) w = Ok DONE (w\<lparr>poll_q := q, pset := ps\<rparr>)"
  using assms
proof (induction as arbitrary: w)
  case Nil
  then show ?case by (intro exI [of _ "pset w"]) simp
next
  case (Cons a as)
  obtain revs where a: "a = (0, revs)" using Cons.prems(2) by (cases a) simp
  let ?w = "w\<lparr>poll_q := as @ q, pset := poll_writes revs (pset w)\<rparr>"
  have "World.pollCall 1000 w = Ok (- 1) ?w"
    using Cons.prems(1) by (simp add: World.pollCall_def on_pset_def PollLib.pollCall_def a Let_def)
  moreover obtain ps where "await_error_ack (length as) ?w = Ok DONE (?w\<lparr>poll_q := q, pset := ps\<rparr>)"
    using Cons.IH [of ?w] Cons.prems by auto
  ultimately show ?case by (intro exI [of _ ps]) simp
qed

lemma missing_file_child:
  assumes "lossless w" "c_string name = Inr path" "fs w path = None"
    "poll_q w = as @ q" "length as = 10" "\<forall>a \<in> set as. fst a = 0"
  obtains d w' where "child_fsm name bs ws GET_FILENAME w = Ok () w'" "d ! 6 = 32"
    "sent w' = sent w @ [(child_server_socket w, client w, d)]" "closed w' = closed w"
    "poll_q w' = q" "sys_q w' = sys_q w"
proof -
  obtain pm k d where s: "send_sealed (bytes32 (ntohl 1) @ [0, 0, 32]) w = Ok 7 (w\<lparr>pmgr := pm, send_no := k,
      sent := sent w @ [(child_server_socket w, client w, d)]\<rparr>)" "d ! 6 = 32"
    by (rule send_sealed_answer [OF assms(1)])
  let ?w = "w\<lparr>pmgr := pm, send_no := k, sent := sent w @ [(child_server_socket w, client w, d)]\<rparr>"
  obtain ps where a: "await_error_ack 10 ?w = Ok DONE (?w\<lparr>poll_q := q, pset := ps\<rparr>)"
    using await_error_ack_timeout [of ?w as q] assms(4-6) by auto
  have "doGetFilenameState name w = Ok DONE (?w\<lparr>poll_q := q, pset := ps\<rparr>)"
    using assms(2,3) s(1) a
    by (simp add: doGetFilenameState_def fopen_source_def fopen_rb_def ack_layouts)
  then have "child_fsm name bs ws GET_FILENAME w = Ok () (?w\<lparr>poll_q := q, pset := ps\<rparr>)"
    by (simp add: child_fsm.simps [of _ _ _ GET_FILENAME] child_fsm.simps [of _ _ _ DONE])
  then show ?thesis using s(2) by (rule that) simp_all
qed

text \<open>
  The way of the child up to its state machine: \<open>v\<close> is the state after the first answer.
\<close>

lemma child_set_up:
  assumes "channel_ok w" "\<forall>k. send_ok w k" "\<not> env_ErrRate (pmgr w)" "plenty w"
    and "\<forall>sd k. to_float w (error_rate sp) < to_float w (Finite (drand48 w sd k))"
    and "sys_q w = 0 # s # 0 # 0 # sq" "0 \<le> s" "s + POLL_SET_SIZE < 2147483648"
    and "ps_ok (pset w)" "0 \<le> m" "m < currentPollSetSize (pset w)"
  obtains v d where "startFSM name bs ws m sp w = child_fsm name bs ws GET_FILENAME v"
    "lossless v" "plenty v" "sent v = sent w @ [(s, client w, d)]" "length d = 7" "d ! 6 = 33"
    "closed v = closed w @ [m]" "sys_q v = sq" "poll_q v = poll_q w" "recv_q v = recv_q w" "fs v = fs w"
    "client v = client w" "child_server_socket v = s" "data_sequence_number v = data_sequence_number w"
    "ps_ok (pset v)" "registered (pset v) s"
proof -
  let ?f = "w\<lparr>pmgr := setUserMode_SeedRand (nextSeed (pmgr w)) ((pmgr w)\<lparr>nextSeed := s32 (nextSeed (pmgr w) + 1)\<rparr>),
      sys_q := s # 0 # 0 # sq, sys_log := sys_log w @ [Sys_fork]\<rparr>"
  have f: "forkMod w = Ok 0 ?f" using assms(6) by (simp add: forkMod_def Let_def syscall_def)
  have ff: "channel_ok ?f" "\<not> env_ErrRate (pmgr ?f)"
    using assms(1,3) by (simp_all add: channel_ok_def drop_channel_def setUserMode_SeedRand_def)
  define e where "e = init_errors (error_rate sp) True ?f"
  have le: "lossless e" unfolding e_def
    by (rule lossless_init_errors) (use ff assms(2,5) in simp_all)
  have e: "sys_q e = s # 0 # 0 # sq" "pset e = pset w" "heap_fn e = heap_fn w" "heap_no e = heap_no w"
      "closed e = closed w" "sent e = sent w" "client e = client w" "fs e = fs w" "poll_q e = poll_q w"
      "recv_q e = recv_q w" "data_sequence_number e = data_sequence_number w"
    by (simp_all add: e_def init_errors_def)
  obtain ps1 where p1: "PollLib.removeFromPollSet m (pset w) = Ok () ps1" "ps_ok ps1"
    using set_pollfd_total [OF assms(9-11), of 0 0] set_pollfd_ok [OF assms(9)]
    by (auto simp: PollLib.removeFromPollSet_def)
  obtain g where g: "heap_fn w (heap_no w) = Some g" using assms(4) by (auto simp: plenty_def)
  obtain ps2 where p2: "PollLib.addToPollSet (Some g) s ps1 = Ok () ps2" "ps_ok ps2" "registered ps2 s"
    using addToPollSet_ok [OF p1(2) assms(7,8), of g] by blast
  define u where "u = e\<lparr>closed := closed w @ [m], pset := ps2, sys_q := sq,
      sys_log := sys_log e @ [Sys_socket False, Sys_bind s 0 (htons 0), Sys_getsockname s],
      child_server_socket := s, heap_no := heap_no w + 1\<rparr>"
  have lu: "lossless u" using le by (simp add: u_def lossless_def channel_ok_def)
  obtain pm k d where t: "send_sealed (bytes32 (ntohl 1) @ [0, 0, 33]) u = Ok 7 (u\<lparr>pmgr := pm, send_no := k,
      sent := sent u @ [(child_server_socket u, client u, d)]\<rparr>)" "d ! 6 = 33"
      "drop_channel pm" "m_ErrorRate pm = m_ErrorRate (pmgr u)" "length d = 7"
    by (rule send_sealed_answer [OF lu])
  define v where "v = u\<lparr>pmgr := pm, send_no := k, sent := sent u @ [(child_server_socket u, client u, d)]\<rparr>"
  have lv: "lossless v" using lu t(3,4) by (simp add: v_def lossless_def channel_ok_def)
  have "run_child name bs ws m sp ?f = child_fsm name bs ws GET_FILENAME v"
  proof -
    let ?r = "e\<lparr>closed := closed w @ [m], pset := ps1\<rparr>"
    have 1: "World.removeFromPollSet m (e\<lparr>closed := closed w @ [m]\<rparr>) = Ok () ?r"
      using p1(1) by (simp add: World.removeFromPollSet_def on_pset_def e(2))
    have 2: "udpServerSetup 0 ?r = Ok s (?r\<lparr>sys_q := sq,
        sys_log := sys_log e @ [Sys_socket False, Sys_bind s 0 (htons 0), Sys_getsockname s]\<rparr>)"
      using e(1) assms(7) by (simp add: udpServerSetup_def must_def syscall_def)
    have 3: "World.addToPollSet s (?r\<lparr>sys_q := sq,
        sys_log := sys_log e @ [Sys_socket False, Sys_bind s 0 (htons 0), Sys_getsockname s], child_server_socket := s\<rparr>) = Ok () u"
      using p2(1) g by (simp add: World.addToPollSet_def on_pset_def e(3,4) u_def)
    define b where "b = bytes32 (ntohl 1) @ [0, 0, 33 :: byte]"
    have 4: "calculateFilenameChecksumACK (makeTalkHereNowAfterChecksum b (calculateFilenameChecksumACK b)) = 0"
      unfolding b_def by (rule talk_answer.sealed_verifies(1)) simp_all
    have 5: "sendtoErr s (makeTalkHereNowAfterChecksum b (calculateFilenameChecksumACK b)) 7 (client u) u = Ok 7 v"
      using t(1) 4
      by (simp add: send_sealed_def b_def [symmetric] makeTalkHereNowAfterChecksum_def
          makeFilenameACKAfterChecksum_def u_def v_def)
    show ?thesis
      unfolding run_child_def e_def [symmetric]
      using 1 2 3 4 5 by (simp add: close_socket_def e(5) ack_layouts b_def [symmetric] Let_def)
  qed
  then have "startFSM name bs ws m sp w = child_fsm name bs ws GET_FILENAME v" using f by (simp add: startFSM_def)
  moreover have "plenty v" using assms(4) by (simp add: plenty_def v_def u_def e)
  ultimately show ?thesis
    using t(2,5) lv p2(2,3) by (intro that [of v d]) (simp_all add: v_def u_def e)
qed

text \<open>
  C27. A child whose file does not exist becomes a second server: after \<open>fork\<close> it
  closes the main socket \<open>m\<close>, tells the client its own socket \<open>s\<close>, sends the
  error answer (flag 32), and, when the client does not reply in ten seconds,
  \<open>startFSM\<close> returns in the child, which so continues the loop of \<open>main\<close> on
  the socket it has closed; the child has not exited, and its own socket stays open.
\<close>

theorem missing_file_child_becomes_server:
  assumes "channel_ok w" "\<forall>k. send_ok w k" "\<not> env_ErrRate (pmgr w)" "plenty w"
    and "\<forall>sd k. to_float w (error_rate sp) < to_float w (Finite (drand48 w sd k))"
    and "sys_q w = 0 # s # 0 # 0 # sq" "0 \<le> s" "s + POLL_SET_SIZE < 2147483648"
    and "ps_ok (pset w)" "0 \<le> m" "m < currentPollSetSize (pset w)"
    and "c_string name = Inr path" "fs w path = None"
    and "poll_q w = as @ q" "length as = 10" "\<forall>a \<in> set as. fst a = 0"
  shows "\<exists>w' talk err. startFSM name bs ws m sp w = Ok () w' \<and> closed w' = closed w @ [m]
    \<and> sent w' = sent w @ [(s, client w, talk), (s, client w, err)] \<and> talk ! 6 = 33 \<and> err ! 6 = 32
    \<and> poll_q w' = q \<and> sys_q w' = sq"
proof -
  obtain v d where v: "startFSM name bs ws m sp w = child_fsm name bs ws GET_FILENAME v" "lossless v"
    "sent v = sent w @ [(s, client w, d)]" "d ! 6 = 33" "closed v = closed w @ [m]" "sys_q v = sq"
    "poll_q v = poll_q w" "fs v = fs w" "client v = client w" "child_server_socket v = s"
    by (rule child_set_up [OF assms(1-11)])
  have p: "fs v path = None" "poll_q v = as @ q" using assms(13,14) v(7,8) by simp_all
  obtain d2 w' where "child_fsm name bs ws GET_FILENAME v = Ok () w'" "d2 ! 6 = 32"
    "sent w' = sent v @ [(child_server_socket v, client v, d2)]" "closed w' = closed v" "poll_q w' = q" "sys_q w' = sys_q v"
    by (rule missing_file_child [OF v(2) assms(12) p assms(15,16)])
  then show ?thesis
    using v by (intro exI [of _ w'] exI [of _ d] exI [of _ d2]) simp
qed

theorem missing_file_child_becomes_server_witness:
  "\<exists>w'. startFSM [98, 0] 100 5 1 \<lparr>error_rate = 0, port_number = 5\<rparr>
      (idle_server Map.empty (replicate 10 (0, [])) [] [0, 6, 0, 0]) = Ok () w' \<and> closed w' = [1] \<and> length (sent w') = 2"
proof -
  let ?w = "idle_server Map.empty (replicate 10 (0, [])) [] [0, 6, 0, 0]"
  have c: "c_string [98, 0] = Inr [98]" by (simp add: c_string_def cstring_def)
  have l: "channel_ok ?w" "\<forall>k. send_ok ?w k" "\<not> env_ErrRate (pmgr ?w)" "plenty ?w"
      "\<forall>sd k. to_float ?w (error_rate \<lparr>error_rate = 0, port_number = 5\<rparr>) < to_float ?w (Finite (drand48 ?w sd k))"
      "sys_q ?w = 0 # 6 # 0 # 0 # []" "ps_ok (pset ?w)" "1 < currentPollSetSize (pset ?w)"
      "fs ?w [98] = None" "poll_q ?w = replicate 10 (0, []) @ []" "sent ?w = []" "closed ?w = []"
    by (simp_all add: idle_server_def channel_ok_def drop_channel_def plenty_def ps_ok_def)
  obtain w' talk err where "startFSM [98, 0] 100 5 1 \<lparr>error_rate = 0, port_number = 5\<rparr> ?w = Ok () w'"
      "closed w' = closed ?w @ [1]" "sent w' = sent ?w @ [(6, client ?w, talk), (6, client ?w, err)]"
    using missing_file_child_becomes_server [OF l(1-6) _ _ l(7) _ l(8) c l(9,10), of 100 5]
    by (auto simp: POLL_SET_SIZE_def)
  then show ?thesis using l(11,12) by auto
qed

end
