(* ===== verification/Requests.thy ===== *)
theory Requests
  imports RcopyPdu Server
begin

text \<open>
  A sealed request at the server: what the server reads of it in its buffer of 114 bytes; and
  the round of the loop of \<open>main\<close> that serves it.
\<close>

lemma server_checksum_same: "calculateFilenameChecksumFILENAME = calculateFilenameChecksum"
  by (rule ext) (simp add: calculateFilenameChecksumFILENAME_def calculateFilenameChecksum_def)

text \<open>What the server reads of a sealed request in its buffer of 114 bytes.\<close>

lemma request_fields:
  assumes "length (src_filename params) = 101"
  shows "calculateFilenameChecksumFILENAME (sealed_request params @ [slack]) = 0"
    "request_filename (sealed_request params @ [slack]) = take 100 (src_filename params)"
    "request_buffer_size (sealed_request params @ [slack]) = word_of_int (buffer_size params)"
    "request_window_size (sealed_request params @ [slack]) = word_of_int (window_size params)"
proof -
  let ?d = "sealed_request params @ [slack]"
  obtain c where l: "sealed_request params = bytes32 (ntohl 1) @ bytes16 c @ [8] @ take 100 (src_filename params)
      @ bytes16 (htons (word_of_int (buffer_size params))) @ bytes32 (htonl (word_of_int (window_size params)))"
    using sealed_request_layout(1) [OF assms] by blast
  have t: "take 113 ?d = sealed_request params"
    using sealed_request_layout(3) [OF assms] by simp
  have "calculateFilenameChecksum ?d = calculateFilenameChecksum (sealed_request params)"
    using t sealed_request_layout(3) [OF assms] by (simp add: calculateFilenameChecksum_def)
  then show "calculateFilenameChecksumFILENAME ?d = 0"
    using sealed_request_layout(2) [OF assms] by (simp add: server_checksum_same)
  show "request_filename ?d = take 100 (src_filename params)"
    using l assms by (simp add: request_filename_def)
  let ?h = "bytes32 (ntohl 1) @ bytes16 c @ [8] @ take 100 (src_filename params)"
  let ?b = "bytes16 (htons (word_of_int (buffer_size params)))"
  let ?w = "bytes32 (htonl (word_of_int (window_size params)))"
  have "?d = ?h @ (?b @ ?w @ [slack])" using l by simp
  moreover have "length ?h = 107" using assms by simp
  ultimately have "load16 ?d 107 = htons (word_of_int (buffer_size params))"
    by (metis load16_skip load16_bytes16)
  then show "request_buffer_size ?d = word_of_int (buffer_size params)"
    by (simp add: request_buffer_size_def)
  have "?d = (?h @ ?b) @ (?w @ [slack])" using l by simp
  moreover have "length (?h @ ?b) = 109" using assms by simp
  ultimately have "load32 ?d 109 = htonl (word_of_int (window_size params))"
    by (metis load32_skip load32_bytes32)
  then have "request_window_size ?d = ucast (word_of_int (window_size params) :: u32)"
    by (simp add: request_window_size_def)
  also have "\<dots> = word_of_int (window_size params)"
    by (rule word_uint_eqI) (simp add: unsigned_ucast_eq unsigned_of_int take_bit_eq_mod mod_mod_cancel)
  finally show "request_window_size ?d = word_of_int (window_size params)" .
qed

lemma recvfrom_request:
  assumes "recv_q w = Datagram a d # rq" "length d = 114" "length buffer = 114"
  shows "recvfrom_client buffer 114 w = Ok (114, d) (w\<lparr>recv_q := rq, client := a\<rparr>)"
  using assms by (simp add: recvfrom_client_def recvfrom_def Let_def memcpy_at_def)

text \<open>The round of the loop of \<open>main\<close> that serves the request.\<close>

lemma round_serves:
  assumes "length (src_filename params) = 101" "length buffer = 114"
    and "recv_q w = Datagram a (sealed_request params @ [slack]) # rq"
  shows "serve_round m sp buffer w =
    bnd (startFSM (take 100 (src_filename params)) (word_of_int (buffer_size params))
           (ucast (word_of_int (window_size params) :: u16)) m sp (w\<lparr>recv_q := rq, client := a\<rparr>))
      (\<lambda>_ w. Ok (sealed_request params @ [slack]) w)"
proof -
  have l: "length (sealed_request params @ [slack]) = 114"
    using sealed_request_layout(3) [OF assms(1)] by simp
  show ?thesis
    unfolding serve_round_def
    using recvfrom_request [OF assms(3) l assms(2)] request_fields [OF assms(1)] by simp
qed

lemma server_serves:
  assumes "length (src_filename params) = 101" "length buffer = 114"
    and "World.pollCall (- 1) w = Ok r w1" "0 \<le> r"
    and "recv_q w1 = Datagram a (sealed_request params @ [slack]) # rq"
  shows "server_loop m sp buffer w =
    bnd (startFSM (take 100 (src_filename params)) (word_of_int (buffer_size params))
           (ucast (word_of_int (window_size params) :: u16)) m sp (w1\<lparr>recv_q := rq, client := a\<rparr>))
      (\<lambda>_ w. server_loop m sp (sealed_request params @ [slack]) w)"
  using assms(3,4) round_serves [OF assms(1,2,5)] by (simp add: server_loop.simps [of m sp buffer w] bnd_assoc)

end
