(* ===== verification/Copying.thy ===== *)
theory Copying
  imports Arrivals ServerSends ServerRuns Requests
begin

text \<open>
  Both programs together: what a run of the client makes of the datagrams that a child
  of the server has sent, over a network that may lose, repeat and reorder them.
\<close>

section \<open>A copy of what?\<close>

text \<open>The datagrams of one run of a child.\<close>

definition sent_by_child :: "byte list \<Rightarrow> u16 \<Rightarrow> u32 \<Rightarrow> int \<Rightarrow> ServerParams \<Rightarrow> server_proc \<Rightarrow> byte list list" where
  "sent_by_child name bs ws m sp v =
     map (\<lambda>(_, _, d). d) (drop (length (sent v)) (sent (final (startFSM name bs ws m sp v))))"

lemma sent_by_child_from:
  assumes "drop_channel (pmgr v)" "data_sequence_number v = 0"
    and "length (file_contents v (cstring name)) < 2147483648"
    and "d \<in> set (sent_by_child name bs ws m sp v)"
  shows "from_child (file_contents v (cstring name)) (uint bs) d"
  by (rule startFSM_sends [OF assms(1-3), of bs ws m sp]) (use assms(4) in \<open>auto simp: sent_by_child_def\<close>)

text \<open>
  What a payload of the client is made of: a chunk of the source, followed by other bytes when it is
  the last one, or bytes of an uninitialised block.
\<close>

definition starts_with_chunk :: "byte list \<Rightarrow> int \<Rightarrow> byte list \<Rightarrow> bool" where
  "starts_with_chunk src bs x \<longleftrightarrow> (\<exists>k e. chunk src bs k \<noteq> [] \<and> x = chunk src bs k @ e)"

lemma payload_from_child:
  assumes "received_payload h E p x" "\<And>a d. Datagram a d \<in> E \<Longrightarrow> from_child src (buffer_size p) d"
    and "buffer_size p \<le> 1400"
  shows "starts_with_chunk src (buffer_size p) x
    \<or> (\<exists>j g. h j = Some g \<and> x = junk_bytes g 7 (nat (buffer_size p)))"
proof -
  obtain b where b: "received_block h E p b" "0 < buffer_size p" "x = take (nat (buffer_size p)) (drop 7 b)"
    using assms(1) by (auto simp: received_payload_def)
  obtain a d g j where d: "Datagram a d \<in> E" "h j = Some g" "length (take sizeof_RPacket d) \<le> response_size p"
      "b = memcpy_at (junk_bytes g 0 (response_size p)) 0 (take sizeof_RPacket d)"
    using b(1) by (auto simp: received_block_def)
  have r: "response_size p = 7 + nat (buffer_size p)"
    using assms(3) b(2) by (simp add: response_size_def s32_id int_range_def nat_add_distrib)
  let ?d = "take sizeof_RPacket d"
  have blk: "b = ?d @ drop (length ?d) (junk_bytes g 0 (response_size p))"
    using d(4) by (simp add: memcpy_at_def)
  from assms(2) [OF d(1)] show ?thesis unfolding from_child_def
  proof
    assume "is_answer d"
    then have "?d = d" "length d = 7" by (simp_all add: is_answer_def sizeof_RPacket_def)
    then have "x = junk_bytes g 7 (nat (buffer_size p))"
      using b(3) blk r by (simp add: junk_bytes_def drop_map take_map)
    then show ?thesis using d(2) by blast
  next
    let ?c = "chunk src (buffer_size p)"
    assume "carries_chunk src (buffer_size p) d"
    then obtain k e where k: "?c k \<noteq> []" "drop 7 d = ?c k @ e"
      by (auto simp: carries_chunk_def)
    have c: "length (?c k) \<le> nat (buffer_size p)" by (simp add: chunk_def)
    then have c14: "length (?c k) \<le> 1400" using assms(3) by linarith
    have 7: "7 < length d" using k by (metis Nil_is_append_conv drop_eq_Nil2 not_le)
    have "drop 7 ?d = take 1400 (drop 7 d)" by (simp add: drop_take sizeof_RPacket_def)
    then have "drop 7 ?d = ?c k @ take (1400 - length (?c k)) e" using k(2) c14 by simp
    moreover have "7 < length ?d" using 7 by (simp add: sizeof_RPacket_def)
    ultimately have "drop 7 b = ?c k @ take (1400 - length (?c k)) e @ drop (length ?d) (junk_bytes g 0 (response_size p))"
      using blk by simp
    then obtain e' where "x = ?c k @ e'" using b(3) c by simp
    then show ?thesis using k(1) by (auto simp: starts_with_chunk_def)
  qed
qed

text \<open>
  C6. What can be in the destination. The client runs over a network that may lose, repeat and
  reorder the datagrams of a child, but adds none of its own. Then, however both runs
  go, the destination is as before, empty, or holds exactly one payload: a chunk of the
  source (followed by whatever the receive block held when it is the short last chunk), or, when
  a late answer of the file-name exchange is taken for packet 1, nothing but
  uninitialised bytes of a heap block.
\<close>

theorem copy_comes_from_the_source:
  assumes "reliable w" "drop_channel (pmgr v)" "data_sequence_number v = 0"
    and "length (file_contents v (cstring name)) < 2147483648"
    and "\<forall>a d. Datagram a d \<in> set (recv_q w) \<longrightarrow> d \<in> set (sent_by_child name bs ws m sp v)"
    and "atoi (argv ! 4) = uint bs" "uint bs \<le> 1400"
  defines "src \<equiv> file_contents v (cstring name)"
    and "copy \<equiv> file_contents (final (Rcopy.main argv w)) (cstring (argv ! 2))"
  shows "copy = file_contents w (cstring (argv ! 2)) \<or> copy = [] \<or> length copy = unat bs \<and>
    (starts_with_chunk src (uint bs) copy \<or> (\<exists>j g. heap_fn w j = Some g \<and> copy = junk_bytes g 7 (unat bs)))"
proof -
  have "copy = file_contents w (cstring (argv ! 2)) \<or> copy = [] \<or>
      (\<exists>p. buffer_size p = uint bs \<and> received_payload (heap_fn w) (set (recv_q w)) p copy)"
    using main_outcome [OF assms(1) order_refl refl, of argv] assms(6) by (auto simp: copy_def)
  moreover have "length copy = unat bs \<and> (starts_with_chunk src (uint bs) copy
      \<or> (\<exists>j g. heap_fn w j = Some g \<and> copy = junk_bytes g 7 (unat bs)))"
    if p: "buffer_size p = uint bs" "received_payload (heap_fn w) (set (recv_q w)) p copy" for p
  proof -
    have "from_child src (buffer_size p) d" if "Datagram a d \<in> set (recv_q w)" for a d
      unfolding src_def p(1)
      by (rule sent_by_child_from [OF assms(2-4), of d bs ws m sp]) (use assms(5) that in blast)
    then have "starts_with_chunk src (buffer_size p) copy
        \<or> (\<exists>j g. heap_fn w j = Some g \<and> copy = junk_bytes g 7 (nat (buffer_size p)))"
      by (intro payload_from_child [OF p(2)]) (use p(1) assms(7) in auto)
    then show ?thesis using received_payload_length [OF p(2)] p(1) by (metis nat_int nat_uint_eq)
  qed
  ultimately show ?thesis by blast
qed

section \<open>What a child sends when nobody answers it\<close>

lemma first_burst:
  assumes "lossless w" "plenty w" "full_window window" "current window = 0" "upper window = int W"
    and "0 < bs" "bs \<le> 255" "0 < W" "W < 2147483000" "poll_q w = []" "data_sequence_number w = 0"
  obtains ds where "sent (final (send_data_loop bs window src w)) = sent w @ map (\<lambda>d. (child_server_socket w, client w, d)) ds"
    "length ds = min (chunk_count bs src) (W + 1)"
    "\<And>i. i < length ds \<Longrightarrow> is_data_pdu (ds ! i) (word_of_nat i) (chunk src bs i)"
proof -
  define n where "n = min (chunk_count bs src) (W + 1)"
  note c = chunk_count_bounds [OF assms(6), of src]
  have le: "(n - 1) * nat bs \<le> (chunk_count bs src - 1) * nat bs" by (intro mult_right_mono) (auto simp: n_def)
  have n: "n \<noteq> 0 \<Longrightarrow> current window < upper window \<and> (n - 1) * nat bs < length src"
    using le_less_trans [OF le c(2)] assms(4,5,8) by (simp add: n_def)
  have nW: "0 + int n \<le> upper window + 1" "0 + int n < 2147483647" using assms(5,9) by (simp_all add: n_def)
  obtain ds wb w1 where r: "length ds = n"
    "fill_window bs window src w = fill_window bs
        (if n = 0 then window else wb\<lparr>current := 0 + int n - 1\<rparr>) (drop (n * nat bs) src) w1"
    "\<forall>i < n. is_data_pdu (ds ! i) (word_of_int (0 + int i)) (take (nat bs) (drop (i * nat bs) src))"
    "burst ds w w1" "upper wb = upper window"
    using fill_run [OF assms(1-3,6,7) n nW(1) _ order_refl nW(2)] assms(11) by auto
  define win where "win = (if n = 0 then window else wb\<lparr>current := 0 + int n - 1\<rparr>)"
  have b: "plenty w1" "poll_q w1 = []" "sent w1 = sent w @ map (\<lambda>d. (child_server_socket w, client w, d)) ds"
    using r(4) assms(10) by (simp_all add: burst_def)
  have "sent (final (send_data_loop bs window src w)) = sent w1"
  proof (cases "chunk_count bs src \<le> W")
    case True
    then have e: "drop (n * nat bs) src = []" using c(1) by (simp add: n_def min_def)
    have "canSendMorePackets win"
      using True assms(4,5,8) r(5) by (auto simp: win_def canSendMorePackets_def n_def min_def)
    then have "\<exists>x. fill_window bs window src w = Ok (Some WAIT_ON_EOF_ACK, x, []) (w1\<lparr>heap_no := heap_no w1 + 1\<rparr>)"
      unfolding r(2) win_def [symmetric] e using getDataChunk_eof [OF b(1) assms(6)]
      by (subst fill_window.simps) auto
    then show ?thesis by (auto simp: send_data_loop.simps [of bs window src w])
  next
    case False
    then have "\<not> canSendMorePackets win"
      using assms(5) r(5) by (simp add: win_def canSendMorePackets_def n_def min_def)
    then have "fill_window bs window src w = Ok (None, win, drop (n * nat bs) src) w1"
      unfolding r(2) win_def [symmetric] by (subst fill_window.simps) simp
    then show ?thesis
      using b(2) by (simp add: send_data_loop.simps [of bs window src w] drain_control.simps World.pollCall_def)
  qed
  then show ?thesis using r(1,3) b(3) by (intro that [of ds]) (simp_all add: chunk_def n_def)
qed

text \<open>The child up to its first read of the source.\<close>

lemma child_starts_sending:
  assumes "channel_ok v" "\<forall>k. send_ok v k" "\<not> env_ErrRate (pmgr v)" "plenty v"
    and "\<forall>sd k. to_float v (error_rate sp) < to_float v (Finite (drand48 v sd k))"
    and "sys_q v = 0 # c # 0 # 0 # sq" "0 \<le> c" "c + POLL_SET_SIZE < 2147483648"
    and "ps_ok (pset v)" "0 \<le> m" "m < currentPollSetSize (pset v)"
    and "c_string name = Inr path" "fs v path = Some src" "data_sequence_number v = 0"
    and "0 < bs" "bs \<le> 255" "0 < W" "W < 2147483000"
  obtains talk ok window x where
    "startFSM name (word_of_int bs) (word_of_nat W) m sp v = bnd (send_data_loop bs window src x)
       (\<lambda>st w. child_fsm name (word_of_int bs) (word_of_nat W) st w)"
    "sent x = sent v @ [(c, client v, talk), (c, client v, ok)]"
    "length talk = 7" "talk ! 6 = 33" "length ok = 7" "ok ! 6 = 9"
    "lossless x" "plenty x" "full_window window" "current window = 0" "lower window = 0"
    "upper window = int W" "sw_window_size window = int W" "poll_q x = poll_q v" "recv_q x = recv_q v"
    "client x = client v" "child_server_socket x = c" "data_sequence_number x = 0"
    "ps_ok (pset x)" "registered (pset x) c"
proof -
  have W: "sint (word_of_nat W :: u32) = int W"
    using sint_of_int [of "int W"] assms(18) by simp
  have B: "uint (word_of_int bs :: u16) = bs"
    using assms(15,16) by (simp add: unsigned_of_int take_bit_int_eq_self)
  obtain u talk where u: "startFSM name (word_of_int bs) (word_of_nat W) m sp v = child_fsm name (word_of_int bs) (word_of_nat W) GET_FILENAME u"
    "lossless u" "plenty u" "sent u = sent v @ [(c, client v, talk)]" "length talk = 7" "talk ! 6 = 33"
    "closed u = closed v @ [m]" "sys_q u = sq" "poll_q u = poll_q v" "recv_q u = recv_q v" "fs u = fs v"
    "client u = client v" "child_server_socket u = c" "data_sequence_number u = data_sequence_number v"
    "ps_ok (pset u)" "registered (pset u) c"
    by (rule child_set_up [OF assms(1-11), of name "word_of_int bs" "word_of_nat W"])
  obtain pm k ok where a: "send_sealed (bytes32 (ntohl 1) @ [0, 0, 9]) u = Ok 7 (u\<lparr>pmgr := pm, send_no := k,
      sent := sent u @ [(child_server_socket u, client u, ok)]\<rparr>)" "ok ! 6 = 9"
    "drop_channel pm" "m_ErrorRate pm = m_ErrorRate (pmgr u)" "length ok = 7"
    by (rule send_sealed_answer [OF u(2)])
  define x where "x = u\<lparr>pmgr := pm, send_no := k, sent := sent u @ [(child_server_socket u, client u, ok)]\<rparr>"
  have s: "doGetFilenameState name u = Ok SEND_DATA x"
    using assms(12,13) a(1) u(11)
    by (simp add: doGetFilenameState_def fopen_source_def fopen_rb_def ack_layouts x_def)
  obtain window h where i: "initSenderWindow (heap_fn x) (heap_no x) (int W) = (Some window, h)"
      "sw_ok window" "lower window = 0" "upper window = int W" "current window = 0"
      "sw_window_size window = int W" "\<And>t. sw_slot window t \<noteq> None"
    by (rule initSenderWindow_ok [of "heap_no x" "heap_fn x" "int W"])
      (use u(3) assms(17,18) in \<open>auto simp: plenty_def x_def\<close>)
  let ?x = "x\<lparr>heap_no := h\<rparr>"
  have lx: "lossless ?x" "plenty ?x"
    using u(2,3) a(3,4) by (simp_all add: x_def lossless_def channel_ok_def plenty_def)
  have fw: "full_window window" using i by (simp add: full_window_def)
  have d: "doSendDataState name (word_of_int bs) (word_of_nat W) x = send_data_loop bs window src ?x"
    using assms(12,13) i(1) W B u(11) by (simp add: doSendDataState_def fopen_source_def fopen_rb_def x_def)
  have "child_fsm name (word_of_int bs) (word_of_nat W) GET_FILENAME u =
      bnd (send_data_loop bs window src ?x) (\<lambda>st w. child_fsm name (word_of_int bs) (word_of_nat W) st w)"
    using s d by (simp add: child_fsm.simps [of _ _ _ GET_FILENAME] child_fsm.simps [of _ _ _ SEND_DATA])
  then show ?thesis
    using u a(2,5) i fw lx assms(14) by (intro that [of window ?x talk ok]) (simp_all add: x_def)
qed

lemma child_transcript:
  assumes "channel_ok v" "\<forall>k. send_ok v k" "\<not> env_ErrRate (pmgr v)" "plenty v"
    and "\<forall>sd k. to_float v (error_rate sp) < to_float v (Finite (drand48 v sd k))"
    and "sys_q v = 0 # c # 0 # 0 # sq" "0 \<le> c" "c + POLL_SET_SIZE < 2147483648"
    and "ps_ok (pset v)" "0 \<le> m" "m < currentPollSetSize (pset v)"
    and "c_string name = Inr path" "fs v path = Some src" "poll_q v = []" "data_sequence_number v = 0"
    and "0 < bs" "bs \<le> 255" "0 < W" "W < 2147483000"
  obtains talk ok ds where "sent_by_child name (word_of_int bs) (word_of_nat W) m sp v = talk # ok # ds"
    "length talk = 7" "talk ! 6 = 33" "length ok = 7" "ok ! 6 = 9" "length ds = min (chunk_count bs src) (W + 1)"
    "\<And>i. i < length ds \<Longrightarrow> is_data_pdu (ds ! i) (word_of_nat i) (chunk src bs i)"
proof -
  obtain talk ok window x where x: "startFSM name (word_of_int bs) (word_of_nat W) m sp v = bnd (send_data_loop bs window src x)
      (\<lambda>st w. child_fsm name (word_of_int bs) (word_of_nat W) st w)"
    "sent x = sent v @ [(c, client v, talk), (c, client v, ok)]"
    "length talk = 7" "talk ! 6 = 33" "length ok = 7" "ok ! 6 = 9"
    "lossless x" "plenty x" "full_window window" "current window = 0" "lower window = 0"
    "upper window = int W" "sw_window_size window = int W" "poll_q x = poll_q v" "recv_q x = recv_q v"
    "client x = client v" "child_server_socket x = c" "data_sequence_number x = 0"
    by (rule child_starts_sending [OF assms(1-13,15-19)])
  obtain ds where ds: "sent (final (send_data_loop bs window src x)) = sent x @ map (\<lambda>d. (child_server_socket x, client x, d)) ds"
    "length ds = min (chunk_count bs src) (W + 1)"
    "\<And>i. i < length ds \<Longrightarrow> is_data_pdu (ds ! i) (word_of_nat i) (chunk src bs i)"
    by (rule first_burst [OF x(7-10,12) assms(16-19), of src]) (use x(14,18) assms(14) in simp_all)
  have "sent (final (startFSM name (word_of_int bs) (word_of_nat W) m sp v)) = sent (final (send_data_loop bs window src x))"
  proof (cases "send_data_loop bs window src x")
    case (Ok st y)
    then have "st = DONE \<or> st = WAIT_ON_EOF_ACK" by (rule send_data_loop_state)
    then show ?thesis using x(1) Ok
      by (auto simp: child_fsm.simps [of _ _ _ WAIT_ON_EOF_ACK] child_fsm.simps [of _ _ _ DONE])
  qed (simp add: x(1))
  then have "sent_by_child name (word_of_int bs) (word_of_nat W) m sp v = talk # ok # ds"
    using x(2) ds(1) by (simp add: sent_by_child_def comp_def)
  then show ?thesis using x(3-6) ds(2,3) by (rule that)
qed

lemma more_chunks:
  assumes "0 < bs" "k * nat bs < length src"
  shows "k < chunk_count bs src"
proof (rule ccontr)
  assume "\<not> k < chunk_count bs src"
  then have "chunk_count bs src * nat bs \<le> k * nat bs" by (intro mult_right_mono) auto
  then show False using chunk_count_bounds(1) [OF assms(1), of src] assms(2) by linarith
qed

lemma data_pdu_arrives:
  assumes "is_data_pdu d (word_of_nat i) (chunk src (buffer_size p) i)" "0 < buffer_size p" "buffer_size p \<le> 1400"
  shows "fits p d" "pdu_seq d = word_of_nat i" "drop 7 d = chunk src (buffer_size p) i" "d ! 6 = 16"
proof -
  have "length (chunk src (buffer_size p) i) \<le> nat (buffer_size p)" by (simp add: chunk_def)
  moreover have "response_size p = 7 + nat (buffer_size p)"
    using assms(2,3) by (simp add: response_size_def s32_id int_range_def nat_add_distrib)
  ultimately show "fits p d" "pdu_seq d = word_of_nat i" "drop 7 d = chunk src (buffer_size p) i" "d ! 6 = 16"
    using assms by (auto simp: is_data_pdu_def fits_def sizeof_RPacket_def pdu_seq_def getSequenceFromBuffer_def)
qed

section \<open>A conversation\<close>

text \<open>
  The two programs with matching parameters, as the request hands them over: the client
  \<open>w\<close> starts with valid arguments and asks for the file \<open>path\<close>, and the server
  process \<open>v\<close> is about to fork the child for it. Sends succeed and nothing is dropped.
\<close>

definition can_start :: "byte list list \<Rightarrow> RcopyParams \<Rightarrow> int \<Rightarrow> client \<Rightarrow> bool" where
  "can_start argv p s w \<longleftrightarrow> Rcopy.checkArgs argv w = Ok p w \<and> addr_info w (cstring (remote_machine p)) \<noteq> None
     \<and> (case sys_q w of [] \<Rightarrow> False | r # _ \<Rightarrow> r = s) \<and> 0 < s \<and> s + POLL_SET_SIZE < 2147483648
     \<and> channel_ok w \<and> (\<forall>k. send_ok w k) \<and> (\<forall>k. heap_fn w k \<noteq> None) \<and> pset w = empty_pollset
     \<and> writable w (cstring (dest_filename p))"

definition able_to_serve :: "int \<Rightarrow> byte list \<Rightarrow> byte list \<Rightarrow> byte list \<Rightarrow> int \<Rightarrow> ServerParams \<Rightarrow> server_proc \<Rightarrow> bool" where
  "able_to_serve c name path src m sp v \<longleftrightarrow> channel_ok v \<and> (\<forall>k. send_ok v k) \<and> \<not> env_ErrRate (pmgr v) \<and> plenty v
     \<and> (\<forall>sd k. to_float v (Server.error_rate sp) < to_float v (Finite (drand48 v sd k)))
     \<and> (\<exists>sq. sys_q v = 0 # c # 0 # 0 # sq) \<and> 0 \<le> c \<and> c + POLL_SET_SIZE < 2147483648
     \<and> ps_ok (pset v) \<and> 0 \<le> m \<and> m < currentPollSetSize (pset v)
     \<and> c_string name = Inr path \<and> fs v path = Some src \<and> data_sequence_number v = 0"

definition can_serve :: "byte list \<Rightarrow> byte list \<Rightarrow> byte list \<Rightarrow> int \<Rightarrow> ServerParams \<Rightarrow> server_proc \<Rightarrow> bool" where
  "can_serve name path src m sp v \<longleftrightarrow> poll_q v = [] \<and> (\<exists>c. able_to_serve c name path src m sp v)"

abbreviation child_answers :: "RcopyParams \<Rightarrow> int \<Rightarrow> ServerParams \<Rightarrow> server_proc \<Rightarrow> byte list list" where
  "child_answers p m sp v \<equiv> sent_by_child (take 100 (src_filename p)) (word_of_int (buffer_size p))
     (ucast (word_of_int (window_size p) :: u16)) m sp v"

text \<open>The client's own sends are not dropped.\<close>

definition quiet_client :: "RcopyParams \<Rightarrow> client \<Rightarrow> bool" where
  "quiet_client p w \<longleftrightarrow> \<not> env_ErrRate (pmgr w)
     \<and> (\<forall>sd k. to_float w (RcopyPdu.error_rate p) < to_float w (Finite (drand48 w sd k)))"

text \<open>The client at the start of its data phase, with an empty destination and a fresh buffer.\<close>

definition data_phase :: "byte list list \<Rightarrow> RcopyParams \<Rightarrow> int \<Rightarrow> client \<Rightarrow> client \<Rightarrow> ReceiverBuffer \<Rightarrow> bool" where
  "data_phase argv p s w u rbuf \<longleftrightarrow> online s u \<and> fs u = (fs w)(cstring (dest_filename p) \<mapsto> [])
     \<and> subState u = IN_ORDER \<and> rr_seq_num u = 0 \<and> rb_ok rbuf \<and> expected rbuf = 0 \<and> highest rbuf = - 1
     \<and> rb_window_size rbuf = window_size p \<and> (\<forall>t. held rbuf t = None)
     \<and> (quiet_client p w \<longrightarrow> lossless u \<and> map (\<lambda>(_, _, d). d) (sent u) =
          map (\<lambda>(_, _, d). d) (sent w) @ [sealed_request p @ [static_next w]])
     \<and> (\<forall>w'. getDataLoop s p (cstring (dest_filename p)) rbuf 0 u = Ok RcopyData.DONE w' \<longrightarrow>
          Rcopy.main argv w = Ok 0 (w'\<lparr>closed := closed w' @ [s]\<rparr>))
     \<and> (\<forall>r w'. getDataLoop s p (cstring (dest_filename p)) rbuf 0 u = Stop r w' \<longrightarrow> Rcopy.main argv w = Stop r w')"

lemma client_enters_data_phase:
  assumes "can_start argv p s w" "window_size p < 2147483648"
    and "poll_q w = ready s # ready s # q" "recv_q w = Datagram a talk # Datagram a ok # rq"
    and "length talk = 7" "talk ! 6 = 33" "length ok = 7" "ok ! 6 = 9"
  obtains u rbuf where "data_phase argv p s w u rbuf" "poll_q u = q" "recv_q u = rq"
proof -
  note cs = assms(1) [unfolded can_start_def]
  have ca: "Rcopy.checkArgs argv w = Ok p w" using cs by blast
  note pos = checkArgs_Ok(3,4) [OF ca]
  obtain ip where ip: "addr_info w (cstring (remote_machine p)) = Some ip" using cs by blast
  obtain sq' where sq': "sys_q w = s # sq'" using cs by (cases "sys_q w") auto
  have h: "0 < s" "s + POLL_SET_SIZE < 2147483648" "channel_ok w" "\<forall>k. send_ok w k" "\<forall>k. heap_fn w k \<noteq> None"
    "pset w = empty_pollset" "writable w (cstring (dest_filename p))" using cs by blast+
  obtain x b where x: "Rcopy.main argv w = bnd (rcopy_fsm p s b RcopyData.SEND_FILENAME x) (\<lambda>_ w. bnd (close_socket s w) (\<lambda>_ w. Ok 0 w))"
    "length b = 113" "channel_ok x" "ps_ok (pset x)" "heap_fn x = heap_fn w" "send_ok x = send_ok w"
    "poll_q x = poll_q w" "recv_q x = recv_q w" "fs x = fs w" "writable x = writable w" "subState x = IN_ORDER"
    "b = sealed_request p" "rr_seq_num x = 0" "sent x = sent w" "static_next x = static_next w" "quiet_client p w \<Longrightarrow> lossless x"
    by (rule main_starts [OF ca ip sq' _ h(3,5,6)]) (use h(1,4) in \<open>auto simp: quiet_client_def\<close>)
  obtain u where u: "rcopy_fsm p s b RcopyData.SEND_FILENAME x = bnd (doGetDataState s p u) (\<lambda>st w. rcopy_fsm p s b st w)"
    "online s u" "fs u = (fs x)(cstring (dest_filename p) \<mapsto> [])" "poll_q u = q" "recv_q u = rq"
    "subState u = subState x" "writable u = writable x" "rr_seq_num u = rr_seq_num x" "tells [b @ [static_next x]] x u"
    by (rule exchange [OF x(3) _ _ x(4) h(1,2) _ x(2)]) (use x h assms(3-8) in auto)
  obtain rbuf hn where r: "doGetDataState s p u = getDataLoop s p (cstring (dest_filename p)) rbuf 0 (u\<lparr>heap_no := hn\<rparr>)"
    "rb_ok rbuf" "expected rbuf = 0" "highest rbuf = - 1" "rb_window_size rbuf = window_size p" "\<And>t. held rbuf t = None"
    by (rule data_phase_starts [OF u(2)]) (use u x h pos assms(2) in auto)
  have "quiet_client p w \<Longrightarrow> lossless u \<and> map (\<lambda>(_, _, d). d) (sent u) =
      map (\<lambda>(_, _, d). d) (sent w) @ [sealed_request p @ [static_next w]]"
    using u(9) x(12,14,15,16) by (auto simp: tells_def)
  moreover have d: "rcopy_fsm p s b' RcopyData.DONE y = Ok () y" for b' y by (simp add: rcopy_fsm.simps)
  ultimately have "data_phase argv p s w (u\<lparr>heap_no := hn\<rparr>) rbuf"
    using r u x by (simp add: data_phase_def d close_socket_def)
  then show ?thesis by (rule that) (use u(4,5) in simp_all)
qed

text \<open>The window size survives its way through 16 bits.\<close>

lemma same_window:
  assumes "0 < (n::int)" "n < 65536"
  shows "ucast (word_of_int n :: u16) = (word_of_nat (nat n) :: u32)"
proof (rule word_uint_eqI)
  have "n mod 65536 = n" "n mod 4294967296 = n" using assms by simp_all
  then show "uint (ucast (word_of_int n :: u16) :: u32) = uint (word_of_nat (nat n) :: u32)"
    using assms(1) by (simp add: unsigned_ucast_eq unsigned_of_int unsigned_of_nat take_bit_eq_mod of_nat_mod)
qed

lemma conversation:
  assumes "can_start argv p s w" "can_serve (take 100 (src_filename p)) path src m sp v"
    and "buffer_size p \<le> 255" "window_size p < 65536"
  obtains talk ok ds where "child_answers p m sp v = talk # ok # ds"
    "length ds = min (chunk_count (buffer_size p) src) (nat (window_size p) + 1)"
    "\<And>i. i < length ds \<Longrightarrow> is_data_pdu (ds ! i) (word_of_nat i) (chunk src (buffer_size p) i)"
    "\<And>a q rq. poll_q w = ready s # ready s # q \<Longrightarrow> recv_q w = Datagram a talk # Datagram a ok # rq \<Longrightarrow>
      \<exists>u rbuf. data_phase argv p s w u rbuf \<and> poll_q u = q \<and> recv_q u = rq"
    "length talk = 7" "talk ! 6 = 33" "length ok = 7" "ok ! 6 = 9"
proof -
  have ca: "Rcopy.checkArgs argv w = Ok p w" using assms(1) by (simp add: can_start_def)
  note pos = checkArgs_Ok(3,4) [OF ca]
  define W where "W = nat (window_size p)"
  have W: "0 < W" "W < 2147483000" "int W = window_size p" using pos(1) assms(4) by (simp_all add: W_def)
  have v: "poll_q v = []" using assms(2) by (simp add: can_serve_def)
  obtain c sq where cv: "able_to_serve c (take 100 (src_filename p)) path src m sp v" "sys_q v = 0 # c # 0 # 0 # sq"
    using assms(2) by (auto simp: can_serve_def able_to_serve_def)
  obtain talk ok ds where t: "sent_by_child (take 100 (src_filename p)) (word_of_int (buffer_size p)) (word_of_nat W) m sp v = talk # ok # ds"
    "length talk = 7" "talk ! 6 = 33" "length ok = 7" "ok ! 6 = 9" "length ds = min (chunk_count (buffer_size p) src) (W + 1)"
    "\<And>i. i < length ds \<Longrightarrow> is_data_pdu (ds ! i) (word_of_nat i) (chunk src (buffer_size p) i)"
    by (rule child_transcript [of v sp c sq m "take 100 (src_filename p)" path src "buffer_size p" W])
      (use cv v pos(2) assms(3) W in \<open>auto simp: able_to_serve_def\<close>)
  show ?thesis
  proof (rule that [of talk ok ds])
    fix a q rq assume q: "poll_q w = ready s # ready s # q" "recv_q w = Datagram a talk # Datagram a ok # rq"
    show "\<exists>u rbuf. data_phase argv p s w u rbuf \<and> poll_q u = q \<and> recv_q u = rq"
      by (rule client_enters_data_phase [OF assms(1) _ q t(2-5)]) (use assms(4) in auto)
  qed (use t same_window [OF pos(1) assms(4)] W_def in auto)
qed

text \<open>Both programs ready, for the instances below: 2-byte chunks of a 10-byte file, window 4.\<close>

definition sample_args :: "byte list list" where
  "sample_args = [[114], [97], [98], [52], [50], [48], [104], [57]]"

definition sample_params :: RcopyParams where
  "sample_params = \<lparr>src_filename = strncpy_array 100 [97], dest_filename = strncpy_array 100 [98], window_size = 4,
     buffer_size = 2, error_rate = 0, remote_machine = strncpy_array 256 [104], remote_port = 9\<rparr>"

definition sample_client :: "(int \<times> int list) list \<Rightarrow> recv_event list \<Rightarrow> client" where
  "sample_client pq rq = (idle_client pq rq)\<lparr>sys_q := [3], pset := empty_pollset\<rparr>"

definition sample_file :: "byte list" where
  "sample_file = [10, 11, 20, 21, 30, 31, 40, 41, 50, 51]"

definition sample_server :: server_proc where
  "sample_server = idle_server [[97] \<mapsto> sample_file] [] [] [0, 6, 0, 0]"

lemma sample_params_facts:
  "buffer_size sample_params = 2" "window_size sample_params = 4" "cstring (dest_filename sample_params) = [98]"
  by (simp_all add: sample_params_def cstring_strncpy) (simp add: cstring_def)

lemma sample_sides:
  "can_start sample_args sample_params 3 (sample_client pq rq)"
  "can_serve (take 100 (src_filename sample_params)) [97] sample_file 1 \<lparr>error_rate = 0, port_number = 5\<rparr> sample_server"
proof -
  have n: "atoi [52] = 4" "atoi [50] = 2" "atoi [57] = 9" "atof (\<lambda>r. r) [48] = 0" by code_simp+
  have "Rcopy.checkArgs sample_args (sample_client pq rq) = Ok sample_params (sample_client pq rq)"
    using n by (simp add: Rcopy.checkArgs_def sample_args_def sample_client_def idle_client_def sample_params_def
        MAX_FILENAME_LEN_def MAX_REMOTE_MACHINE_def)
  then show "can_start sample_args sample_params 3 (sample_client pq rq)"
    by (simp add: can_start_def sample_client_def idle_client_def POLL_SET_SIZE_def channel_ok_def drop_channel_def)
  have "take 100 (src_filename sample_params) = 97 # replicate 99 0"
    by (simp add: sample_params_def strncpy_array_def)
  then have "c_string (take 100 (src_filename sample_params)) = Inr [97]"
    by (simp add: c_string_def cstring_def takeWhile_replicate)
  then show "can_serve (take 100 (src_filename sample_params)) [97] sample_file 1 \<lparr>error_rate = 0, port_number = 5\<rparr> sample_server"
    by (simp add: can_serve_def able_to_serve_def sample_server_def idle_server_def POLL_SET_SIZE_def channel_ok_def drop_channel_def
        plenty_def ps_ok_def)
qed

theorem copy_comes_from_the_source_witness:
  "\<exists>ds copy. copy = file_contents (final (Rcopy.main sample_args (sample_client (replicate 9 (ready 3))
      (map (Datagram \<lparr>sin6_addr = 8, sin6_port = 9\<rparr>) (rev ds @ ds))))) [98]
    \<and> (copy = [] \<or> length copy = 2 \<and> (starts_with_chunk sample_file 2 copy \<or> copy = [0, 0]))"
proof -
  let ?ds = "sent_by_child [97, 0] 2 4 1 \<lparr>error_rate = 0, port_number = 5\<rparr> sample_server"
  let ?w = "sample_client (replicate 9 (ready 3)) (map (Datagram \<lparr>sin6_addr = 8, sin6_port = 9\<rparr>) (rev ?ds @ ?ds))"
  have v: "reliable ?w" "drop_channel (pmgr sample_server)" "data_sequence_number sample_server = 0"
    "file_contents sample_server (cstring [97, 0]) = sample_file"
    by (simp_all add: sample_client_def idle_client_def reliable_def drop_channel_def sample_server_def idle_server_def
        file_contents_def cstring_def)
  have a: "atoi (sample_args ! 4) = uint (2 :: u16)" "cstring (sample_args ! 2) = [98]" by code_simp+
  have w: "file_contents ?w [98] = []" "heap_fn ?w j = Some (\<lambda>_. 0)" for j
    by (simp_all add: sample_client_def idle_client_def file_contents_def)
  have j: "junk_bytes (\<lambda>_. 0) 7 2 = [0, 0]" by (simp add: junk_bytes_def eval_nat_numeral)
  show ?thesis
    using copy_comes_from_the_source [OF v(1-3), of "[97, 0]" 2 4 1 "\<lparr>error_rate = 0, port_number = 5\<rparr>" sample_args] v(4) a w j
    by (intro exI [of _ ?ds]) (auto simp: sample_file_def sample_client_def idle_client_def)
qed

section \<open>Copies\<close>

text \<open>The client takes a burst that arrives in order, and acknowledges its first packet.\<close>

lemma client_takes_burst:
  assumes "can_start argv p s w" "buffer_size p \<le> 255" "window_size p < 65536" "buffer_size p \<le> int (length src)"
    and "length talk = 7" "talk ! 6 = 33" "length ok = 7" "ok ! 6 = 9" "ds \<noteq> []" "length ds \<le> nat (window_size p) + 1"
    and "\<And>i. i < length ds \<Longrightarrow> is_data_pdu (ds ! i) (word_of_nat i) (chunk src (buffer_size p) i)"
    and "recv_q w = map (Datagram a) (talk # ok # ds) @ rq" "poll_q w = replicate (length ds + 2) (ready s) @ q"
  obtains u rb where "online s u" "rb_ok rb" "poll_q u = q" "recv_q u = rq"
    "fs u = (fs w)(cstring (dest_filename p) \<mapsto> take (nat (buffer_size p)) src)"
    "quiet_client p w \<longrightarrow> lossless u \<and> map (\<lambda>(_, _, d). d) (sent u) =
       map (\<lambda>(_, _, d). d) (sent w) @ [sealed_request p @ [static_next w], final_rr 0 1]"
    "\<forall>w'. getDataLoop s p (cstring (dest_filename p)) rb 0 u = Ok RcopyData.DONE w' \<longrightarrow>
       Rcopy.main argv w = Ok 0 (w'\<lparr>closed := closed w' @ [s]\<rparr>)"
    "\<forall>r w'. getDataLoop s p (cstring (dest_filename p)) rb 0 u = Stop r w' \<longrightarrow> Rcopy.main argv w = Stop r w'"
proof -
  let ?fp = "cstring (dest_filename p)" and ?c = "chunk src (buffer_size p)"
  have pos: "0 < buffer_size p" "0 < window_size p"
    using assms(1) checkArgs_Ok(3,4) by (auto simp: can_start_def)
  have b14: "buffer_size p \<le> 1400" using assms(2) by simp
  obtain d ds' where ds: "ds = d # ds'" using assms(9) by (cases ds) auto
  have q: "poll_q w = ready s # ready s # replicate (length ds) (ready s) @ q"
    "recv_q w = Datagram a talk # Datagram a ok # map (Datagram a) ds @ rq" using assms(12,13) by simp_all
  obtain u rbuf where "data_phase argv p s w u rbuf" "poll_q u = replicate (length ds) (ready s) @ q"
    "recv_q u = map (Datagram a) ds @ rq"
    by (rule client_enters_data_phase [OF assms(1) _ q assms(5-8)]) (use assms(3) in auto)
  then have u: "online s u" "fs u = (fs w)(?fp \<mapsto> [])" "poll_q u = replicate (Suc (length ds')) (ready s) @ q"
    "recv_q u = map (Datagram a) (d # ds') @ rq" "subState u = IN_ORDER" "rb_ok rbuf" "expected rbuf = 0" "rb_window_size rbuf = window_size p"
    "rr_seq_num u = 0"
    "quiet_client p w \<Longrightarrow> lossless u \<and> map (\<lambda>(_, _, d). d) (sent u) = map (\<lambda>(_, _, d). d) (sent w) @ [sealed_request p @ [static_next w]]"
    "\<And>w'. getDataLoop s p ?fp rbuf 0 u = Ok RcopyData.DONE w' \<Longrightarrow> Rcopy.main argv w = Ok 0 (w'\<lparr>closed := closed w' @ [s]\<rparr>)"
    "\<And>r w'. getDataLoop s p ?fp rbuf 0 u = Stop r w' \<Longrightarrow> Rcopy.main argv w = Stop r w'"
    using ds by (simp_all add: data_phase_def)
  have "is_data_pdu d (word_of_nat 0) (?c 0)" using assms(11) [of 0] ds by simp
  note first = data_pdu_arrives [OF this pos(1) b14]
  have later: "fits p e \<and> \<not> pdu_seq e < word_of_int (expected rbuf + 1)" if "e \<in> set ds'" for e
  proof -
    from that obtain i where i: "i < length ds'" "e = ds' ! i" by (auto simp: in_set_conv_nth)
    have e: "is_data_pdu e (word_of_nat (Suc i)) (?c (Suc i))" using assms(11) [of "Suc i"] i ds by simp
    have "Suc i < 4294967296" using i(1) assms(3,10) ds by simp
    then have "unat (word_of_nat (Suc i) :: u32) = Suc i"
      by (simp only: unsigned_of_nat) (simp add: take_bit_nat_eq_self)
    then have "\<not> (word_of_nat (Suc i) :: u32) < word_of_int (expected rbuf + 1)"
      unfolding word_less_nat_alt u(7) by simp
    then show ?thesis using data_pdu_arrives(1,2) [OF e pos(1) b14] by (simp only:) simp
  qed
  have W: "expected rbuf + 1 + rb_window_size rbuf < 2147483648" "pdu_seq d = word_of_int (expected rbuf)"
    using u(7,8) assms(3) first(2) by simp_all
  obtain e rb v where v: "getDataLoop s p ?fp rbuf 0 u = getDataLoop s p ?fp rb 0 v" "rb_ok rb" "online s v" "poll_q v = q" "recv_q v = rq"
    "fs v = (fs u)(?fp \<mapsto> file_contents u ?fp @ take (nat (buffer_size p)) (drop 7 d @ e))"
    "tells [final_rr (rr_seq_num u) (word_of_int (expected rbuf + 1))] u v"
    by (rule expected_packet_then_skipped [OF u(1,5,6) W(1) u(3,4) first(1) W(2) pos(1) b14 later])
  have "drop 7 d = take (nat (buffer_size p)) src" "length (drop 7 d) = nat (buffer_size p)"
    using first(3) assms(4) pos(1) by (simp_all add: chunk_def nat_le_iff)
  then have f: "fs v = (fs w)(?fp \<mapsto> take (nat (buffer_size p)) src)"
    using v(6) u(2) by (simp add: file_contents_def)
  have "lossless v \<and> map (\<lambda>(_, _, d). d) (sent v) =
      map (\<lambda>(_, _, d). d) (sent w) @ [sealed_request p @ [static_next w], final_rr 0 1]" if "quiet_client p w"
    using u(7,9,10) v(7) that by (auto simp: tells_def)
  then show ?thesis using v(1-5) f u(11,12) by (intro that [of v rb]) auto
qed



text \<open>
  C9. Reordering makes it the wrong chunk: when the first five data packets of the child
  arrive in the order 2, 3, 0, 4, 1 (all of them, each once), \<open>main\<close> still ends with
  status 0, but the destination is the second chunk of the source. Packet 0 arrives while
  the client waits for it, and is dropped.
\<close>

theorem reordering_copies_the_wrong_chunk:
  assumes "can_start argv p s w" "can_serve (take 100 (src_filename p)) path src m sp v"
    and "buffer_size p \<le> 255" "4 \<le> window_size p" "window_size p < 65536" "4 * nat (buffer_size p) < length src"
    and "recv_q w = map (\<lambda>i. Datagram a (child_answers p m sp v ! i)) [0, 1, 4, 5, 2, 6, 3] @ rq"
    and "poll_q w = replicate 7 (ready s) @ (0, revs) # q"
  shows "\<exists>w'. Rcopy.main argv w = Ok 0 w'
    \<and> fs w' = (fs w)(cstring (dest_filename p) \<mapsto> chunk src (buffer_size p) 1) \<and> 7 \<le> length (child_answers p m sp v)"
proof -
  let ?fp = "cstring (dest_filename p)" and ?c = "chunk src (buffer_size p)"
  have pos: "0 < buffer_size p" using assms(1) checkArgs_Ok(4) by (auto simp: can_start_def)
  have b14: "buffer_size p \<le> 1400" using assms(3) by simp
  obtain talk ok ds where t: "child_answers p m sp v = talk # ok # ds"
    "length ds = min (chunk_count (buffer_size p) src) (nat (window_size p) + 1)"
    "\<And>i. i < length ds \<Longrightarrow> is_data_pdu (ds ! i) (word_of_nat i) (?c i)"
    "\<And>a q rq. poll_q w = ready s # ready s # q \<Longrightarrow> recv_q w = Datagram a talk # Datagram a ok # rq \<Longrightarrow>
      \<exists>u rbuf. data_phase argv p s w u rbuf \<and> poll_q u = q \<and> recv_q u = rq"
    by (rule conversation [OF assms(1-3,5)], rule that)
  have "4 < chunk_count (buffer_size p) src" by (rule more_chunks [OF pos assms(6)])
  then have l: "5 \<le> length ds" using t(2) assms(4) by simp
  have pq: "poll_q w = ready s # ready s # replicate 5 (ready s) @ (0, revs) # q"
    using assms(8) by (simp add: eval_nat_numeral)
  obtain u rbuf where "data_phase argv p s w u rbuf" "poll_q u = replicate 5 (ready s) @ (0, revs) # q"
    "recv_q u = map (Datagram a) [ds ! 2, ds ! 3, ds ! 0, ds ! 4, ds ! 1] @ rq"
    using t(4) [OF pq, of a "map (Datagram a) [ds ! 2, ds ! 3, ds ! 0, ds ! 4, ds ! 1] @ rq"] assms(7) t(1) by auto
  then have u: "online s u" "fs u = (fs w)(?fp \<mapsto> [])" "poll_q u = replicate 5 (ready s) @ (0, revs) # q"
    "recv_q u = map (Datagram a) [ds ! 2, ds ! 3, ds ! 0, ds ! 4, ds ! 1] @ rq" "subState u = IN_ORDER" "rb_ok rbuf"
    "expected rbuf = 0" "highest rbuf = - 1" "rb_window_size rbuf = window_size p" "\<And>t. held rbuf t = None"
    "\<And>w'. getDataLoop s p ?fp rbuf 0 u = Ok RcopyData.DONE w' \<Longrightarrow> Rcopy.main argv w = Ok 0 (w'\<lparr>closed := closed w' @ [s]\<rparr>)"
    by (simp_all add: data_phase_def)
  have d: "fits p (ds ! i)" "pdu_seq (ds ! i) = word_of_nat i" "drop 7 (ds ! i) = ?c i" "ds ! i ! 6 = 16" if "i \<le> 4" for i
    using data_pdu_arrives [OF t(3) pos b14, of i] that l by auto
  have W: "4 \<le> rb_window_size rbuf" "rb_window_size rbuf < 2147483000" using u(9) assms(4,5) by simp_all
  have f: "fits p e" if "e \<in> {ds ! 0, ds ! 1, ds ! 2, ds ! 3, ds ! 4}" for e using that d(1) by auto
  obtain w' e where w': "getDataLoop s p ?fp rbuf 0 u = Ok RcopyData.DONE w'"
    "fs w' = (fs u)(?fp \<mapsto> file_contents u ?fp @ take (nat (buffer_size p)) (drop 7 (ds ! 1) @ e))"
    using late_first_packet [OF u(1,5,6,7,8) W u(10,3,4) f pos b14, of ?fp] d(2,4) by auto
  have "length (?c 1) = nat (buffer_size p)" using assms(6) by (simp add: chunk_def)
  then have "take (nat (buffer_size p)) (drop 7 (ds ! 1) @ e) = ?c 1" using d(3) [of 1] by (simp only:) simp
  then have "fs w' = (fs w)(?fp \<mapsto> ?c 1)"
    using w'(2) u(2) by (simp add: file_contents_def)
  then show ?thesis using u(11) [OF w'(1)] t(1) l by auto
qed

theorem reordering_copies_the_wrong_chunk_witness:
  "\<exists>ds w'. Rcopy.main sample_args (sample_client (replicate 7 (ready 3) @ [(0, [])])
      (map (\<lambda>i. Datagram \<lparr>sin6_addr = 8, sin6_port = 9\<rparr> (ds ! i)) [0, 1, 4, 5, 2, 6, 3])) = Ok 0 w' \<and> fs w' [98] = Some [20, 21]"
proof -
  let ?ds = "child_answers sample_params 1 \<lparr>error_rate = 0, port_number = 5\<rparr> sample_server"
  let ?w = "sample_client (replicate 7 (ready 3) @ [(0, [])]) (map (\<lambda>i. Datagram \<lparr>sin6_addr = 8, sin6_port = 9\<rparr> (?ds ! i)) [0, 1, 4, 5, 2, 6, 3])"
  note p = sample_params_facts
  obtain w' where "Rcopy.main sample_args ?w = Ok 0 w'" "fs w' = (fs ?w)([98] \<mapsto> chunk sample_file 2 1)"
    using reordering_copies_the_wrong_chunk [OF sample_sides, where rq = "[]" and revs = "[]" and q = "[]" and a = "\<lparr>sin6_addr = 8, sin6_port = 9\<rparr>"] p
    by (auto simp: sample_client_def idle_client_def sample_file_def)
  then show ?thesis by (intro exI [of _ ?ds] exI [of _ w']) (simp add: sample_file_def chunk_def)
qed

end
