(* ===== verification/Stalling.thy ===== *)
theory Stalling
  imports Server RcopyData
begin

text \<open>
  What the first acknowledgement of rcopy does to a child that has sent its first burst:
  the RR carries the client's own counter, 0, so the window does not open; packet
  \<open>W\<close>, which is stored in the slot of packet 0, is released with it, and from then on the child
  only resends packet 1.
\<close>

section \<open>Nothing acknowledged after a burst\<close>

definition unacked :: "SenderWindow \<Rightarrow> int \<Rightarrow> bool" where
  "unacked window t \<longleftrightarrow> (case sw_slot window t of None \<Rightarrow> False | Some p \<Rightarrow> ACK p = 0)"

lemma unacked_put:
  assumes "full_window window" "0 \<le> s" "length d \<le> 1407" "sw_put window s d = Inr wb"
  shows "full_window wb" "unacked wb s" "unacked window t \<Longrightarrow> unacked wb t" "sw_window_size wb = sw_window_size window"
proof -
  obtain wb' p where "sw_put window s d = Inr wb'" "full_window wb'" "sw_window_size wb' = sw_window_size window"
    by (rule full_window_put [OF assms(1-3)])
  then show "full_window wb" "sw_window_size wb = sw_window_size window" using assms(4) by simp_all
  have ok: "sw_ok window" "sw_accepts window s d" using assms(1-3) by (auto simp: full_window_def sw_accepts_def)
  obtain q where "sw_put window s d = Inr (window\<lparr>sw_buffer := (sw_buffer window)[nat (s mod sw_window_size window) := Some (sent_packet q s d)]\<rparr>)"
    by (rule sw_put_eq [OF ok])
  then have wb: "wb = window\<lparr>sw_buffer := (sw_buffer window)[nat (s mod sw_window_size window) := Some (sent_packet q s d)]\<rparr>"
    using assms(4) by simp
  have "sw_slot wb u = (if sw_window_size window dvd (u - s) then Some (sent_packet q s d) else sw_slot window u)" for u
    by (rule sw_slot_update [OF ok(1)]) (simp_all add: wb)
  then show "unacked wb s" "unacked window t \<Longrightarrow> unacked wb t"
    by (simp_all add: unacked_def sent_packet_def)
qed

lemma unacked_run:
  assumes "full_window window" "0 \<le> s" "\<forall>d \<in> set ds. length d \<le> 1407" "sender_ring.put_all window s ds = Inr wb"
  shows "(\<forall>t. unacked window t \<longrightarrow> unacked wb t) \<and> (\<forall>i < length ds. unacked wb (s + int i))"
  using assms
proof (induction ds arbitrary: window s)
  case (Cons d ds)
  obtain w1 where w1: "sw_put window s d = Inr w1" "sender_ring.put_all w1 (s + 1) ds = Inr wb"
    using Cons.prems(4) by (auto simp: sbind_Inr_iff)
  note p = unacked_put [OF Cons.prems(1,2) _ w1(1)]
  have l: "length d \<le> 1407" "\<forall>d \<in> set ds. length d \<le> 1407" using Cons.prems(3) by simp_all
  note ih = Cons.IH [OF p(1) _ l(2) w1(2)]
  have "unacked wb (s + int i)" if "i < length (d # ds)" for i
    using ih p(2) l(1) that Cons.prems(2) by (cases i) (auto simp: algebra_simps)
  then show ?case using ih p(3) l(1) Cons.prems(2) by auto
qed simp

section \<open>The first RR\<close>

lemma first_rr_fields:
  "length (final_rr k r) = 11" "final_rr k r ! 6 = 5" "getSequenceFromBuffer (take 7 (final_rr k r)) = k"
  by (simp_all add: final_rr_def Let_def makeRR_SREJPacketAfterChecksum_def pdu_layouts memcpy_at_def nth_append
      getSequenceFromBuffer_head)

lemma first_rr_handled:
  assumes "sw_ok window" "sw_window_size window = int W" "lower window = 0" "upper window = int W" "current window = int W"
    and "2 \<le> W" "W < 2147483000" "sw_slot window 0 \<noteq> None"
  obtains window' where "handle_control 7 (take 7 (final_rr 0 n)) window w = Ok window' w" "sw_ok window'"
    "\<not> canSendMorePackets window'" "lower window' = 1" "upper window' = int W" "sw_slot window' (int W) = None"
    "sw_slot window' 1 = sw_slot window 1"
proof -
  obtain p where p: "sw_slot window 0 = Some p" using assms(8) by blast
  let ?w1 = "window\<lparr>sw_buffer := (sw_buffer window)[nat (0 mod sw_window_size window) := Some (p\<lparr>ACK := 1\<rparr>)]\<rparr>"
  have a: "acknowledgePacket window 0 = Inr ?w1"
    using sender_slot_eq(1,2) [OF assms(1), of 0] p by (simp add: acknowledgePacket_def)
  have "length (data p) = 1407" by (rule sw_okD(3) [OF assms(1) p])
  then have ok: "sw_ok ?w1" by (intro sw_ok_update [OF assms(1)]) auto
  have sl: "sw_slot ?w1 t = (if sw_window_size window dvd (t - 0) then Some (p\<lparr>ACK := 1\<rparr>) else sw_slot window t)" for t
    by (rule sw_slot_update [OF assms(1)]) simp_all
  obtain w2 where b: "advanceSenderWindow ?w1 1 = Inr w2" "sw_ok w2" "lower w2 = 1"
      "upper w2 = 1 + int W - 1" "current w2 = int W"
      "\<And>t. sw_slot w2 t = (if \<exists>k. 0 \<le> k \<and> k < 1 \<and> int W dvd (t - k) then None else sw_slot ?w1 t)"
    using advanceSenderWindow_eq [OF ok, of 1] assms(2,3,5,7) by auto
  have z: "(\<exists>k. 0 \<le> k \<and> k < (1::int) \<and> int W dvd (t - k)) \<longleftrightarrow> int W dvd t" for t
    by (auto intro: exI [of _ 0]) (metis diff_zero int_one_le_iff_zero_less less_le_not_le order_antisym_conv linorder_not_less)
  have d: "\<not> int W dvd 1" using assms(6) by simp
  have f: "take 7 (final_rr 0 n) ! 6 = 5" "getSequenceFromBuffer (take 7 (final_rr 0 n)) = 0"
    using first_rr_fields [of 0 n] by simp_all
  have "handle_control 7 (take 7 (final_rr 0 n)) window w = Ok w2 w"
    using f a b(1) by (simp add: handle_control_def)
  then show ?thesis using b sl [of 1] d assms(2)
    by (intro that [of w2]) (simp_all add: z canSendMorePackets_def)
qed

section \<open>Resending for ever\<close>

lemma stalled:
  assumes "\<not> canSendMorePackets window" "sw_ok window" "0 \<le> lower window" "lower window \<le> upper window"
    and "sw_slot window (lower window) = Some p" "ACK p = 0" "0 \<le> data_size p" "data_size p \<le> 1400"
    and "lossless w" "poll_q w = as" "\<forall>a \<in> set as. fst a = 0"
  shows "\<exists>w'. wait_control window w = Stop Blocked w' \<and> sent w' = sent w
    @ replicate (length as) (child_server_socket w, client w, take (nat (data_size p + 7)) (data p))"
  using assms(9-11)
proof (induction as arbitrary: w)
  case Nil
  then show ?case using assms(1)
    by (intro exI [of _ w]) (simp add: wait_control.simps [of window w] World.pollCall_def)
next
  case (Cons a as)
  obtain revs where a: "a = (0, revs)" using Cons.prems(3) by (cases a) simp
  let ?w1 = "w\<lparr>poll_q := as, pset := poll_writes revs (pset w)\<rparr>"
  have p1: "World.pollCall 1000 w = Ok (- 1) ?w1" using pollCall_timeout [of w revs as] Cons.prems(2) a by simp
  have l1: "lossless ?w1" using Cons.prems(1) by (simp add: lossless_def channel_ok_def)
  have l: "lowest_unacked window (lower window) (nat (upper window - lower window + 1)) = Inr (Some p)"
    by (rule lowest_unacked_eq [OF assms(2,3) order_refl _ assms(5,6)]) (use assms(4) in auto)
  have n: "s32 (data_size p + 7) = data_size p + 7" using assms(7,8) by (simp add: s32_id int_range_def)
  have d: "length (data p) = 1407" by (rule sw_okD(3) [OF assms(2,5)])
  obtain pm k where s: "sendtoErr (child_server_socket ?w1) (data p) (data_size p + 7) (client ?w1) ?w1 =
      Ok (data_size p + 7) (?w1\<lparr>pmgr := pm, send_no := k,
        sent := sent ?w1 @ [(child_server_socket ?w1, client ?w1, take (nat (data_size p + 7)) (data p))]\<rparr>)"
      "drop_channel pm" "m_ErrorRate pm = m_ErrorRate (pmgr ?w1)"
    by (rule sendtoErr_lossless [OF l1, of "data_size p + 7" "data p" "child_server_socket ?w1" "client ?w1"])
      (use assms(7,8) d in auto)
  let ?w2 = "?w1\<lparr>pmgr := pm, send_no := k,
        sent := sent ?w1 @ [(child_server_socket ?w1, client ?w1, take (nat (data_size p + 7)) (data p))]\<rparr>"
  have "wait_control window w = wait_control window ?w2"
    using assms(1) p1 l n s(1) by (subst wait_control.simps) (simp add: resend_lowest_def resend_def)
  moreover have "lossless ?w2" using l1 s(2,3) by (simp add: lossless_def channel_ok_def)
  then obtain w' where "wait_control window ?w2 = Stop Blocked w'" "sent w' = sent ?w2
    @ replicate (length as) (child_server_socket ?w2, client ?w2, take (nat (data_size p + 7)) (data p))"
    using Cons.IH [of ?w2] Cons.prems(3) by auto
  ultimately show ?case by (intro exI [of _ w']) simp
qed

lemma packet_one_in_flight:
  assumes "full_window window" "sender_ring.put_all window 0 ds = Inr wb"
    and "sw_window_size window = int W" "length ds = W + 1" "2 \<le> W" "\<forall>d \<in> set ds. length d \<le> 262"
  shows "in_flight wb 1 = Some (ds ! 1)"
proof -
  have ds: "ds = butlast ds @ [last ds]" using assms(4) by (metis append_butlast_last_id list.size(3) add_is_0 one_neq_zero)
  have "sw_ok window" using assms(1) by (simp add: full_window_def)
  moreover have "sw_accepts window (0 + int i) e" if "e \<in> set (butlast ds @ [last ds])" for i e
    using that assms(1,6) unfolding ds [symmetric] by (fastforce simp: sw_accepts_def full_window_def)
  moreover have "int (length (butlast ds)) = sw_window_size window" using assms(3,4) by simp
  ultimately obtain b where "sender_ring.put_all window 0 (butlast ds @ [last ds]) = Inr b"
      "\<forall>i. 0 < i \<longrightarrow> i < length (butlast ds) \<longrightarrow> in_flight b (0 + int i) = Some (butlast ds ! i)"
    using sender_ring.overfull_run [of window "butlast ds" "last ds" 0] by auto
  moreover have "1 < length (butlast ds)" "butlast ds ! 1 = ds ! 1" using assms(4,5) by (simp_all add: nth_butlast)
  ultimately show ?thesis using assms(2) unfolding ds [symmetric] by auto
qed

text \<open>The window behind the first burst: full, and packet 1 is held, unacknowledged.\<close>

lemma first_burst_holds_packet_one:
  assumes "lossless w" "plenty w" "data_sequence_number w = 0" "0 < bs" "bs \<le> 255"
    and "full_window window" "current window = 0" "lower window = 0" "upper window = int W"
    and "sw_window_size window = int W" "2 \<le> W" "W < 2147483000" "W * nat bs < length src"
  obtains ds win w1 p where "fill_window bs window src w = Ok (None, win, drop ((W + 1) * nat bs) src) w1"
    "length ds = W + 1" "burst ds w w1"
    "\<forall>i < W + 1. is_data_pdu (ds ! i) (word_of_nat i) (take (nat bs) (drop (i * nat bs) src))"
    "sw_ok win" "sw_slot win 0 \<noteq> None" "lower win = 0" "upper win = int W" "current win = int W" "sw_window_size win = int W"
    "sw_slot win 1 = Some p" "ACK p = 0" "length (data p) = 1407" "take (length (ds ! 1)) (data p) = ds ! 1"
    "data_size p = int (length (ds ! 1))" "7 \<le> length (ds ! 1)" "length (ds ! 1) \<le> 262"
proof -
  obtain ds wb w1 where r: "length ds = W + 1"
    "fill_window bs window src w = fill_window bs
        (if W + 1 = 0 then window else wb\<lparr>current := 0 + int (W + 1) - 1\<rparr>) (drop ((W + 1) * nat bs) src) w1"
    "sender_ring.put_all window 0 ds = Inr wb"
    "\<forall>i < W + 1. is_data_pdu (ds ! i) (word_of_int (0 + int i)) (take (nat bs) (drop (i * nat bs) src))"
    "burst ds w w1" "full_window wb" "upper wb = upper window" "lower wb = lower window" "sw_window_size wb = sw_window_size window"
    using fill_run [OF assms(1,2,6,4,5), of "W + 1" src 0] assms(3,7-13) by auto
  define win where "win = wb\<lparr>current := int W\<rparr>"
  have fill: "fill_window bs window src w = Ok (None, win, drop ((W + 1) * nat bs) src) w1"
    using r(2,7) assms(9)
    by (simp add: fill_window.simps [of bs "wb\<lparr>current := int W\<rparr>"] canSendMorePackets_def win_def)
  have sl: "sw_slot win t = sw_slot wb t" for t by (simp add: win_def sw_slot_def)
  have ok: "sw_ok win" "sw_slot win 0 \<noteq> None"
    using r(6) by (simp_all add: full_window_def sl) (simp add: win_def sw_ok_def)
  have len: "\<forall>d \<in> set ds. length d \<le> 262"
    using r(1,4) assms(5) by (auto simp: in_set_conv_nth is_data_pdu_def)
  have l1: "1 < length ds" using r(1) assms(11) by simp
  have "\<forall>d \<in> set ds. length d \<le> 1407" using len by fastforce
  then have "unacked wb (0 + int 1)" using unacked_run [OF assms(6) _ _ r(3)] l1 by blast
  then obtain p where p: "sw_slot win 1 = Some p" "ACK p = 0"
    by (auto simp: unacked_def sl split: option.splits)
  have pd: "take (nat (data_size p)) (data p) = ds ! 1"
    using packet_one_in_flight [OF assms(6) r(3) assms(10) r(1) assms(11) len] p(1) sl
    by (auto simp: in_flight_def split: if_splits)
  have dp: "length (data p) = 1407" by (rule sw_okD(3) [OF ok(1) p(1)])
  have L: "7 \<le> length (ds ! 1)" "length (ds ! 1) \<le> 262"
    using r(4) l1 r(1) bspec [OF len nth_mem [OF l1]] by (auto simp: is_data_pdu_def)
  have "min (nat (data_size p)) 1407 = length (ds ! 1)" using arg_cong [OF pd, of length] dp by (simp add: min.commute)
  then have sz: "data_size p = int (length (ds ! 1))" using L by (auto simp: min_def split: if_splits)
  show ?thesis
    by (rule that [OF fill r(1,5) _ ok _ _ _ _ p dp _ sz L]) (use r(4,7-9) assms(8-10) pd sz in \<open>simp_all add: win_def\<close>)
qed

lemma stalls_after_first_rr:
  assumes "lossless w" "plenty w" "data_sequence_number w = 0" "0 < bs" "bs \<le> 255"
    and "full_window window" "current window = 0" "lower window = 0" "upper window = int W"
    and "sw_window_size window = int W" "2 \<le> W" "W < 2147483000" "W * nat bs < length src"
    and "ps_ok (pset w)" "registered (pset w) c" "0 < c"
    and "poll_q w = ready c # (0, revs) # as" "\<forall>a \<in> set as. fst a = 0"
    and "recv_q w = Datagram a (final_rr 0 1) # rq"
  shows "\<exists>ds r w'. send_data_loop bs window src w = Stop Blocked w' \<and> length ds = W + 1
    \<and> (\<forall>i < W + 1. is_data_pdu (ds ! i) (word_of_nat i) (take (nat bs) (drop (i * nat bs) src)))
    \<and> length r = length (ds ! 1) + 7 \<and> take (length (ds ! 1)) r = ds ! 1
    \<and> sent w' = sent w @ map (\<lambda>d. (child_server_socket w, client w, d)) (ds @ replicate (length as) r)"
proof -
  obtain ds win w1 p where fill: "fill_window bs window src w = Ok (None, win, drop ((W + 1) * nat bs) src) w1"
    and ds: "length ds = W + 1" "burst ds w w1"
      "\<forall>i < W + 1. is_data_pdu (ds ! i) (word_of_nat i) (take (nat bs) (drop (i * nat bs) src))"
    and win: "sw_ok win" "sw_slot win 0 \<noteq> None" "lower win = 0" "upper win = int W" "current win = int W" "sw_window_size win = int W"
    and p: "sw_slot win 1 = Some p" "ACK p = 0" "length (data p) = 1407" "take (length (ds ! 1)) (data p) = ds ! 1"
      "data_size p = int (length (ds ! 1))" "7 \<le> length (ds ! 1)" "length (ds ! 1) \<le> 262"
    by (rule first_burst_holds_packet_one [OF assms(1-13)])
  have b: "lossless w1" "client w1 = client w" "poll_q w1 = ready c # (0, revs) # as" "pset w1 = pset w"
    "child_server_socket w1 = child_server_socket w" "recv_q w1 = Datagram a (final_rr 0 1) # rq"
    "sent w1 = sent w @ map (\<lambda>d. (child_server_socket w, client w, d)) ds"
    using ds(2) assms(17,19) by (simp_all add: burst_def)
  obtain ps where ps: "World.pollCall 0 w1 = Ok c (w1\<lparr>poll_q := (0, revs) # as, pset := ps\<rparr>)" "ps_ok ps"
    by (rule pollCall_ready [of w1 c "(0, revs) # as"]) (use b(3,4) assms(14-16) in auto)
  define w2 where "w2 = w1\<lparr>poll_q := (0, revs) # as, pset := ps, recv_q := rq\<rparr>"
  have rc: "recvfrom (local_array 7 u) 7 u = Ok (7, take 7 (final_rr 0 1), Some a) (u\<lparr>recv_q := rq\<rparr>)"
    if "recv_q u = Datagram a (final_rr 0 1) # rq" for u :: server_proc
    using that first_rr_fields(1) [of 0 1] by (simp add: recvfrom_def Let_def memcpy_at_def local_array_def min_def)
  obtain win2 where h: "handle_control 7 (take 7 (final_rr 0 1)) win w2 = Ok win2 w2" "sw_ok win2"
    "\<not> canSendMorePackets win2" "lower win2 = 1" "upper win2 = int W" "sw_slot win2 (int W) = None"
    "sw_slot win2 1 = sw_slot win 1"
    by (rule first_rr_handled [OF win(1) _ _ _ _ assms(11,12) win(2)]) (use win(3-6) in simp_all)
  have "receive_control win (w1\<lparr>poll_q := (0, revs) # as, pset := ps\<rparr>) = Ok win2 w2"
    using rc [of "w1\<lparr>poll_q := (0, revs) # as, pset := ps\<rparr>"] b(6) h(1) by (simp add: receive_control_def w2_def)
  moreover define w3 where "w3 = w2\<lparr>poll_q := as, pset := poll_writes revs (pset w2)\<rparr>"
  have "World.pollCall 0 w2 = Ok (- 1) w3" using pollCall_timeout [of w2 revs as] by (simp add: w2_def w3_def)
  ultimately have drain: "drain_control win w1 = Ok win2 w3"
    using ps(1) assms(16) by (simp add: drain_control.simps [of win w1] drain_control.simps [of win2 w2])
  have w3: "lossless w3" "poll_q w3 = as" "sent w3 = sent w1" "client w3 = client w" "child_server_socket w3 = child_server_socket w"
    using b by (simp_all add: w3_def w2_def lossless_def channel_ok_def)
  obtain w' where w': "wait_control win2 w3 = Stop Blocked w'" "sent w' = sent w3
    @ replicate (length as) (child_server_socket w3, client w3, take (nat (data_size p + 7)) (data p))"
    using stalled [OF h(3,2) _ _ _ p(2) _ _ w3(1,2) assms(18)] h(4,5,7) p(1,5-7) assms(11) by auto
  have "send_data_loop bs window src w = Stop Blocked w'"
    using fill drain w'(1) by (simp add: send_data_loop.simps [of bs window src w])
  moreover define res where "res = take (nat (data_size p + 7)) (data p)"
  have "length res = length (ds ! 1) + 7" "take (length (ds ! 1)) res = ds ! 1"
    using p(3-7) by (simp_all add: res_def nat_add_distrib min_def)
  ultimately show ?thesis
    using ds(1,3) w'(2) w3(3-5) b(7) by (intro exI [of _ ds] exI [of _ res] exI [of _ w']) (simp add: res_def map_replicate_const)
qed

text \<open>
  C10. The first acknowledgement stalls the child: a child with more than \<open>W\<close> chunks to send
  sends packets 0 to \<open>W\<close>, reads the RR that rcopy sends for packet 0, and from then on
  sends, for every second that passes, nothing but packet 1 again (with seven bytes behind
  it). The window never opens, and the run never returns.
\<close>

theorem first_acknowledgement_stalls_the_child:
  assumes "lossless w" "plenty w" "data_sequence_number w = 0" "0 < bs" "bs \<le> 255"
    and "full_window window" "current window = 0" "lower window = 0" "upper window = int W"
    and "sw_window_size window = int W" "2 \<le> W" "W < 2147483000" "W * nat bs < length src"
    and "ps_ok (pset w)" "registered (pset w) c" "0 < c"
    and "poll_q w = ready c # (0, revs) # as" "\<forall>a \<in> set as. fst a = 0"
    and "recv_q w = Datagram a (final_rr 0 1) # rq"
  shows "\<exists>ds r w'. send_data_loop bs window src w = Stop Blocked w' \<and> length ds = W + 1
    \<and> (\<forall>i < W + 1. is_data_pdu (ds ! i) (word_of_nat i) (take (nat bs) (drop (i * nat bs) src)))
    \<and> length r = length (ds ! 1) + 7 \<and> take (length (ds ! 1)) r = ds ! 1
    \<and> sent w' = sent w @ map (\<lambda>d. (child_server_socket w, client w, d)) (ds @ replicate (length as) r)"
  by (rule stalls_after_first_rr [OF assms])

theorem first_acknowledgement_stalls_the_child_witness:
  "\<exists>window ps w'. send_data_loop 2 window [1, 2, 3, 4, 5, 6] ((idle_server Map.empty
      (ready 4 # replicate 4 (0, [])) [Datagram \<lparr>sin6_addr = 9, sin6_port = 7\<rparr> (final_rr 0 1)] [])\<lparr>pset := ps\<rparr>) = Stop Blocked w'
    \<and> length (sent w') = 6"
proof -
  obtain window k where i: "initSenderWindow (\<lambda>_. Some (\<lambda>_. 0)) 0 2 = (Some window, k)" "sw_ok window" "lower window = 0"
      "upper window = 2" "current window = 0" "sw_window_size window = 2" "\<And>t. sw_slot window t \<noteq> None"
    by (rule initSenderWindow_ok [of 0 "\<lambda>_. Some (\<lambda>_. 0)" 2]) auto
  then have fw: "full_window window" by (simp add: full_window_def)
  obtain ps0 where "PollLib.setupPollSet True empty_pollset = Ok () ps0" by (simp add: PollLib.setupPollSet_def Let_def)
  then obtain ps where ps: "ps_ok ps" "registered ps 4"
    using addToPollSet_ok [OF setupPollSet_ok, of ps0 4 "\<lambda>_. 0"] by (auto simp: POLL_SET_SIZE_def)
  let ?w = "(idle_server Map.empty (ready 4 # replicate 4 (0, [])) [Datagram \<lparr>sin6_addr = 9, sin6_port = 7\<rparr> (final_rr 0 1)] [])\<lparr>pset := ps\<rparr>"
  have w: "lossless ?w" "plenty ?w" "data_sequence_number ?w = 0" "pset ?w = ps" "sent ?w = []"
    "poll_q ?w = ready 4 # (0, []) # replicate 3 (0, [])" "recv_q ?w = Datagram \<lparr>sin6_addr = 9, sin6_port = 7\<rparr> (final_rr 0 1) # []"
    by (simp_all add: idle_server_def lossless_def channel_ok_def drop_channel_def plenty_def eval_nat_numeral)
  have ps': "ps_ok (pset ?w)" "registered (pset ?w) 4" using ps by simp_all
  have win: "upper window = int 2" "sw_window_size window = int 2" using i(4,6) by simp_all
  obtain ds r w' where "send_data_loop 2 window [1, 2, 3, 4, 5, 6] ?w = Stop Blocked w'" "length ds = 2 + 1"
    "sent w' = sent ?w @ map (\<lambda>d. (child_server_socket ?w, client ?w, d)) (ds @ replicate 3 r)"
    using first_acknowledgement_stalls_the_child [OF w(1-3) _ _ fw i(5,3) win _ _ _ ps' _ w(6) _ w(7), of 2 "[1, 2, 3, 4, 5, 6]"] by auto
  then show ?thesis using w(5) by (intro exI [of _ window] exI [of _ ps] exI [of _ w']) simp
qed

end
