(* ===== verification/SentLog.thy ===== *)
theory SentLog
  imports Rcopy Server
begin

text \<open>
  What a process has handed to the network is never taken back: at every point of a run of
  either program, the datagrams sent so far are a prefix of those of the whole run. The interfaces for
  whole runs are extended to the outermost loop of the client, and interpreted on this order.
\<close>

section \<open>The loop of the client\<close>

locale client_runs = exchange_effects R + receiver_runs R for R :: "client \<Rightarrow> client \<Rightarrow> bool" +
  assumes R_redirect: "R w (redirect w)"
    and R_addToPollSet [simp]: "R w (final (addToPollSet s w))"
    and R_close_socket [simp]: "R w (final (close_socket s w))"
    and R_truncate: "R w (w\<lparr>fs := f\<rparr>)"
begin

lemma R_give_up [simp]: "R w (final (give_up s w))"
  unfolding give_up_def by (auto intro!: bnd_final)

lemma R_send_filename_loop [simp]: "R w (final (send_filename_loop s b n w))"
proof (induction s b n w rule: send_filename_loop.induct)
  case (1 s b n w)
  have "R w2 (final (send_filename_loop s b (Suc n) w2))"
    if "n < 9" "sendtoErr s (b @ [static_next w]) 114 (server w) w = Ok r w1" "\<not> r < 0"
      "pollCall 1000 w1 = Ok (- 1) w2" for r w1 w2
    using 1 [OF that refl] by simp
  then show ?case
    unfolding send_filename_loop.simps [of s b n w] by (auto intro!: bnd_final R_redirect)
qed

lemma R_doSendFilenameState [simp]: "R w (final (doSendFilenameState s b w))"
  unfolding doSendFilenameState_def by (auto intro!: bnd_final)

lemma R_doFileValidState [simp]: "R w (final (doFileValidState p s w))"
  unfolding doFileValidState_def checkDestFile_def fopen_wb_def
  by (auto intro!: bnd_final R_truncate R_trans [OF R_truncate R_file_valid_loop])

lemma R_rcopy_fsm [simp]: "R w (final (rcopy_fsm p s b st w))"
proof (induction p s b st w rule: rcopy_fsm.induct)
  case (1 p s b st w)
  then show ?case
    unfolding rcopy_fsm.simps [of p s b st w] by (cases st) (auto intro!: bnd_final)
qed

end

section \<open>The log of datagrams\<close>

definition sends_more :: "'z world_scheme \<Rightarrow> 'z world_scheme \<Rightarrow> bool" where
  "sends_more w w' \<longleftrightarrow> (\<exists>ds. sent w' = sent w @ ds)"

lemma sends_more_same: "sent w' = sent w \<Longrightarrow> sends_more w w'"
  by (simp add: sends_more_def)

lemma sends_more_refl: "sends_more w w"
  by (rule sends_more_same) simp

lemma sends_more_trans: "sends_more u v \<Longrightarrow> sends_more v w \<Longrightarrow> sends_more u w"
  by (auto simp: sends_more_def)

lemma sends_more_calls:
  "sends_more w (final (World.pollCall t w))" "sends_more w (final (recvfrom buf len w))"
  "sends_more w (final (malloc n w))" "sends_more w (final (World.removeFromPollSet s w))"
  "sends_more w (final (World.addToPollSet s w))" "sends_more w (final (close_socket s w))"
  "sends_more w (final (sendtoErr s buf sz dest w))" "sends_more w (final (forkMod w))"
  using final_pollCall [of t w] final_recvfrom [of buf len w] final_removeFromPollSet [of s w]
    final_addToPollSet [of s w] final_sendtoErr [of s buf sz dest w] final_forkMod [of w]
  by (auto simp: sends_more_def malloc_def close_socket_def)

interpretation client_log: client_runs "sends_more :: client \<Rightarrow> client \<Rightarrow> bool"
  by unfold_locales
    (simp_all add: sends_more_refl sends_more_calls, auto intro: sends_more_trans
      simp: sends_more_def fwrite_def fopen_ab_def redirect_def Let_def)

interpretation server_log: process_effects "sends_more :: server_proc \<Rightarrow> server_proc \<Rightarrow> bool"
  by unfold_locales
    (simp_all add: sends_more_refl sends_more_calls, auto intro: sends_more_trans
      simp: sends_more_def syscall_def init_errors_def split: list.split)

lemma sends_moreE:
  assumes "sends_more w w'"
  obtains ds where "sent w' = sent w @ ds"
  using assms by (auto simp: sends_more_def)

end
