(* ===== verification/Conversation.thy ===== *)
theory Conversation
  imports Copying Stalling SentLog
begin

text \<open>
  The whole system: one run of the client and one of the server process that serves it, where
  the inbox of each is what the other one sends.
\<close>

section \<open>What the two processes send\<close>

definition client_sends :: "byte list list \<Rightarrow> client \<Rightarrow> byte list list" where
  "client_sends argv w = map (\<lambda>(_, _, d). d) (drop (length (sent w)) (sent (final (Rcopy.main argv w))))"

definition server_sends :: "int \<Rightarrow> ServerParams \<Rightarrow> byte list \<Rightarrow> server_proc \<Rightarrow> byte list list" where
  "server_sends m sp buffer v =
     map (\<lambda>(_, _, d). d) (drop (length (sent v)) (sent (final (server_loop m sp buffer v))))"

lemma datagrams_grow:
  assumes "sends_more u v"
  obtains es where "map (\<lambda>(_, _, d). d) (sent v) = map (\<lambda>(_, _, d). d) (sent u) @ es"
  using assms by (auto simp: sends_more_def)

lemma sent_after:
  assumes "map (\<lambda>(_, _, d). d) (sent v) = map (\<lambda>(_, _, d). d) (sent u) @ es"
  shows "map (\<lambda>(_, _, d). d) (drop (length (sent u)) (sent v)) = es"
  unfolding drop_map [symmetric] assms by simp

lemma chunk_fits:
  assumes "0 < bs" "0 < (n::int)" "nat n * nat bs < length src"
  shows "bs \<le> int (length src)"
proof -
  have "1 * nat bs \<le> nat n * nat bs" using assms(2) by (intro mult_right_mono) auto
  then show ?thesis using assms(3) by linarith
qed

section \<open>The client's part\<close>

lemma request_comes_first:
  assumes "can_start argv p s w" "quiet_client p w"
  obtains rest where "client_sends argv w = (sealed_request p @ [static_next w]) # rest"
proof -
  note cs = assms(1) [unfolded can_start_def]
  have ca: "Rcopy.checkArgs argv w = Ok p w" using cs by blast
  obtain ip where ip: "addr_info w (cstring (remote_machine p)) = Some ip" using cs by blast
  obtain sq' where sq': "sys_q w = s # sq'" using cs by (cases "sys_q w") auto
  have h: "0 < s" "s + POLL_SET_SIZE < 2147483648" "channel_ok w" "\<forall>k. send_ok w k" "\<forall>k. heap_fn w k \<noteq> None"
    "pset w = empty_pollset" using cs by blast+
  obtain x b where x: "Rcopy.main argv w = bnd (rcopy_fsm p s b RcopyData.SEND_FILENAME x) (\<lambda>_ w. bnd (close_socket s w) (\<lambda>_ w. Ok 0 w))"
    "length b = 113" "channel_ok x" "ps_ok (pset x)" "heap_fn x = heap_fn w" "send_ok x = send_ok w"
    "b = sealed_request p" "sent x = sent w" "static_next x = static_next w" "quiet_client p w \<Longrightarrow> lossless x"
    by (rule main_starts [OF ca ip sq' _ h(3,5,6)]) (use h(1,4) in \<open>auto simp: quiet_client_def\<close>)
  obtain g where g: "heap_fn x (heap_no x) = Some g" using h(5) x(5) by (metis not_Some_eq)
  obtain ps where ps: "PollLib.addToPollSet (Some g) s (pset x) = Ok () ps" "ps_ok ps" "registered ps s"
    using addToPollSet_ok [OF x(4) _ h(2), of g] h(1) by auto
  define w1 where "w1 = x\<lparr>heap_no := heap_no x + 1, pset := ps\<rparr>"
  have a: "World.addToPollSet s x = Ok () w1"
    using g ps(1) by (simp add: World.addToPollSet_def on_pset_def w1_def)
  have "online s w1" using x(3,5,6) h(1,4,5) ps(2,3) by (simp add: online_def w1_def channel_ok_def)
  then obtain w2 where w2: "sendtoErr s (b @ [static_next w1]) 114 (server w1) w1 = Ok 114 w2"
      "tells [b @ [static_next w1]] w1 w2"
    by (rule online_send [of s w1 114 "b @ [static_next w1]" "server w1"]) (use x(2) in simp_all)
  have "sends_more w2 (final (send_filename_loop s b 0 w1))"
    unfolding send_filename_loop.simps [of s b 0 w1] using w2(1) by (auto intro!: client_log.bnd_final client_log.R_redirect)
  then have "sends_more w2 (final (doSendFilenameState s b x))"
    using a h(1) by (simp add: doSendFilenameState_def)
  then have "sends_more w2 (final (rcopy_fsm p s b RcopyData.SEND_FILENAME x))"
    by (auto simp: rcopy_fsm.simps [of p s b RcopyData.SEND_FILENAME] intro!: client_log.bnd_final)
  then have "sends_more w2 (final (Rcopy.main argv w))"
    unfolding x(1) by (rule client_log.bnd_final) (auto intro!: client_log.bnd_final)
  then obtain es where es: "map (\<lambda>(_, _, d). d) (sent (final (Rcopy.main argv w))) = map (\<lambda>(_, _, d). d) (sent w2) @ es"
    by (rule datagrams_grow)
  moreover have "lossless w1" "sent w1 = sent w" using x(8,10) assms(2) by (simp_all add: w1_def)
  then have "map (\<lambda>(_, _, d). d) (sent w2) = map (\<lambda>(_, _, d). d) (sent w) @ [b @ [static_next w1]]"
    using w2(2) by (simp add: tells_def)
  ultimately have "client_sends argv w = (b @ [static_next w1]) # es"
    unfolding client_sends_def by (intro sent_after) simp
  then show ?thesis using x(7,9) by (intro that) (simp add: w1_def)
qed

section \<open>The server's part\<close>

text \<open>A server that waits for a request, and whose child, once forked, has what it needs.\<close>

definition awaits_request :: "int \<Rightarrow> RcopyParams \<Rightarrow> byte list \<Rightarrow> byte list \<Rightarrow> int \<Rightarrow> ServerParams \<Rightarrow> byte list \<Rightarrow>
    server_proc \<Rightarrow> server_proc \<Rightarrow> bool" where
  "awaits_request c p path src m sp buffer v v1 \<longleftrightarrow> length buffer = 114
     \<and> (\<exists>r. World.pollCall (- 1) v = Ok r v1 \<and> 0 \<le> r)
     \<and> able_to_serve c (take 100 (src_filename p)) path src m sp v1 \<and> 0 < c"

text \<open>The child up to its first read of the source, inside the run of the server.\<close>

lemma request_starts_child:
  assumes "awaits_request c p path src m sp buffer v v1" "recv_q v1 = Datagram b (sealed_request p @ [x]) # rq"
    and "length (src_filename p) = 101" "0 < buffer_size p" "buffer_size p \<le> 255" "0 < window_size p" "window_size p < 65536"
  obtains talk ok window y K where
    "server_loop m sp buffer v = bnd (send_data_loop (buffer_size p) window src y) K"
    "\<forall>st w. sends_more w (final (K st w))"
    "sent y = sent v @ [(c, b, talk), (c, b, ok)]" "length talk = 7" "talk ! 6 = 33" "length ok = 7" "ok ! 6 = 9"
    "lossless y" "plenty y" "full_window window" "current window = 0" "lower window = 0"
    "upper window = window_size p" "sw_window_size window = window_size p" "poll_q y = poll_q v1" "recv_q y = rq"
    "client y = b" "child_server_socket y = c" "data_sequence_number y = 0" "ps_ok (pset y)" "registered (pset y) c"
proof -
  let ?W = "nat (window_size p)" and ?name = "take 100 (src_filename p)"
  obtain r where a: "length buffer = 114" "World.pollCall (- 1) v = Ok r v1" "0 \<le> r"
    "able_to_serve c ?name path src m sp v1" using assms(1) by (auto simp: awaits_request_def)
  obtain sq where sq: "sys_q v1 = 0 # c # 0 # 0 # sq" using a(4) by (auto simp: able_to_serve_def)
  define v2 where "v2 = v1\<lparr>recv_q := rq, client := b\<rparr>"
  have lp: "server_loop m sp buffer v = bnd (startFSM ?name (word_of_int (buffer_size p)) (word_of_nat ?W) m sp v2)
      (\<lambda>_ w. server_loop m sp (sealed_request p @ [x]) w)"
    using server_serves [OF assms(3) a(1-3) assms(2), of m sp] same_window [OF assms(6,7)] by (simp add: v2_def)
  obtain talk ok window y where y: "startFSM ?name (word_of_int (buffer_size p)) (word_of_nat ?W) m sp v2 =
      bnd (send_data_loop (buffer_size p) window src y)
        (\<lambda>st w. child_fsm ?name (word_of_int (buffer_size p)) (word_of_nat ?W) st w)"
    "sent y = sent v2 @ [(c, client v2, talk), (c, client v2, ok)]"
    "length talk = 7" "talk ! 6 = 33" "length ok = 7" "ok ! 6 = 9"
    "lossless y" "plenty y" "full_window window" "current window = 0" "lower window = 0"
    "upper window = int ?W" "sw_window_size window = int ?W" "poll_q y = poll_q v2" "recv_q y = recv_q v2"
    "client y = client v2" "child_server_socket y = c" "data_sequence_number y = 0"
    "ps_ok (pset y)" "registered (pset y) c"
    by (rule child_starts_sending [of v2 sp c sq m ?name path src "buffer_size p" ?W])
      (use a(4) sq assms(4-7) in \<open>auto simp: able_to_serve_def v2_def channel_ok_def plenty_def\<close>)
  have s: "sent v1 = sent v" using final_pollCall [of "- 1" v] a(2) by auto
  let ?K = "\<lambda>st w. bnd (child_fsm ?name (word_of_int (buffer_size p)) (word_of_nat ?W) st w)
      (\<lambda>_ w. server_loop m sp (sealed_request p @ [x]) w)"
  have "server_loop m sp buffer v = bnd (send_data_loop (buffer_size p) window src y) ?K"
    unfolding lp y(1) by (cases "send_data_loop (buffer_size p) window src y") simp_all
  moreover have "\<forall>st w. sends_more w (final (?K st w))" by (auto intro!: server_log.bnd_final)
  ultimately show ?thesis
    by (rule that) (use y s assms(6) in \<open>simp_all add: v2_def\<close>)
qed

lemma server_sends_burst:
  assumes "awaits_request c p path src m sp buffer v v1" "recv_q v1 = Datagram b (sealed_request p @ [x]) # rq"
    and "length (src_filename p) = 101" "0 < buffer_size p" "buffer_size p \<le> 255" "0 < window_size p" "window_size p < 65536"
    and "nat (window_size p) * nat (buffer_size p) < length src"
  obtains talk ok ds rest where "server_sends m sp buffer v = talk # ok # ds @ rest" "length ds = nat (window_size p) + 1"
    "length talk = 7" "talk ! 6 = 33" "length ok = 7" "ok ! 6 = 9"
    "\<forall>i < length ds. is_data_pdu (ds ! i) (word_of_nat i) (chunk src (buffer_size p) i)"
proof -
  let ?W = "nat (window_size p)"
  obtain talk ok window y K where y:
    "server_loop m sp buffer v = bnd (send_data_loop (buffer_size p) window src y) K"
    "\<forall>st w. sends_more w (final (K st w))"
    "sent y = sent v @ [(c, b, talk), (c, b, ok)]" "length talk = 7" "talk ! 6 = 33" "length ok = 7" "ok ! 6 = 9"
    "lossless y" "plenty y" "full_window window" "current window = 0" "upper window = window_size p"
    "client y = b" "child_server_socket y = c" "data_sequence_number y = 0"
    by (rule request_starts_child [OF assms(1-7)])
  obtain ds wb w1 where r: "length ds = ?W + 1"
    "fill_window (buffer_size p) window src y = fill_window (buffer_size p)
        (if ?W + 1 = 0 then window else wb\<lparr>current := 0 + int (?W + 1) - 1\<rparr>) (drop ((?W + 1) * nat (buffer_size p)) src) w1"
    "\<forall>i < ?W + 1. is_data_pdu (ds ! i) (word_of_int (0 + int i)) (take (nat (buffer_size p)) (drop (i * nat (buffer_size p)) src))"
    "burst ds y w1" "upper wb = upper window"
    using fill_run [OF y(8-10) assms(4,5), of "?W + 1" src 0] y(11,12,15) assms(6-8) by auto
  have "fill_window (buffer_size p) window src y =
      Ok (None, wb\<lparr>current := int ?W\<rparr>, drop ((?W + 1) * nat (buffer_size p)) src) w1"
    using r(2,5) y(12) assms(6)
    by (simp add: fill_window.simps [of "buffer_size p" "wb\<lparr>current := window_size p\<rparr>"] canSendMorePackets_def)
  then have "sends_more w1 (final (send_data_loop (buffer_size p) window src y))"
    by (auto simp: send_data_loop.simps [of "buffer_size p" window src y] intro!: server_log.bnd_final)
  then have "sends_more w1 (final (server_loop m sp buffer v))"
    unfolding y(1) by (rule server_log.bnd_final) (use y(2) in auto)
  then obtain es where "map (\<lambda>(_, _, d). d) (sent (final (server_loop m sp buffer v))) = map (\<lambda>(_, _, d). d) (sent w1) @ es"
    by (rule datagrams_grow)
  moreover have "map (\<lambda>(_, _, d). d) (sent w1) = map (\<lambda>(_, _, d). d) (sent v) @ talk # ok # ds"
    using r(4) y(3) by (simp add: burst_def comp_def)
  ultimately have "server_sends m sp buffer v = talk # ok # ds @ es"
    unfolding server_sends_def by (intro sent_after) simp
  then show ?thesis using r(1) y(4-7)
    by (rule that) (use r(1,3) in \<open>simp add: chunk_def\<close>)
qed

lemma server_stalls:
  assumes "awaits_request c p path src m sp buffer v v1"
    and "recv_q v1 = Datagram b (sealed_request p @ [x]) # Datagram b (final_rr 0 1) # rq"
    and "length (src_filename p) = 101" "0 < buffer_size p" "buffer_size p \<le> 255" "2 \<le> window_size p" "window_size p < 65536"
    and "nat (window_size p) * nat (buffer_size p) < length src"
    and "poll_q v1 = ready c # (0, revs) # as" "\<forall>a \<in> set as. fst a = 0"
  obtains talk ok ds r v' where "server_loop m sp buffer v = Stop Blocked v'"
    "server_sends m sp buffer v = talk # ok # ds @ replicate (length as) r" "length ds = nat (window_size p) + 1"
    "length talk = 7" "talk ! 6 = 33" "length ok = 7" "ok ! 6 = 9"
    "\<forall>i < length ds. is_data_pdu (ds ! i) (word_of_nat i) (chunk src (buffer_size p) i)"
    "length r = length (ds ! 1) + 7" "take (length (ds ! 1)) r = ds ! 1"
proof -
  let ?W = "nat (window_size p)"
  have w: "0 < window_size p" using assms(6) by simp
  obtain talk ok window y K where y:
    "server_loop m sp buffer v = bnd (send_data_loop (buffer_size p) window src y) K"
    "sent y = sent v @ [(c, b, talk), (c, b, ok)]" "length talk = 7" "talk ! 6 = 33" "length ok = 7" "ok ! 6 = 9"
    "lossless y" "plenty y" "full_window window" "current window = 0" "lower window = 0"
    "upper window = window_size p" "sw_window_size window = window_size p" "poll_q y = poll_q v1"
    "recv_q y = Datagram b (final_rr 0 1) # rq"
    "client y = b" "child_server_socket y = c" "data_sequence_number y = 0" "ps_ok (pset y)" "registered (pset y) c"
    by (rule request_starts_child [OF assms(1-5) w assms(7)])
  have iw: "upper window = int ?W" "sw_window_size window = int ?W" "2 \<le> ?W" "?W < 2147483000"
    using y(12,13) w assms(6,7) by simp_all
  have c: "0 < c" using assms(1) by (simp add: awaits_request_def)
  have q: "poll_q y = ready c # (0, revs) # as" using y(14) assms(9) by simp
  obtain ds r v' where t: "send_data_loop (buffer_size p) window src y = Stop Blocked v'" "length ds = ?W + 1"
    "\<forall>i < ?W + 1. is_data_pdu (ds ! i) (word_of_nat i) (take (nat (buffer_size p)) (drop (i * nat (buffer_size p)) src))"
    "length r = length (ds ! 1) + 7" "take (length (ds ! 1)) r = ds ! 1"
    "sent v' = sent y @ map (\<lambda>d. (child_server_socket y, client y, d)) (ds @ replicate (length as) r)"
    using stalls_after_first_rr [OF y(7,8,18) assms(4,5) y(9-11) iw assms(8) y(19,20) c q assms(10) y(15)] by blast
  have l: "server_loop m sp buffer v = Stop Blocked v'" using y(1) t(1) by simp
  have "server_sends m sp buffer v = talk # ok # ds @ replicate (length as) r"
    unfolding server_sends_def by (rule sent_after) (use l t(6) y(2) in \<open>simp add: comp_def map_replicate_const\<close>)
  then show ?thesis using l t(2,4,5) y(3-6) by (intro that) (use t(2,3) in \<open>simp_all add: chunk_def\<close>)
qed

section \<open>An instance\<close>

text \<open>
  The two inboxes of the theorems below determine each other. For the instances they are found by
  running first the server on the two datagrams that the client will send, and then the client on what
  the server has sent.
\<close>

lemma client_says:
  assumes "can_start argv p s w" "quiet_client p w" "buffer_size p \<le> 255" "window_size p < 65536" "buffer_size p \<le> int (length src)"
    and "length talk = 7" "talk ! 6 = 33" "length ok = 7" "ok ! 6 = 9" "ds \<noteq> []" "length ds \<le> nat (window_size p) + 1"
    and "\<forall>i < length ds. is_data_pdu (ds ! i) (word_of_nat i) (chunk src (buffer_size p) i)"
    and "recv_q w = map (Datagram a) (talk # ok # ds) @ map (Datagram a) rs" "poll_q w = replicate (length ds + 2) (ready s) @ q"
    and "rs = [] \<and> q = (0, revs) # q' \<or>
      rs = [r] \<and> q = ready s # q' \<and> response_size p < length r \<and> response_size p < sizeof_RPacket"
  shows "client_sends argv w = [sealed_request p @ [static_next w], final_rr 0 1]"
proof -
  let ?fp = "cstring (dest_filename p)"
  obtain u rb where u: "online s u" "rb_ok rb" "poll_q u = q" "recv_q u = map (Datagram a) rs"
    "quiet_client p w \<longrightarrow> lossless u \<and> map (\<lambda>(_, _, d). d) (sent u) =
       map (\<lambda>(_, _, d). d) (sent w) @ [sealed_request p @ [static_next w], final_rr 0 1]"
    "\<forall>w'. getDataLoop s p ?fp rb 0 u = Ok RcopyData.DONE w' \<longrightarrow> Rcopy.main argv w = Ok 0 (w'\<lparr>closed := closed w' @ [s]\<rparr>)"
    "\<forall>r w'. getDataLoop s p ?fp rb 0 u = Stop r w' \<longrightarrow> Rcopy.main argv w = Stop r w'"
    by (rule client_takes_burst [OF assms(1,3-11) assms(12) [rule_format] assms(13,14)])
  have "\<exists>w'. sent (final (Rcopy.main argv w)) = sent w' \<and> tells [] u w'"
    using assms(15)
  proof
    assume e: "rs = [] \<and> q = (0, revs) # q'"
    obtain w' where "getDataLoop s p ?fp rb 0 u = Ok RcopyData.DONE w'" "tells [] u w'"
      by (rule data_phase_ends [OF u(1) _ u(2)]) (use u(3) e in auto)
    then show ?thesis using u(6) by (intro exI [of _ w']) simp
  next
    assume e: "rs = [r] \<and> q = ready s # q' \<and> response_size p < length r \<and> response_size p < sizeof_RPacket"
    obtain w' where "getDataLoop s p ?fp rb 0 u = Stop (Faulted OutOfBounds) w'" "tells [] u w'"
      by (rule longer_packet_overflows [OF u(1)]) (use u(3,4) e in auto)
    then show ?thesis using u(7) by (intro exI [of _ w']) simp
  qed
  then show ?thesis using u(5) assms(2) unfolding client_sends_def
    by (intro sent_after) (auto simp: tells_def)
qed

definition sample_caller :: "(int \<times> int list) list \<Rightarrow> byte list list \<Rightarrow> client" where
  "sample_caller pq L = (sample_client pq (map (Datagram \<lparr>sin6_addr = 8, sin6_port = 9\<rparr>) L))\<lparr>drand48 := \<lambda>_ _. 1 / 2\<rparr>"

definition sample_listener :: "byte list list \<Rightarrow> server_proc" where
  "sample_listener L = (idle_server [[97] \<mapsto> sample_file] ((1, [0, 1]) # ready 6 # replicate 4 (0, []))
       (map (Datagram \<lparr>sin6_addr = 7, sin6_port = 8\<rparr>) L) [0, 6, 0, 0])
     \<lparr>pset := \<lparr>pollFileDescriptors = [\<lparr>fd = 0, events = 0, revents = 0\<rparr>, \<lparr>fd = 1, events = 1, revents = 0\<rparr>],
               maxFileDescriptor = 2, currentPollSetSize = 2\<rparr>\<rparr>"

abbreviation sample_sp :: ServerParams where
  "sample_sp \<equiv> \<lparr>error_rate = 0, port_number = 5\<rparr>"

lemma sample_caller_facts:
  "can_start sample_args sample_params 3 (sample_caller pq L)" "quiet_client sample_params (sample_caller pq L)"
  "poll_q (sample_caller pq L) = pq" "recv_q (sample_caller pq L) = map (Datagram \<lparr>sin6_addr = 8, sin6_port = 9\<rparr>) L"
  "static_next (sample_caller pq L) = 0" "fs (sample_caller pq L) = Map.empty"
proof -
  have "can_start argv p s w \<Longrightarrow> can_start argv p s (w\<lparr>drand48 := \<lambda>_ _. 1 / 2\<rparr>)" for argv p s w
    by (simp add: can_start_def Rcopy.checkArgs_def channel_ok_def split: if_splits)
  then show "can_start sample_args sample_params 3 (sample_caller pq L)"
    using sample_sides(1) by (simp add: sample_caller_def)
qed (simp_all add: sample_caller_def sample_client_def idle_client_def quiet_client_def sample_params_def)

lemma sample_listener_facts:
  obtains v1 where "awaits_request 6 sample_params [97] sample_file 1 sample_sp (replicate 114 0) (sample_listener L) v1"
    "recv_q v1 = map (Datagram \<lparr>sin6_addr = 7, sin6_port = 8\<rparr>) L" "poll_q v1 = ready 6 # (0, []) # replicate 3 (0, [])"
proof -
  let ?v = "sample_listener L"
  let ?ps = "\<lparr>pollFileDescriptors = [\<lparr>fd = 0, events = 0, revents = 0\<rparr>, \<lparr>fd = 1, events = 1, revents = 1\<rparr>],
      maxFileDescriptor = 2, currentPollSetSize = 2\<rparr>"
  let ?v1 = "?v\<lparr>poll_q := ready 6 # (0, []) # replicate 3 (0, []), pset := ?ps\<rparr>"
  have p: "World.pollCall (- 1) ?v = Ok 1 ?v1"
    by (simp add: sample_listener_def idle_server_def World.pollCall_def on_pset_def
        PollLib.pollCall_def poll_writes_def Let_def eval_nat_numeral)
  have n: "take 100 (src_filename sample_params) = 97 # replicate 99 0"
    by (simp add: sample_params_def strncpy_array_def)
  have "c_string (take 100 (src_filename sample_params)) = Inr [97]"
    unfolding n by (simp add: c_string_def cstring_def takeWhile_replicate)
  then have "able_to_serve 6 (take 100 (src_filename sample_params)) [97] sample_file 1 sample_sp ?v1"
    by (simp add: able_to_serve_def sample_listener_def idle_server_def POLL_SET_SIZE_def channel_ok_def drop_channel_def
        plenty_def ps_ok_def)
  then have "awaits_request 6 sample_params [97] sample_file 1 sample_sp (replicate 114 0) ?v ?v1"
    using p by (auto simp: awaits_request_def)
  then show ?thesis by (rule that) (simp_all add: sample_listener_def idle_server_def)
qed

definition sample_sends :: "byte list list" where
  "sample_sends = [sealed_request sample_params @ [0], final_rr 0 1]"

abbreviation sample_answers :: "byte list list" where
  "sample_answers \<equiv> server_sends 1 sample_sp (replicate 114 0) (sample_listener sample_sends)"

text \<open>The server's run on what the client will send, and the client's on what the server sends.\<close>

lemma sample_client_sends:
  assumes "n = 3 \<and> q = (0, revs) # q' \<or> n = 4 \<and> q = ready 3 # q'"
  shows "client_sends sample_args (sample_caller (replicate 7 (ready 3) @ q) (take (4 + n) sample_answers)) = sample_sends"
proof -
  let ?w = "sample_caller (replicate 7 (ready 3) @ q) (take (4 + n) sample_answers)"
  note sp = sample_params_facts
  obtain v1 where v1: "awaits_request 6 sample_params [97] sample_file 1 sample_sp (replicate 114 0) (sample_listener sample_sends) v1"
    "recv_q v1 = map (Datagram \<lparr>sin6_addr = 7, sin6_port = 8\<rparr>) sample_sends" "poll_q v1 = ready 6 # (0, []) # replicate 3 (0, [])"
    by (rule sample_listener_facts)
  have l: "length (src_filename sample_params) = 101" by (simp add: sample_params_def strncpy_array_def)
  have rv: "recv_q v1 = Datagram \<lparr>sin6_addr = 7, sin6_port = 8\<rparr> (sealed_request sample_params @ [0])
      # Datagram \<lparr>sin6_addr = 7, sin6_port = 8\<rparr> (final_rr 0 1) # []"
    using v1(2) by (simp add: sample_sends_def)
  obtain talk ok ds r where t: "sample_answers = talk # ok # ds @ replicate 3 r" "length ds = 5"
    "length talk = 7" "talk ! 6 = 33" "length ok = 7" "ok ! 6 = 9"
    "\<forall>i < length ds. is_data_pdu (ds ! i) (word_of_nat i) (chunk sample_file 2 i)" "length r = length (ds ! 1) + 7"
    by (rule server_stalls [OF v1(1) rv l _ _ _ _ _ v1(3)]) (use sp in \<open>auto simp: sample_file_def\<close>)
  have d: "length (ds ! 1) = 9" using t(7) [rule_format, of 1] t(2) by (simp add: is_data_pdu_def chunk_def sample_file_def)
  have n: "4 + n = Suc (Suc (length ds + (n - 3)))" "n - 3 = 0 \<or> n - 3 = 1" using assms t(2) by auto
  define rs where "rs = take (n - 3) (replicate 3 r)"
  have rs: "rs = [] \<and> q = (0, revs) # q' \<or>
      rs = [r] \<and> q = ready 3 # q' \<and> response_size sample_params < length r \<and> response_size sample_params < sizeof_RPacket"
    using assms t(8) d sp by (auto simp: rs_def response_size_def s32_def sizeof_RPacket_def eval_nat_numeral)
  have rq: "recv_q ?w = map (Datagram \<lparr>sin6_addr = 8, sin6_port = 9\<rparr>) (talk # ok # ds) @ map (Datagram \<lparr>sin6_addr = 8, sin6_port = 9\<rparr>) rs"
    unfolding sample_caller_facts(4) t(1) n(1) by (simp add: rs_def)
  have pq: "poll_q ?w = replicate (length ds + 2) (ready 3) @ q" using t(2) by (simp add: sample_caller_facts(3))
  have "client_sends sample_args ?w = [sealed_request sample_params @ [static_next ?w], final_rr 0 1]"
    by (rule client_says [OF sample_caller_facts(1,2) _ _ _ t(3-6) _ _ _ rq pq rs])
      (use sp t(2,7) in \<open>auto simp: sample_file_def\<close>)
  then show ?thesis by (simp add: sample_sends_def sample_caller_facts(5))
qed

section \<open>The two together\<close>

text \<open>The run up to the end of the first burst, with an inbox of each process that is what the other one sends.\<close>

lemma system_so_far:
  assumes "can_start argv p s w" "quiet_client p w" "awaits_request c p path src m sp buffer v v1"
    and "buffer_size p \<le> 255" "2 \<le> window_size p" "window_size p < 65536"
    and "nat (window_size p) * nat (buffer_size p) < length src"
    and "recv_q w = map (Datagram a) (take (nat (window_size p) + 3) (server_sends m sp buffer v)) @ rq"
    and "poll_q w = replicate (nat (window_size p) + 3) (ready s) @ q"
    and "recv_q v1 = map (Datagram b) (client_sends argv w)"
    and "poll_q v1 = ready c # (0, revs') # as" "\<forall>a \<in> set as. fst a = 0"
  obtains u rb v' talk ok ds r where "online s u" "rb_ok rb" "poll_q u = q" "recv_q u = rq"
    "fs u = (fs w)(cstring (dest_filename p) \<mapsto> take (nat (buffer_size p)) src)" "lossless u"
    "map (\<lambda>(_, _, d). d) (sent u) = map (\<lambda>(_, _, d). d) (sent w) @ [sealed_request p @ [static_next w], final_rr 0 1]"
    "\<forall>w'. getDataLoop s p (cstring (dest_filename p)) rb 0 u = Ok RcopyData.DONE w' \<longrightarrow>
       Rcopy.main argv w = Ok 0 (w'\<lparr>closed := closed w' @ [s]\<rparr>)"
    "\<forall>r w'. getDataLoop s p (cstring (dest_filename p)) rb 0 u = Stop r w' \<longrightarrow> Rcopy.main argv w = Stop r w'"
    "server_loop m sp buffer v = Stop Blocked v'"
    "server_sends m sp buffer v = talk # ok # ds @ replicate (length as) r" "length ds = nat (window_size p) + 1"
    "length r = length (ds ! 1) + 7" "take (length (ds ! 1)) r = ds ! 1"
    "\<forall>i < length ds. is_data_pdu (ds ! i) (word_of_nat i) (chunk src (buffer_size p) i)"
proof -
  let ?fp = "cstring (dest_filename p)"
  have ca: "Rcopy.checkArgs argv w = Ok p w" using assms(1) by (simp add: can_start_def)
  note pos = checkArgs_Ok(3,4,9) [OF ca]
  obtain rest where x: "client_sends argv w = (sealed_request p @ [static_next w]) # rest"
    by (rule request_comes_first [OF assms(1,2)])
  have rv: "recv_q v1 = Datagram b (sealed_request p @ [static_next w]) # map (Datagram b) rest" using assms(10) x by simp
  obtain talk ok ds rest' where t: "server_sends m sp buffer v = talk # ok # ds @ rest'" "length ds = nat (window_size p) + 1"
    "length talk = 7" "talk ! 6 = 33" "length ok = 7" "ok ! 6 = 9"
    "\<forall>i < length ds. is_data_pdu (ds ! i) (word_of_nat i) (chunk src (buffer_size p) i)"
    by (rule server_sends_burst [OF assms(3) rv pos(3,2) assms(4) pos(1) assms(6,7)])
  have big: "buffer_size p \<le> int (length src)"
    by (rule chunk_fits [OF pos(2,1) assms(7)])
  have ne: "ds \<noteq> []" "length ds \<le> nat (window_size p) + 1" using t(2) by auto
  have n: "nat (window_size p) + 3 = Suc (Suc (length ds))" using t(2) by simp
  have q: "recv_q w = map (Datagram a) (talk # ok # ds) @ rq" "poll_q w = replicate (length ds + 2) (ready s) @ q"
    using assms(8,9) t(1) by (simp_all add: n)
  obtain u rb where u: "online s u" "rb_ok rb" "poll_q u = q" "recv_q u = rq"
    "fs u = (fs w)(?fp \<mapsto> take (nat (buffer_size p)) src)"
    "quiet_client p w \<longrightarrow> lossless u \<and> map (\<lambda>(_, _, d). d) (sent u) =
       map (\<lambda>(_, _, d). d) (sent w) @ [sealed_request p @ [static_next w], final_rr 0 1]"
    "\<forall>w'. getDataLoop s p ?fp rb 0 u = Ok RcopyData.DONE w' \<longrightarrow> Rcopy.main argv w = Ok 0 (w'\<lparr>closed := closed w' @ [s]\<rparr>)"
    "\<forall>r w'. getDataLoop s p ?fp rb 0 u = Stop r w' \<longrightarrow> Rcopy.main argv w = Stop r w'"
    by (rule client_takes_burst [OF assms(1,4,6) big t(3-6) ne t(7) [rule_format] q])
  have x': "lossless u"
    "map (\<lambda>(_, _, d). d) (sent u) = map (\<lambda>(_, _, d). d) (sent w) @ [sealed_request p @ [static_next w], final_rr 0 1]"
    using u(6) assms(2) by simp_all
  have "sends_more u (final (Rcopy.main argv w))"
  proof (cases "getDataLoop s p ?fp rb 0 u")
    case (Ok st w')
    then have "sends_more u w'" using client_log.R_getDataLoop [of u s p ?fp rb 0] by simp
    moreover have "st = RcopyData.DONE" using getDataLoop_state [OF Ok] by simp
    ultimately show ?thesis using u(7) Ok by (auto simp: sends_more_def)
  next
    case (Stop r w')
    then show ?thesis using client_log.R_getDataLoop [of u s p ?fp rb 0] u(8) by auto
  qed
  then obtain es where "map (\<lambda>(_, _, d). d) (sent (final (Rcopy.main argv w))) = map (\<lambda>(_, _, d). d) (sent u) @ es"
    by (rule datagrams_grow)
  then have "client_sends argv w = [sealed_request p @ [static_next w], final_rr 0 1] @ es"
    unfolding client_sends_def by (intro sent_after) (simp add: x'(2))
  then have rv: "recv_q v1 = Datagram b (sealed_request p @ [static_next w]) # Datagram b (final_rr 0 1) # map (Datagram b) es"
    using assms(10) by simp
  obtain talk ok ds r v' where "server_loop m sp buffer v = Stop Blocked v'"
    "server_sends m sp buffer v = talk # ok # ds @ replicate (length as) r" "length ds = nat (window_size p) + 1"
    "length talk = 7" "talk ! 6 = 33" "length ok = 7" "ok ! 6 = 9"
    "\<forall>i < length ds. is_data_pdu (ds ! i) (word_of_nat i) (chunk src (buffer_size p) i)"
    "length r = length (ds ! 1) + 7" "take (length (ds ! 1)) r = ds ! 1"
    by (rule server_stalls [OF assms(3) rv pos(3,2) assms(4,5,6,7,11,12)])
  then show ?thesis using u(1-5,7,8) x' by (intro that) auto
qed

text \<open>
  C1. The system copies one chunk and stalls. Client and server, both able to do their work, talk over a
  network that loses nothing: the inbox of the server is what \<open>main\<close> of rcopy sends, the inbox of
  the client the answers and the first burst of the server, in order. Then the client sends
  exactly two datagrams, the request and one RR; it ends with status 0 and the first chunk of
  the source in the destination. The server's process never returns: it has sent the two
  answers and packets 0 to \<open>W\<close>, and goes on to send packet 1 once a second, however large the
  source is.
\<close>

theorem system_copies_one_chunk_and_stalls:
  assumes "can_start argv p s w" "quiet_client p w" "awaits_request c p path src m sp buffer v v1"
    and "buffer_size p \<le> 255" "2 \<le> window_size p" "window_size p < 65536"
    and "nat (window_size p) * nat (buffer_size p) < length src"
    and "recv_q w = map (Datagram a) (take (nat (window_size p) + 3) (server_sends m sp buffer v)) @ rq"
    and "poll_q w = replicate (nat (window_size p) + 3) (ready s) @ (0, revs) # q"
    and "recv_q v1 = map (Datagram b) (client_sends argv w)"
    and "poll_q v1 = ready c # (0, revs') # as" "\<forall>a \<in> set as. fst a = 0"
  shows "\<exists>w' v' talk ok ds r. Rcopy.main argv w = Ok 0 w'
    \<and> fs w' = (fs w)(cstring (dest_filename p) \<mapsto> take (nat (buffer_size p)) src)
    \<and> client_sends argv w = [sealed_request p @ [static_next w], final_rr 0 1]
    \<and> server_loop m sp buffer v = Stop Blocked v'
    \<and> server_sends m sp buffer v = talk # ok # ds @ replicate (length as) r
    \<and> length ds = nat (window_size p) + 1 \<and> length r = length (ds ! 1) + 7 \<and> take (length (ds ! 1)) r = ds ! 1
    \<and> (\<forall>i < length ds. is_data_pdu (ds ! i) (word_of_nat i) (chunk src (buffer_size p) i))"
proof -
  let ?fp = "cstring (dest_filename p)"
  obtain u rb v' talk ok ds r where u: "online s u" "rb_ok rb" "poll_q u = (0, revs) # q"
    "fs u = (fs w)(?fp \<mapsto> take (nat (buffer_size p)) src)" "lossless u"
    "map (\<lambda>(_, _, d). d) (sent u) = map (\<lambda>(_, _, d). d) (sent w) @ [sealed_request p @ [static_next w], final_rr 0 1]"
    "\<forall>w'. getDataLoop s p ?fp rb 0 u = Ok RcopyData.DONE w' \<longrightarrow> Rcopy.main argv w = Ok 0 (w'\<lparr>closed := closed w' @ [s]\<rparr>)"
    and v: "server_loop m sp buffer v = Stop Blocked v'"
    "server_sends m sp buffer v = talk # ok # ds @ replicate (length as) r" "length ds = nat (window_size p) + 1"
    "length r = length (ds ! 1) + 7" "take (length (ds ! 1)) r = ds ! 1"
    "\<forall>i < length ds. is_data_pdu (ds ! i) (word_of_nat i) (chunk src (buffer_size p) i)"
    by (rule system_so_far [OF assms])
  obtain w' where w': "getDataLoop s p ?fp rb 0 u = Ok RcopyData.DONE w'" "fs w' = fs u" "tells [] u w'"
    by (rule data_phase_ends [OF u(1,3,2)])
  let ?w = "w'\<lparr>closed := closed w' @ [s]\<rparr>"
  have m: "Rcopy.main argv w = Ok 0 ?w" using u(7) w'(1) by blast
  have "client_sends argv w = [sealed_request p @ [static_next w], final_rr 0 1]"
    unfolding client_sends_def by (rule sent_after) (use m u(5,6) w'(3) in \<open>simp add: tells_def\<close>)
  with m u(4) w'(2) v show ?thesis
    by (intro exI [of _ ?w] exI [of _ v'] exI [of _ talk] exI [of _ ok] exI [of _ ds] exI [of _ r] conjI) simp_all
qed

theorem system_copies_one_chunk_and_stalls_witness:
  "\<exists>L M w' v'. M = client_sends sample_args (sample_caller (replicate 7 (ready 3) @ [(0, [])]) L)
    \<and> L = take 7 (server_sends 1 sample_sp (replicate 114 0) (sample_listener M))
    \<and> Rcopy.main sample_args (sample_caller (replicate 7 (ready 3) @ [(0, [])]) L) = Ok 0 w' \<and> fs w' [98] = Some [10, 11]
    \<and> server_loop 1 sample_sp (replicate 114 0) (sample_listener M) = Stop Blocked v'
    \<and> length (server_sends 1 sample_sp (replicate 114 0) (sample_listener M)) = 10"
proof -
  let ?w = "sample_caller (replicate 7 (ready 3) @ [(0, [])]) (take 7 sample_answers)"
  note sp = sample_params_facts
  have cs: "client_sends sample_args ?w = sample_sends" using sample_client_sends [of 3 "[(0, [])]" "[]" "[]"] by simp
  obtain v1 where v1: "awaits_request 6 sample_params [97] sample_file 1 sample_sp (replicate 114 0) (sample_listener sample_sends) v1"
    "recv_q v1 = map (Datagram \<lparr>sin6_addr = 7, sin6_port = 8\<rparr>) sample_sends" "poll_q v1 = ready 6 # (0, []) # replicate 3 (0, [])"
    by (rule sample_listener_facts)
  have h: "recv_q ?w = map (Datagram \<lparr>sin6_addr = 8, sin6_port = 9\<rparr>) (take (nat (window_size sample_params) + 3) sample_answers) @ []"
    "poll_q ?w = replicate (nat (window_size sample_params) + 3) (ready 3) @ (0, []) # []"
    "recv_q v1 = map (Datagram \<lparr>sin6_addr = 7, sin6_port = 8\<rparr>) (client_sends sample_args ?w)"
    using sp v1(2) cs by (simp_all add: sample_caller_facts)
  obtain w' v' where "Rcopy.main sample_args ?w = Ok 0 w'"
    "fs w' = (fs ?w)(cstring (dest_filename sample_params) \<mapsto> take (nat (buffer_size sample_params)) sample_file)"
    "server_loop 1 sample_sp (replicate 114 0) (sample_listener sample_sends) = Stop Blocked v'" "length sample_answers = 10"
    using system_copies_one_chunk_and_stalls [OF sample_caller_facts(1,2) v1(1) _ _ _ _ h v1(3)] sp
    by (auto simp: sample_file_def)
  then show ?thesis using cs sp
    by (intro exI [of _ "take 7 sample_answers"] exI [of _ sample_sends] exI [of _ w'] exI [of _ v'])
      (simp add: sample_file_def)
qed

text \<open>
  C2. A resent packet overflows the client's heap. In the same setting, when the client is still waiting at
  the moment the server sends packet 1 for the second time: the datagram is seven bytes longer than the
  client's receive block, \<open>recvfrom\<close> writes behind the block, and the run ends in a memory
  fault (after the first chunk was copied).
\<close>

theorem resent_packet_overflows_the_client:
  assumes "can_start argv p s w" "quiet_client p w" "awaits_request c p path src m sp buffer v v1"
    and "buffer_size p \<le> 255" "2 \<le> window_size p" "window_size p < 65536"
    and "nat (window_size p) * nat (buffer_size p) < length src"
    and "recv_q w = map (Datagram a) (take (nat (window_size p) + 4) (server_sends m sp buffer v)) @ rq"
    and "poll_q w = replicate (nat (window_size p) + 4) (ready s) @ q"
    and "recv_q v1 = map (Datagram b) (client_sends argv w)"
    and "poll_q v1 = ready c # (0, revs') # as" "\<forall>a \<in> set as. fst a = 0" "as \<noteq> []"
  shows "\<exists>w'. Rcopy.main argv w = Stop (Faulted OutOfBounds) w'
    \<and> fs w' = (fs w)(cstring (dest_filename p) \<mapsto> take (nat (buffer_size p)) src)"
proof -
  let ?fp = "cstring (dest_filename p)" and ?L = "server_sends m sp buffer v" and ?n = "nat (window_size p) + 3"
  have "take (Suc ?n) ?L = take ?n ?L @ take 1 (drop ?n ?L)" by (metis Suc_eq_plus1 take_add)
  then have q: "recv_q w = map (Datagram a) (take ?n ?L) @ map (Datagram a) (take 1 (drop ?n ?L)) @ rq"
    "poll_q w = replicate ?n (ready s) @ ready s # q"
    using assms(8,9) by (simp_all add: numeral_eq_Suc replicate_append_same)
  obtain u rb talk ok ds r where u: "online s u" "poll_q u = ready s # q"
    "recv_q u = map (Datagram a) (take 1 (drop ?n ?L)) @ rq"
    "fs u = (fs w)(?fp \<mapsto> take (nat (buffer_size p)) src)"
    "\<forall>r w'. getDataLoop s p ?fp rb 0 u = Stop r w' \<longrightarrow> Rcopy.main argv w = Stop r w'"
    and v: "?L = talk # ok # ds @ replicate (length as) r" "length ds = nat (window_size p) + 1"
    "length r = length (ds ! 1) + 7"
    "\<forall>i < length ds. is_data_pdu (ds ! i) (word_of_nat i) (chunk src (buffer_size p) i)"
    by (rule system_so_far [OF assms(1-7) q assms(10-12)])
  have n: "?n = Suc (Suc (length ds))" using v(2) by simp
  obtain k where "length as = Suc k" using assms(13) by (cases as) auto
  then have "take 1 (drop ?n ?L) = [r]" unfolding n v(1) by simp
  then have rq: "recv_q u = Datagram a r # rq" using u(3) by simp
  have pos: "0 < buffer_size p" using assms(1) checkArgs_Ok(4) by (auto simp: can_start_def)
  have "is_data_pdu (ds ! 1) (word_of_nat 1) (chunk src (buffer_size p) 1)"
    using v(4) [rule_format, of 1] v(2) assms(5) by simp
  moreover have "2 * nat (buffer_size p) \<le> nat (window_size p) * nat (buffer_size p)"
    using assms(5) by (intro mult_right_mono) auto
  ultimately have "length (ds ! 1) = 7 + nat (buffer_size p)"
    using assms(7) by (auto simp: is_data_pdu_def chunk_def)
  moreover have "response_size p = 7 + nat (buffer_size p)"
    using assms(4) pos by (simp add: response_size_def s32_id int_range_def nat_add_distrib)
  ultimately have "response_size p < length r" "response_size p < sizeof_RPacket"
    using v(3) assms(4) by (simp_all add: sizeof_RPacket_def)
  then obtain w' where "getDataLoop s p ?fp rb 0 u = Stop (Faulted OutOfBounds) w'" "fs w' = fs u"
    by (rule longer_packet_overflows [OF u(1,2) rq])
  then show ?thesis using u(4,5) by auto
qed

theorem resent_packet_overflows_the_client_witness:
  "\<exists>L M w'. M = client_sends sample_args (sample_caller (replicate 8 (ready 3)) L)
    \<and> L = take 8 (server_sends 1 sample_sp (replicate 114 0) (sample_listener M))
    \<and> Rcopy.main sample_args (sample_caller (replicate 8 (ready 3)) L) = Stop (Faulted OutOfBounds) w' \<and> fs w' [98] = Some [10, 11]"
proof -
  let ?w = "sample_caller (replicate 8 (ready 3)) (take 8 sample_answers)"
  note sp = sample_params_facts
  have "replicate 8 (ready 3) = replicate 7 (ready 3) @ [ready 3]" by (simp add: eval_nat_numeral)
  then have cs: "client_sends sample_args ?w = sample_sends" using sample_client_sends [of 4 "[ready 3]" "[]" "[]"] by simp
  obtain v1 where v1: "awaits_request 6 sample_params [97] sample_file 1 sample_sp (replicate 114 0) (sample_listener sample_sends) v1"
    "recv_q v1 = map (Datagram \<lparr>sin6_addr = 7, sin6_port = 8\<rparr>) sample_sends" "poll_q v1 = ready 6 # (0, []) # replicate 3 (0, [])"
    by (rule sample_listener_facts)
  have h: "recv_q ?w = map (Datagram \<lparr>sin6_addr = 8, sin6_port = 9\<rparr>) (take (nat (window_size sample_params) + 4) sample_answers) @ []"
    "poll_q ?w = replicate (nat (window_size sample_params) + 4) (ready 3) @ []"
    "recv_q v1 = map (Datagram \<lparr>sin6_addr = 7, sin6_port = 8\<rparr>) (client_sends sample_args ?w)"
    using sp v1(2) cs by (simp_all add: sample_caller_facts)
  obtain w' where "Rcopy.main sample_args ?w = Stop (Faulted OutOfBounds) w'"
    "fs w' = (fs ?w)(cstring (dest_filename sample_params) \<mapsto> take (nat (buffer_size sample_params)) sample_file)"
    using resent_packet_overflows_the_client [OF sample_caller_facts(1,2) v1(1) _ _ _ _ h v1(3)] sp
    by (auto simp: sample_file_def)
  then show ?thesis using cs sp
    by (intro exI [of _ "take 8 sample_answers"] exI [of _ sample_sends] exI [of _ w']) (simp add: sample_file_def)
qed

end
