(* ===== verification/Processes.thy ===== *)
theory Processes
  imports Conversation
begin

text \<open>
  The processes of the server and the SIGCHLD handler between them: the parent goes
  around the loop of \<open>main\<close>, every round that forks adds a child, and a child that ends
  interrupts the parent. One step of the family is one step of one process.
\<close>

section \<open>The family\<close>

text \<open>
  The parent waits in \<open>poll\<close>, serves a datagram, or is gone. A child is the result of its whole
  run; it ends when the run exits or faults, and is blocked otherwise.
\<close>

datatype parent = Waiting "byte list" server_proc | Serving "byte list" server_proc | Gone stop server_proc

datatype label = Polls | Serves | Child_ends

type_synonym family = "parent \<times> (server_proc, unit) res list"

definition ended :: "(server_proc, unit) res \<Rightarrow> bool" where
  "ended c = (case c of Ok _ _ \<Rightarrow> True | Stop s _ \<Rightarrow> s \<noteq> Blocked)"

text \<open>What \<open>main\<close> does with the answer of \<open>pollCall\<close>.\<close>

definition poll_returns :: "byte list \<Rightarrow> (server_proc, int) res \<Rightarrow> parent" where
  "poll_returns buffer r = (case r of
     Ok poll w \<Rightarrow> if poll < 0 then Gone (Exited 1) w else Serving buffer w
   | Stop s w \<Rightarrow> Gone s w)"

text \<open>
  A handler that runs while \<open>poll(2)\<close> waits makes it return -1 with EINTR, also
  for handlers installed with \<open>signal\<close>.
\<close>

definition interrupted :: "server_proc \<Rightarrow> server_proc" where
  "interrupted w = w\<lparr>poll_q := (- 1, []) # poll_q w\<rparr>"

text \<open>
  The copy of the parent that \<open>fork\<close> makes: it sees answer 0, reads the same request, and has its own
  system call answers from then on.
\<close>

definition child_copy :: "server_proc \<Rightarrow> int list \<Rightarrow> (int \<times> int list) list \<Rightarrow> recv_event list \<Rightarrow> server_proc" where
  "child_copy w sq pq rq = w\<lparr>sys_q := 0 # sq, poll_q := pq, recv_q := hd (recv_q w) # rq\<rparr>"

definition process_run :: "int \<Rightarrow> ServerParams \<Rightarrow> byte list \<Rightarrow> server_proc \<Rightarrow> (server_proc, unit) res" where
  "process_run m sp buffer w = bnd (serve_round m sp buffer w) (\<lambda>buffer w. server_loop m sp buffer w)"

inductive family_step :: "int \<Rightarrow> ServerParams \<Rightarrow> label \<Rightarrow> family \<Rightarrow> family \<Rightarrow> bool"
  for m sp where
  polls: "poll_q w \<noteq> [] \<Longrightarrow>
    family_step m sp Polls (Waiting b w, cs) (poll_returns b (World.pollCall (- 1) w), cs)"
| serves_no_child: "serve_round m sp b w = Ok b' w' \<Longrightarrow> sys_log w' = sys_log w \<or> hd (sys_q w) < 0 \<Longrightarrow>
    family_step m sp Serves (Serving b w, cs) (Waiting b' w', cs)"
| forks: "serve_round m sp b w = Ok b' w' \<Longrightarrow> sys_log w' = sys_log w @ [Sys_fork] \<Longrightarrow> 0 < hd (sys_q w) \<Longrightarrow>
    family_step m sp Serves (Serving b w, cs) (Waiting b' w', cs @ [process_run m sp b (child_copy w sq pq rq)])"
| ends_while_waiting: "ended c \<Longrightarrow> handleZombies w = Ok () w1 \<Longrightarrow>
    family_step m sp Child_ends (Waiting b w, cs @ c # cs')
      (poll_returns b (World.pollCall (- 1) (interrupted w1)), cs @ cs')"
| ends_while_serving: "ended c \<Longrightarrow> handleZombies w = Ok () w1 \<Longrightarrow>
    family_step m sp Child_ends (Serving b w, cs @ c # cs') (Serving b w1, cs @ cs')"
| ends_later: "ended c \<Longrightarrow> family_step m sp Child_ends (Gone s w, cs @ c # cs') (Gone s w, cs @ cs')"

inductive_cases waiting_E: "family_step m sp l (Waiting b w, cs) s"
inductive_cases serving_E: "family_step m sp l (Serving b w, cs) s"
inductive_cases gone_E: "family_step m sp l (Gone k w, cs) s"

inductive_simps waiting_child_ends: "family_step m sp Child_ends (Waiting b w, cs) s"
inductive_simps gone_steps: "family_step m sp l (Gone k w, cs) s"

abbreviation family_runs :: "int \<Rightarrow> ServerParams \<Rightarrow> family \<Rightarrow> family \<Rightarrow> bool" where
  "family_runs m sp \<equiv> (\<lambda>s t. \<exists>l. family_step m sp l s t)\<^sup>*\<^sup>*"

lemma two_steps:
  "family_step m sp l s t \<Longrightarrow> family_step m sp l' t u \<Longrightarrow> family_runs m sp s u"
  by (rule converse_rtranclp_into_rtranclp [of _ _ t]) auto

section \<open>Without signals the parent is main\<close>

definition parent_run :: "int \<Rightarrow> ServerParams \<Rightarrow> parent \<Rightarrow> (server_proc, unit) res" where
  "parent_run m sp p = (case p of
     Waiting b w \<Rightarrow> server_loop m sp b w
   | Serving b w \<Rightarrow> process_run m sp b w
   | Gone s w \<Rightarrow> Stop s w)"

lemma parent_run_poll_returns:
  "parent_run m sp (poll_returns b (World.pollCall (- 1) w)) = server_loop m sp b w"
  unfolding server_loop.simps [of m sp b w]
  by (cases "World.pollCall (- 1) w") (auto simp: poll_returns_def parent_run_def process_run_def)

lemma undisturbed_step:
  assumes "family_step m sp l s t" "l \<noteq> Child_ends"
  shows "parent_run m sp (fst t) = parent_run m sp (fst s)"
  using assms
proof cases
  case (polls w b cs)
  then show ?thesis by (simp only: fst_conv parent_run_poll_returns) (simp add: parent_run_def)
qed (simp_all add: parent_run_def process_run_def)

text \<open>
  Without signals the family is the program: as long as no child ends, whatever state the parent
  reaches in steps of the family, the rest of its run is the rest of the run of
  \<open>server_loop\<close>, and when it is gone, \<open>server_loop\<close> has stopped the same way.
\<close>

lemma undisturbed_family_is_server_loop:
  assumes "(\<lambda>s t. \<exists>l. l \<noteq> Child_ends \<and> family_step m sp l s t)\<^sup>*\<^sup>* (Waiting b w, cs) (p, cs')"
  shows "parent_run m sp p = server_loop m sp b w"
proof -
  have "parent_run m sp (fst t) = parent_run m sp (fst s)"
    if "(\<lambda>s t. \<exists>l. l \<noteq> Child_ends \<and> family_step m sp l s t)\<^sup>*\<^sup>* s t" for s t
    using that by (induction rule: rtranclp_induct) (auto dest: undisturbed_step)
  from this [OF assms] show ?thesis by (simp add: parent_run_def)
qed

section \<open>What every step keeps\<close>

definition parent_proc :: "parent \<Rightarrow> server_proc" where
  "parent_proc p = (case p of Waiting b w \<Rightarrow> w | Serving b w \<Rightarrow> w | Gone s w \<Rightarrow> w)"

definition files_are :: "(byte list \<rightharpoonup> byte list) \<Rightarrow> family \<Rightarrow> bool" where
  "files_are F s \<longleftrightarrow> fs (parent_proc (fst s)) = F \<and> (\<forall>c \<in> set (snd s). fs (final c) = F \<and> (\<exists>k v. c = Stop k v))"

lemma parent_proc_simps [simp]:
  "parent_proc (Waiting b w) = w" "parent_proc (Serving b w) = w" "parent_proc (Gone k w) = w"
  "parent_proc (poll_returns b r) = final r"
  by (simp_all add: parent_proc_def poll_returns_def split: res.split)

lemma fs_serve_round: "fs (final (serve_round m sp b w)) = fs w"
  using polling.R_serve_round by (simp add: polls_consumed_def)

lemma fs_pollCall: "fs (final (World.pollCall t w)) = fs w" for w :: server_proc
  using final_pollCall [of t w] by auto

lemma process_run_stops: "\<exists>k v. process_run m sp b w = Stop k v \<and> fs v = fs w"
proof -
  have l: "fs (final (server_loop m sp c u)) = fs u" for c u
    using polling.R_server_loop by (simp add: polls_consumed_def)
  show ?thesis
  proof (cases "serve_round m sp b w")
    case (Ok c u)
    then show ?thesis using l [of c u] server_loop_no_return [of m sp c u] fs_serve_round [of m sp b w]
      by (cases "server_loop m sp c u") (auto simp: process_run_def)
  next
    case (Stop k u)
    then show ?thesis using fs_serve_round [of m sp b w] by (simp add: process_run_def)
  qed
qed

section \<open>What the handler does\<close>

lemma handleZombies_effect:
  "handleZombies w = Ok () w' \<Longrightarrow> \<exists>q l. w' = w\<lparr>sys_q := q, sys_log := l\<rparr>"
proof (induction w rule: handleZombies.induct)
  case (1 w)
  then obtain r w1 where r: "syscall Sys_waitpid w = Ok r w1" "(if r > 0 then handleZombies w1 else Ok () w1) = Ok () w'"
    unfolding handleZombies.simps [of w] by (auto elim!: bnd_Ok_E)
  obtain q l where w1: "w1 = w\<lparr>sys_q := q, sys_log := l\<rparr>"
    using r(1) by (auto simp: syscall_def split: list.splits)
  show ?case
  proof (cases "r > 0")
    case True
    then obtain q' l' where "w' = w1\<lparr>sys_q := q', sys_log := l'\<rparr>"
      using 1(1) [OF r(1) True] r(2) by auto
    then show ?thesis using w1 by (intro exI [of _ q'] exI [of _ l']) simp
  next
    case False
    then show ?thesis using r(2) w1 by (intro exI [of _ q] exI [of _ l]) simp
  qed
qed

lemma files_step:
  assumes "family_step m sp l s t" "files_are F s"
  shows "files_are F t"
  using assms
proof cases
  case (forks b w b' w' cs sq pq rq)
  then show ?thesis
    using assms(2) fs_serve_round [of m sp b w] process_run_stops [of m sp b "child_copy w sq pq rq"]
    by (auto simp: files_are_def child_copy_def)
next
  case (serves_no_child b w b' w' cs)
  then show ?thesis using assms(2) fs_serve_round [of m sp b w] by (auto simp: files_are_def)
qed (auto simp: files_are_def fs_pollCall interrupted_def dest!: handleZombies_effect)

lemma interrupted_poll:
  "World.pollCall t (interrupted w) = Stop (Exited (- 1)) (w\<lparr>pset := poll_writes [] (pset w)\<rparr>)"
  by (simp add: World.pollCall_def interrupted_def on_pset_def PollLib.pollCall_def Let_def)

lemma gone_for_good:
  assumes "family_runs m sp s t" "fst s = Gone k w"
  shows "fst t = Gone k w \<and> length (snd t) \<le> length (snd s) \<and> set (snd t) \<subseteq> set (snd s)"
  using assms
proof (induction rule: rtranclp_induct)
  case (step t u)
  then obtain l cs where "family_step m sp l (Gone k w, cs) u" "t = (Gone k w, cs)" by (cases t) auto
  then show ?case using step.IH step.prems by (auto elim!: gone_E)
qed simp

section \<open>A child for a small file\<close>

lemma small_file_child:
  assumes "able_to_serve c (take 100 (src_filename p)) path src m sp v"
    and "length (src_filename p) = 101" "length buffer = 114" "recv_q v = Datagram a (sealed_request p @ [x]) # rq"
    and "0 < buffer_size p" "buffer_size p \<le> 255" "0 < window_size p" "window_size p < 65536"
    and "length src \<le> nat (window_size p) * nat (buffer_size p)"
  obtains talk ok ds y where "process_run m sp buffer v = Stop (Exited 1) y"
    "sent y = sent v @ map (\<lambda>d. (c, a, d)) (talk # ok # ds)" "talk ! 6 = 33" "ok ! 6 = 9" "concat (map (drop 7) ds) = src"
    "\<forall>i < length ds. is_data_pdu (ds ! i) (word_of_nat i) (chunk src (buffer_size p) i)"
proof -
  let ?W = "nat (window_size p)" and ?name = "take 100 (src_filename p)"
  let ?v = "v\<lparr>recv_q := rq, client := a\<rparr>"
  obtain sq where sq: "sys_q v = 0 # c # 0 # 0 # sq" using assms(1) by (auto simp: able_to_serve_def)
  have W: "0 < ?W" "?W < 2147483000" using assms(7,8) by simp_all
  obtain talk ok window y where y: "startFSM ?name (word_of_int (buffer_size p)) (word_of_nat ?W) m sp ?v =
      bnd (send_data_loop (buffer_size p) window src y)
        (\<lambda>st w. child_fsm ?name (word_of_int (buffer_size p)) (word_of_nat ?W) st w)"
    "sent y = sent ?v @ [(c, client ?v, talk), (c, client ?v, ok)]" "talk ! 6 = 33" "ok ! 6 = 9"
    "lossless y" "plenty y" "full_window window" "current window = 0" "upper window = int ?W"
    "client y = client ?v" "child_server_socket y = c" "data_sequence_number y = 0"
    by (rule child_starts_sending [of ?v sp c sq m ?name path src "buffer_size p" ?W])
      (use assms(1,5,6) sq W in \<open>auto simp: able_to_serve_def channel_ok_def plenty_def\<close>)
  obtain ds z where z: "send_data_loop (buffer_size p) window src y = Ok WAIT_ON_EOF_ACK z"
    "concat (map (drop 7) ds) = src"
    "\<forall>i < length ds. is_data_pdu (ds ! i) (word_of_nat i) (take (nat (buffer_size p)) (drop (i * nat (buffer_size p)) src))"
    "sent z = sent y @ map (\<lambda>d. (child_server_socket y, client y, d)) ds"
    by (rule small_file_sent [OF y(5,6,12,7-9) assms(5,6) W assms(9)])
  have "process_run m sp buffer v = Stop (Exited 1) z"
    using round_serves [OF assms(2-4), of m sp] same_window [OF assms(7,8)] y(1) z(1)
    by (simp add: process_run_def child_fsm.simps [of _ _ _ WAIT_ON_EOF_ACK])
  then show ?thesis using y(2-4,10,11) z(2-4) by (intro that [of z talk ok ds]) (simp_all add: chunk_def)
qed

section \<open>The parent's side of the fork\<close>

lemma parent_forks:
  assumes "length (src_filename p) = 101" "length buffer = 114" "recv_q w = Datagram a (sealed_request p @ [x]) # rq"
    and "sys_q w = pid # q" "0 < pid"
  obtains w' where "serve_round m sp buffer w = Ok (sealed_request p @ [x]) w'" "sys_log w' = sys_log w @ [Sys_fork]"
    "sys_q w' = q" "poll_q w' = poll_q w" "sent w' = sent w" "fs w' = fs w" "recv_q w' = rq"
  using round_serves [OF assms(1-3), of m sp] assms(4,5)
  by (simp add: startFSM_def forkMod_def syscall_def Let_def)

lemma reaps_one:
  assumes "sys_q w = pid # 0 # q" "0 < pid"
  shows "\<exists>w'. handleZombies w = Ok () w'"
  using assms by (simp add: handleZombies.simps syscall_def)

text \<open>A request for a small file: the parent waits again, and the child has sent everything.\<close>

lemma small_file_family:
  assumes "length (src_filename p) = 101" "0 < buffer_size p" "buffer_size p \<le> 255" "0 < window_size p" "window_size p < 65536"
    and "length src \<le> nat (window_size p) * nat (buffer_size p)"
    and "length buffer = 114" "World.pollCall (- 1) v = Ok r v1" "0 \<le> r" "poll_q v1 = []"
    and "recv_q v1 = Datagram a (sealed_request p @ [x]) # rq" "sys_q v1 = pid # pid # 0 # q" "0 < pid"
    and "able_to_serve c (take 100 (src_filename p)) path src m sp (child_copy v1 sq [] [])"
  obtains b v2 talk ok ds y where "family_runs m sp (Waiting buffer v, []) (Waiting b v2, [Stop (Exited 1) y])"
    "sent y = sent v @ map (\<lambda>d. (c, a, d)) (talk # ok # ds)" "concat (map (drop 7) ds) = src"
    "sys_q v2 = pid # 0 # q" "poll_q v2 = []"
proof -
  let ?b = "sealed_request p @ [x]"
  have v: "poll_q v \<noteq> []" using assms(8) by (auto simp: World.pollCall_def)
  have s: "sent v1 = sent v" using final_pollCall [of "- 1" v] assms(8) by auto
  have 1: "family_step m sp Polls (Waiting buffer v, []) (Serving buffer v1, [])"
    using family_step.polls [OF v, of m sp buffer "[]"] assms(8,9) by (simp add: poll_returns_def)
  obtain v2 where v2: "serve_round m sp buffer v1 = Ok ?b v2" "sys_log v2 = sys_log v1 @ [Sys_fork]"
    "sys_q v2 = pid # 0 # q" "poll_q v2 = poll_q v1"
    by (rule parent_forks [OF assms(1,7,11,12,13)])
  have cr: "recv_q (child_copy v1 sq [] []) = Datagram a ?b # []" using assms(11) by (simp add: child_copy_def)
  obtain talk ok ds y where y: "process_run m sp buffer (child_copy v1 sq [] []) = Stop (Exited 1) y"
    "sent y = sent (child_copy v1 sq [] []) @ map (\<lambda>d. (c, a, d)) (talk # ok # ds)" "concat (map (drop 7) ds) = src"
    by (rule small_file_child [OF assms(14,1,7) cr assms(2-6)])
  have 2: "family_step m sp Serves (Serving buffer v1, []) (Waiting ?b v2, [Stop (Exited 1) y])"
    using family_step.forks [OF v2(1,2), where cs = "[]" and sq = sq and pq = "[]" and rq = "[]"] assms(12,13) y(1)
    by simp
  show ?thesis
    by (rule that [OF two_steps [OF 1 2] _ y(3) v2(3)]) (use y(2) s v2(4) assms(10) in \<open>simp_all add: child_copy_def\<close>)
qed

text \<open>A server with one datagram to come, for the instances below.\<close>

definition small_sample :: "recv_event \<Rightarrow> server_proc" where
  "small_sample e = (idle_server [[97] \<mapsto> [10, 11, 20]] [(1, [0, 1])] [e] [44, 44, 0])
     \<lparr>pset := \<lparr>pollFileDescriptors = [\<lparr>fd = 0, events = 0, revents = 0\<rparr>, \<lparr>fd = 1, events = 1, revents = 0\<rparr>],
               maxFileDescriptor = 2, currentPollSetSize = 2\<rparr>\<rparr>"

abbreviation small_sample_polled :: "recv_event \<Rightarrow> server_proc" where
  "small_sample_polled e \<equiv> (small_sample e)\<lparr>poll_q := [],
     pset := \<lparr>pollFileDescriptors = [\<lparr>fd = 0, events = 0, revents = 0\<rparr>, \<lparr>fd = 1, events = 1, revents = 1\<rparr>],
               maxFileDescriptor = 2, currentPollSetSize = 2\<rparr>\<rparr>"

lemma small_sample_poll: "World.pollCall (- 1) (small_sample e) = Ok 1 (small_sample_polled e)"
  by (simp add: small_sample_def idle_server_def World.pollCall_def on_pset_def
      PollLib.pollCall_def poll_writes_def Let_def eval_nat_numeral)

abbreviation sample_request :: recv_event where
  "sample_request \<equiv> Datagram \<lparr>sin6_addr = 7, sin6_port = 8\<rparr> (sealed_request sample_params @ [0])"

lemma small_sample_facts:
  fixes buffer :: "byte list"
  defines "buffer \<equiv> replicate 114 0"
  shows "length (src_filename sample_params) = 101" "0 < buffer_size sample_params" "buffer_size sample_params \<le> 255"
    "0 < window_size sample_params" "window_size sample_params < 65536"
    "length [10, 11, 20 :: byte] \<le> nat (window_size sample_params) * nat (buffer_size sample_params)"
    "length buffer = 114" "World.pollCall (- 1) (small_sample sample_request) = Ok 1 (small_sample_polled sample_request)"
    "(0 :: int) \<le> 1" "poll_q (small_sample_polled sample_request) = []"
    "recv_q (small_sample_polled sample_request) = sample_request # []"
    "sys_q (small_sample_polled sample_request) = 44 # 44 # 0 # []" "(0 :: int) < 44"
    "able_to_serve 6 (take 100 (src_filename sample_params)) [97] [10, 11, 20] 1 sample_sp
      (child_copy (small_sample_polled sample_request) [6, 0, 0] [] [])"
proof -
  have n: "take 100 (src_filename sample_params) = 97 # replicate 99 0"
    by (simp add: sample_params_def strncpy_array_def)
  have "c_string (take 100 (src_filename sample_params)) = Inr [97]"
    unfolding n by (simp add: c_string_def cstring_def takeWhile_replicate)
  then show "able_to_serve 6 (take 100 (src_filename sample_params)) [97] [10, 11, 20] 1 sample_sp
      (child_copy (small_sample_polled sample_request) [6, 0, 0] [] [])"
    by (simp add: able_to_serve_def child_copy_def small_sample_def idle_server_def POLL_SET_SIZE_def channel_ok_def
        drop_channel_def plenty_def ps_ok_def)
  show "World.pollCall (- 1) (small_sample sample_request) = Ok 1 (small_sample_polled sample_request)"
    by (rule small_sample_poll)
  show "length (src_filename sample_params) = 101" by (simp add: sample_params_def strncpy_array_def)
qed (simp_all add: buffer_def sample_params_facts, simp_all add: small_sample_def idle_server_def)

section \<open>What the signal does\<close>

text \<open>
  C5. No process of the family writes a file: in every state the family can reach, with
  any number of children and any interruptions, the files are those the server was
  started with, in the parent and in every child, and no child's run ever returns.
\<close>

theorem no_process_writes_a_file:
  assumes "family_runs m sp (Waiting b w, []) (p, cs)"
  shows "fs (parent_proc p) = fs w \<and> (\<forall>c \<in> set cs. fs (final c) = fs w \<and> (\<exists>k v. c = Stop k v))"
proof -
  have "files_are (fs w) t" if "family_runs m sp s t" "files_are (fs w) s" for s t
    using that by (induction rule: rtranclp_induct) (auto dest: files_step)
  from this [OF assms] show ?thesis by (simp add: files_are_def)
qed

theorem no_process_writes_a_file_witness:
  "\<exists>p k v. family_runs 1 sample_sp (Waiting (replicate 114 0) (small_sample sample_request), []) (p, [Stop k v])
     \<and> fs (parent_proc p) = [[97] \<mapsto> [10, 11, 20]] \<and> fs v = [[97] \<mapsto> [10, 11, 20]] \<and> 3 \<le> length (sent v)"
proof -
  obtain b v2 talk ok ds y where
    "family_runs 1 sample_sp (Waiting (replicate 114 0) (small_sample sample_request), []) (Waiting b v2, [Stop (Exited 1) y])"
    and y: "sent y = sent (small_sample sample_request) @ map (\<lambda>d. (6, \<lparr>sin6_addr = 7, sin6_port = 8\<rparr>, d)) (talk # ok # ds)"
      "concat (map (drop 7) ds) = [10, 11, 20 :: byte]"
    by (rule small_file_family [OF small_sample_facts])
  note no_process_writes_a_file [OF this(1)] and this(1)
  moreover have "ds \<noteq> []" using y(2) by auto
  then have "3 \<le> length (sent y)" using y(1) by (cases ds) simp_all
  ultimately show ?thesis by (intro exI [of _ "Waiting b v2"] exI [of _ "Exited 1"] exI [of _ y])
    (simp add: small_sample_def idle_server_def)
qed

text \<open>
  C4. A child that ends ends the waiting server: in whatever state of the family the parent
  waits in \<open>poll\<close>, the end of a child interrupts it, \<open>pollCall\<close> takes the
  interruption for an error, and the parent exits with status -1. It has sent and written
  nothing more, and however the family goes on, it stays gone and no child is ever forked again.
\<close>

theorem child_end_ends_the_waiting_server:
  assumes "family_step m sp Child_ends (Waiting b w, cs) (p, cs')" "family_runs m sp (p, cs') (p2, cs2)"
  shows "\<exists>w'. p = Gone (Exited (- 1)) w' \<and> sent w' = sent w \<and> fs w' = fs w \<and> recv_q w' = recv_q w
    \<and> p2 = p \<and> set cs2 \<subseteq> set cs \<and> length cs2 < length cs"
proof -
  obtain c as bs w1 where e: "cs = as @ c # bs" "cs' = as @ bs" "handleZombies w = Ok () w1"
    "p = poll_returns b (World.pollCall (- 1) (interrupted w1))"
    using assms(1) by (auto elim!: waiting_E)
  obtain q l where w1: "w1 = w\<lparr>sys_q := q, sys_log := l\<rparr>" using handleZombies_effect [OF e(3)] by blast
  have p: "p = Gone (Exited (- 1)) (w1\<lparr>pset := poll_writes [] (pset w1)\<rparr>)"
    by (simp add: e(4) interrupted_poll poll_returns_def)
  show ?thesis using gone_for_good [OF assms(2)] p e(1,2) w1 by auto
qed

theorem child_end_ends_the_waiting_server_witness:
  "\<exists>p w'. family_step 0 sample_sp Child_ends (Waiting [] (idle_server Map.empty [] [] [5, 0]),
       [Stop (Exited 1) (idle_server Map.empty [] [] [])]) (p, [])
     \<and> p = Gone (Exited (- 1)) w' \<and> sent w' = []"
proof -
  let ?w = "idle_server Map.empty [] [] [5, 0]" and ?c = "Stop (Exited 1) (idle_server Map.empty [] [] [])"
  obtain w1 where "handleZombies ?w = Ok () w1" using reaps_one [of ?w 5 "[]"] by (auto simp: idle_server_def)
  then obtain p where p: "family_step 0 sample_sp Child_ends (Waiting [] ?w, [?c]) (p, [])"
    using family_step.ends_while_waiting [of ?c ?w w1 0 sample_sp "[]" "[]" "[]"] by (auto simp: ended_def)
  from child_end_ends_the_waiting_server [OF p rtranclp.rtrancl_refl]
  obtain w' where "p = Gone (Exited (- 1)) w'" "sent w' = sent ?w" by blast
  then show ?thesis using p by (intro exI [of _ p] exI [of _ w']) (simp add: idle_server_def)
qed



end
