(* ===== verification/ClientRuns.thy ===== *)
theory ClientRuns
  imports Conversation
begin

text \<open>
  Two things the client of \<^verbatim>\<open>rcopy.c\<close> does not do, as runs of its state
  machine: it does not count how often it starts over, and it looks at no checksum.
\<close>

section \<open>Starting over\<close>

lemma file_check_unanswered:
  assumes "online s w" "poll_q w = replicate k (0, []) @ q" "n + k = 9"
  obtains ps where "file_valid_loop s buf n w = Ok SEND_FILENAME (w\<lparr>poll_q := q, pset := ps\<rparr>)" "ps_ok ps" "registered ps s"
proof -
  have "\<exists>ps. file_valid_loop s buf n w = Ok SEND_FILENAME (w\<lparr>poll_q := q, pset := ps\<rparr>) \<and> ps_ok ps \<and> registered ps s"
    using assms
  proof (induction k arbitrary: n w)
    case 0
    have e: "w\<lparr>poll_q := q, pset := pset w\<rparr> = w" "ps_ok (pset w)" "registered (pset w) s"
      using 0 by (simp_all add: online_def)
    moreover have "file_valid_loop s buf n w = Ok SEND_FILENAME w" using 0(3) by (simp add: file_valid_loop.simps [of s buf 9])
    ultimately show ?case by metis
  next
    case (Suc k)
    then have "poll_q w = (0, []) # replicate k (0, []) @ q" by simp
    then obtain ps where ps: "World.pollCall 1000 w = Ok (- 1) (w\<lparr>poll_q := replicate k (0, []) @ q, pset := ps\<rparr>)"
        "ps_ok ps" "registered ps s"
      by (rule poll_timeout [OF Suc.prems(1)])
    let ?u = "w\<lparr>poll_q := replicate k (0, []) @ q, pset := ps\<rparr>"
    have "online s (w\<lparr>pset := ps\<rparr>)" by (rule online_pset [OF Suc.prems(1) ps(2,3)])
    then have "online s ?u" by (simp add: online_def channel_ok_def)
    from Suc.IH [OF this _, of "n + 1"] Suc.prems(3) obtain ps' where
      "file_valid_loop s buf (n + 1) ?u = Ok SEND_FILENAME (?u\<lparr>poll_q := q, pset := ps'\<rparr>)" "ps_ok ps'" "registered ps' s"
      by auto
    moreover have "file_valid_loop s buf n w = file_valid_loop s buf (n + 1) ?u"
      using Suc.prems(3) ps(1) by (simp add: file_valid_loop.simps [of s buf n])
    ultimately show ?case by (intro exI [of _ ps']) simp
  qed
  then show ?thesis using that by blast
qed

text \<open>One round: the request is answered, the question for the file is not.\<close>

definition restart_polls :: "int \<Rightarrow> (int \<times> int list) list" where
  "restart_polls s = ready s # replicate 9 (0, [])"

lemma one_restart:
  assumes "channel_ok w" "\<forall>k. send_ok w k" "\<forall>k. heap_fn w k \<noteq> None" "ps_ok (pset w)" "0 < s" "s + POLL_SET_SIZE < 2147483648"
    and "writable w (cstring (dest_filename p))" "length b = 113"
    and "poll_q w = restart_polls s @ q" "recv_q w = Datagram a talk # rq" "length talk = 7" "talk ! 6 = 33"
  obtains v u where "phase_step p s b (SEND_FILENAME, w) (FILE_VALID, v)" "phase_step p s b (FILE_VALID, v) (SEND_FILENAME, u)"
    "online s u" "fs u = (fs w)(cstring (dest_filename p) \<mapsto> [])" "poll_q u = q" "recv_q u = rq"
    "writable u = writable w" "static_next u = static_next w" "closed u = closed w" "tells [b @ [static_next w]] w u"
proof -
  let ?dst = "cstring (dest_filename p)"
  have pq: "poll_q w = ready s # (replicate 9 (0, []) @ q)" using assms(9) by (simp add: restart_polls_def)
  obtain v where v: "doSendFilenameState s b w = Ok FILE_VALID v" "online s v" "fs v = fs w" "poll_q v = replicate 9 (0, []) @ q"
    "recv_q v = rq" "subState v = subState w" "writable v = writable w" "rr_seq_num v = rr_seq_num w"
    "tells [b @ [static_next w]] w v" "static_next v = static_next w" "closed v = closed w"
    by (rule request_answered [OF assms(1-6,8) pq assms(10-12)])
  define v1 where "v1 = v\<lparr>fs := (fs v)(?dst \<mapsto> [])\<rparr>"
  have o: "online s v1" "poll_q v1 = replicate 9 (0, []) @ q" using v(2,4) by (simp_all add: v1_def)
  obtain ps where ps: "file_valid_loop s (local_array 7 v1) 0 v1 = Ok SEND_FILENAME (v1\<lparr>poll_q := q, pset := ps\<rparr>)"
      "ps_ok ps" "registered ps s"
    by (rule file_check_unanswered [OF o]) simp
  let ?u = "v1\<lparr>poll_q := q, pset := ps\<rparr>"
  have "doFileValidState p s v = Ok SEND_FILENAME ?u"
    using ps(1) v(7) assms(7) by (simp add: doFileValidState_def checkDestFile_def fopen_wb_def v1_def [symmetric])
  moreover have "online s (v1\<lparr>pset := ps\<rparr>)" by (rule online_pset [OF o(1) ps(2,3)])
  then have "online s ?u" by (simp add: online_def channel_ok_def)
  ultimately show ?thesis
    using v by (intro that [of v ?u]) (simp_all add: phase_step_iff v1_def tells_def)
qed

text \<open>
  C19. The number of times the client starts over has no bound. The nine attempts of
  \<open>doSendFilenameState\<close> and of \<open>doFileValidState\<close> are counted afresh in
  every call, and nothing counts the calls: when each request is answered with a flag
  of 33 and the nine polls behind it time out, then however many such rounds there are, the client
  goes from SEND_FILENAME to FILE_VALID and back each time, sends one request in each round
  (all of them reach the network if the channel loses nothing), and is in SEND_FILENAME again with its
  socket open and the destination file empty. It is assumed that the destination can
  be opened each time; since \<open>checkDestFile\<close> never closes the stream, what ends
  the rounds at last is the number of files a process may have open.
\<close>

theorem restarts_are_unbounded:
  assumes "channel_ok w" "\<forall>k. send_ok w k" "\<forall>k. heap_fn w k \<noteq> None" "ps_ok (pset w)" "0 < s" "s + POLL_SET_SIZE < 2147483648"
    and "writable w (cstring (dest_filename p))" "length b = 113"
    and "poll_q w = concat (replicate (length ans) (restart_polls s)) @ q" "recv_q w = map (\<lambda>(a, d). Datagram a d) ans @ rq"
    and "\<forall>(a, d) \<in> set ans. length d = 7 \<and> d ! 6 = 33"
  shows "\<exists>u. (phase_step p s b ^^ (2 * length ans)) (SEND_FILENAME, w) (SEND_FILENAME, u)
    \<and> rcopy_fsm p s b SEND_FILENAME w = rcopy_fsm p s b SEND_FILENAME u
    \<and> poll_q u = q \<and> recv_q u = rq \<and> closed u = closed w
    \<and> fs u = (if ans = [] then fs w else (fs w)(cstring (dest_filename p) \<mapsto> []))
    \<and> (lossless w \<longrightarrow> map (\<lambda>(_, _, d). d) (sent u) =
         map (\<lambda>(_, _, d). d) (sent w) @ replicate (length ans) (b @ [static_next w]))"
proof -
  have "\<exists>u. (phase_step p s b ^^ (2 * length ans)) (SEND_FILENAME, w) (SEND_FILENAME, u)
    \<and> rcopy_fsm p s b SEND_FILENAME w = rcopy_fsm p s b SEND_FILENAME u
    \<and> poll_q u = q \<and> recv_q u = rq \<and> closed u = closed w
    \<and> fs u = (if ans = [] then fs w else (fs w)(cstring (dest_filename p) \<mapsto> []))
    \<and> tells (replicate (length ans) (b @ [static_next w])) w u"
    using assms(1-4,7,9-11)
  proof (induction ans arbitrary: w)
    case Nil
    then show ?case by (intro exI [of _ w]) (simp add: tells_same)
  next
    case (Cons x ans)
    obtain a d where x: "x = (a, d)" by fastforce
    have pq: "poll_q w = restart_polls s @ (concat (replicate (length ans) (restart_polls s)) @ q)"
      and rq: "recv_q w = Datagram a d # (map (\<lambda>(a, d). Datagram a d) ans @ rq)"
      and d: "length d = 7" "d ! 6 = 33" using Cons.prems(6-8) x by simp_all
    obtain v u where u: "phase_step p s b (SEND_FILENAME, w) (FILE_VALID, v)" "phase_step p s b (FILE_VALID, v) (SEND_FILENAME, u)"
      "online s u" "fs u = (fs w)(cstring (dest_filename p) \<mapsto> [])"
      "poll_q u = concat (replicate (length ans) (restart_polls s)) @ q" "recv_q u = map (\<lambda>(a, d). Datagram a d) ans @ rq"
      "writable u = writable w" "static_next u = static_next w" "closed u = closed w" "tells [b @ [static_next w]] w u"
      by (rule one_restart [OF Cons.prems(1-4) assms(5,6) Cons.prems(5) assms(8) pq rq d])
    have c: "channel_ok u" "\<forall>k. send_ok u k" "\<forall>k. heap_fn u k \<noteq> None" "ps_ok (pset u)"
      using u(3) by (simp_all add: online_def)
    obtain u' where u': "(phase_step p s b ^^ (2 * length ans)) (SEND_FILENAME, u) (SEND_FILENAME, u')"
      "rcopy_fsm p s b SEND_FILENAME u = rcopy_fsm p s b SEND_FILENAME u'" "poll_q u' = q" "recv_q u' = rq"
      "closed u' = closed u" "fs u' = (if ans = [] then fs u else (fs u)(cstring (dest_filename p) \<mapsto> []))"
      "tells (replicate (length ans) (b @ [static_next u])) u u'"
      using Cons.IH [OF c _ u(5,6)] u(7) Cons.prems(5,8) by auto
    have "(phase_step p s b ^^ (2 * length (x # ans))) (SEND_FILENAME, w) (SEND_FILENAME, u')"
      using relpowp_Suc_I2 [of "phase_step p s b", OF u(1) relpowp_Suc_I2 [of "phase_step p s b", OF u(2) u'(1)]] by simp
    moreover have "rcopy_fsm p s b SEND_FILENAME w = rcopy_fsm p s b SEND_FILENAME u'"
      using u(1,2) u'(2) by (simp add: phase_step_iff rcopy_fsm.simps [of p s b SEND_FILENAME w] rcopy_fsm.simps [of p s b FILE_VALID v])
    moreover have "tells (replicate (length (x # ans)) (b @ [static_next w])) w u'"
      using tells_append [OF u(10) u'(7)] u(8) by simp
    moreover have "fs u' = (fs w)(cstring (dest_filename p) \<mapsto> [])" using u(4) u'(6) by (simp split: if_splits)
    ultimately show ?case using u(9) u'(3-5) by (intro exI [of _ u']) simp
  qed
  then show ?thesis by (auto simp: tells_def)
qed

text \<open>For every number there is a network that makes the client start over that often.\<close>

theorem restarts_are_unbounded_witness:
  "\<forall>n. \<exists>w u. (phase_step sample_params 3 (replicate 113 8) ^^ (2 * n)) (SEND_FILENAME, w) (SEND_FILENAME, u)
     \<and> length (sent w) = 0 \<and> length (sent u) = n \<and> closed u = []"
proof
  fix n
  define ans where "ans = replicate n (\<lparr>sin6_addr = 8, sin6_port = 9\<rparr>, [0, 0, 0, 0, 0, 0, 33 :: byte])"
  define w where "w = (lossless_client_at (concat (replicate (length ans) (restart_polls 3)) @ [])
      (map (\<lambda>(a, d). Datagram a d) ans @ []))\<lparr>pset := empty_pollset\<rparr>"
  have w: "lossless w" "channel_ok w" "\<forall>k. send_ok w k" "\<forall>k. heap_fn w k \<noteq> None" "ps_ok (pset w)"
    "sent w = []" "closed w = []" "writable w (cstring (dest_filename sample_params))"
    "poll_q w = concat (replicate (length ans) (restart_polls 3)) @ []" "recv_q w = map (\<lambda>(a, d). Datagram a d) ans @ []"
    by (simp_all add: w_def lossless_def channel_ok_def drop_channel_def idle_client_def ps_ok_def empty_pollset_def)
  have n: "length ans = n" "\<forall>(a, d) \<in> set ans. length d = 7 \<and> d ! 6 = 33" by (simp_all add: ans_def)
  obtain u where "(phase_step sample_params 3 (replicate 113 8) ^^ (2 * length ans)) (SEND_FILENAME, w) (SEND_FILENAME, u)"
      "closed u = closed w" "map (\<lambda>(_, _, d). d) (sent u) =
        map (\<lambda>(_, _, d). d) (sent w) @ replicate (length ans) (replicate 113 8 @ [static_next w])"
    using restarts_are_unbounded [OF w(2-5) _ _ w(8) _ w(9,10) n(2), of "replicate 113 8"] w(1)
    by (auto simp: POLL_SET_SIZE_def)
  moreover from arg_cong [OF this(3), of length] have "length (sent u) = n" by (simp add: w(6) n(1))
  ultimately show "\<exists>w u. (phase_step sample_params 3 (replicate 113 8) ^^ (2 * n)) (SEND_FILENAME, w) (SEND_FILENAME, u)
     \<and> length (sent w) = 0 \<and> length (sent u) = n \<and> closed u = []"
    unfolding n(1) using w(6,7) by (intro exI [of _ w] exI [of _ u]) simp
qed

section \<open>Checksums\<close>

text \<open>
  C35. The client verifies no checksum, and of the flags only those it waits for. Whatever stands in the
  other bytes of the two answers, they are taken for the redirection and the confirmation
  if their flags are 33 and 9; and whatever stands in the checksum field and the
  payload of the datagram behind them, and whatever its flag is unless it is 10 (end of file), it
  is written to the destination and acknowledged with the RR for packet 1 if its number is 0.
  A datagram that was corrupted on the way, or that carries no data at all, is
  therefore copied like a good one, and \<open>main\<close> returns 0.
\<close>

theorem no_checksum_is_verified:
  assumes "can_start argv p s w" "window_size p < 1073741824" "buffer_size p \<le> 1400"
    and "poll_q w = replicate 3 (ready s) @ (0, revs) # q" "recv_q w = map (Datagram a) [talk, ok, d] @ rq"
    and "length talk = 7" "talk ! 6 = 33" "length ok = 7" "ok ! 6 = 9"
    and "int (length d) = 7 + buffer_size p" "pdu_seq d = 0" "d ! 6 \<noteq> 10"
  shows "\<exists>u. Rcopy.main argv w = Ok 0 u \<and> fs u = (fs w)(cstring (dest_filename p) \<mapsto> drop 7 d)
    \<and> (quiet_client p w \<longrightarrow> map (\<lambda>(_, _, d). d) (sent u) =
         map (\<lambda>(_, _, d). d) (sent w) @ [sealed_request p @ [static_next w], final_rr 0 1])"
proof -
  have "Rcopy.checkArgs argv w = Ok p w" using assms(1) by (simp add: can_start_def)
  note pos = checkArgs_Ok(3,4) [OF this]
  have pq: "poll_q w = ready s # ready s # (replicate (Suc (length [])) (ready s) @ (0, revs) # q)"
    and rq: "recv_q w = Datagram a talk # Datagram a ok # (map (Datagram a) [d] @ rq)"
    using assms(4,5) by (simp_all add: eval_nat_numeral)
  have W: "window_size p < 2147483648" using assms(2) by simp
  obtain u rbuf where u: "data_phase argv p s w u rbuf" "poll_q u = replicate (Suc (length [])) (ready s) @ (0, revs) # q"
    "recv_q u = map (Datagram a) [d] @ rq"
    by (rule client_enters_data_phase [OF assms(1) W pq rq assms(6-9)])
  note dp = u(1) [unfolded data_phase_def]
  have rs: "response_size p = 7 + nat (buffer_size p)"
    using pos(2) assms(3) by (simp add: response_size_def s32_id int_range_def nat_add_distrib)
  then have f: "fits p d" "length d = 7 + nat (buffer_size p)"
    using assms(3,10,12) pos(2) by (simp_all add: fits_def sizeof_RPacket_def)
  have "\<exists>w' e. getDataLoop s p (cstring (dest_filename p)) rbuf 0 u = Ok RcopyData.DONE w' \<and>
    fs w' = (fs u)(cstring (dest_filename p) \<mapsto> file_contents u (cstring (dest_filename p)) @ take (nat (buffer_size p)) (drop 7 d @ e))
    \<and> tells [final_rr (rr_seq_num u) (word_of_int (expected rbuf + 1))] u w'"
    by (rule expected_packet_then_others [where ds = "[]" and a = a and rq = rq and revs = revs and q = q])
      (use dp u(2,3) f assms(2,3,11) pos in auto)
  then obtain w' e where w': "getDataLoop s p (cstring (dest_filename p)) rbuf 0 u = Ok RcopyData.DONE w'"
    "fs w' = (fs u)(cstring (dest_filename p) \<mapsto> file_contents u (cstring (dest_filename p)) @ take (nat (buffer_size p)) (drop 7 d @ e))"
    "tells [final_rr (rr_seq_num u) (word_of_int (expected rbuf + 1))] u w'" by blast
  have "Rcopy.main argv w = Ok 0 (w'\<lparr>closed := closed w' @ [s]\<rparr>)" using dp w'(1) by blast
  moreover have "fs w' = (fs w)(cstring (dest_filename p) \<mapsto> drop 7 d)" using dp w'(2) f(2) by (simp add: file_contents_def)
  moreover have "quiet_client p w \<longrightarrow> map (\<lambda>(_, _, d). d) (sent w') =
      map (\<lambda>(_, _, d). d) (sent w) @ [sealed_request p @ [static_next w], final_rr 0 1]"
    using dp w'(3) by (auto simp: tells_def)
  ultimately show ?thesis by (intro exI [of _ "w'\<lparr>closed := closed w' @ [s]\<rparr>"]) simp
qed

text \<open>No datagram of this run has a valid checksum, and the last one is no data packet either.\<close>

theorem no_checksum_is_verified_witness:
  "\<exists>talk ok d u. in_cksum talk \<noteq> 0 \<and> in_cksum ok \<noteq> 0 \<and> in_cksum d \<noteq> 0 \<and> d ! 6 = 33
    \<and> Rcopy.main sample_args (sample_caller (replicate 3 (ready 3) @ [(0, [])]) [talk, ok, d]) = Ok 0 u
    \<and> fs u [98] = Some [65, 66] \<and> map (\<lambda>(_, _, d). d) (sent u) = [sealed_request sample_params @ [0], final_rr 0 1]"
proof -
  let ?talk = "[0, 0, 0, 0, 0, 0, 33] :: byte list" and ?ok = "[0, 0, 0, 0, 0, 0, 9] :: byte list"
  let ?d = "[0, 0, 0, 0, 1, 2, 33, 65, 66] :: byte list" and ?a = "\<lparr>sin6_addr = 8, sin6_port = 9\<rparr>"
  let ?w = "sample_caller (replicate 3 (ready 3) @ [(0, [])]) [?talk, ?ok, ?d]"
  have c: "in_cksum ?talk \<noteq> 0" "in_cksum ?ok \<noteq> 0" "in_cksum ?d \<noteq> 0" by code_simp+
  have n: "pdu_seq ?d = 0" by (simp add: pdu_seq_def load32_def ntohl_def htonl_def bytes32_def)
  have q: "poll_q ?w = replicate 3 (ready 3) @ (0, []) # []" "recv_q ?w = map (Datagram ?a) [?talk, ?ok, ?d] @ []"
    "sent ?w = []" by (simp_all add: sample_caller_def sample_client_def idle_client_def)
  obtain u where "Rcopy.main sample_args ?w = Ok 0 u" "fs u = (fs ?w)([98] \<mapsto> drop 7 ?d)"
      "map (\<lambda>(_, _, d). d) (sent u) = [sealed_request sample_params @ [0], final_rr 0 1]"
    using no_checksum_is_verified [OF sample_caller_facts(1) _ _ q(1,2)] n q(3) sample_caller_facts(2,5)
    by (auto simp: sample_params_facts)
  then show ?thesis using c
    by (intro exI [of _ ?talk] exI [of _ ?ok] exI [of _ ?d] exI [of _ u]) simp
qed

end
