(* ===== verification/Settings.thy ===== *)
theory Settings
  imports ErrorChannel Clib
begin

text \<open>
  The start of \<^verbatim>\<open>libcpe464\<close>: the constructors of its two global objects, with the
  environment variables that \<^verbatim>\<open>SettingsManager.cpp\<close> reads. A setting made in the
  environment has precedence over every later call of the program; the flags of the
  packet manager's state record which ones are made. \<open>getenv\<close> is a parameter,
  \<open>flt\<close> rounds to \<open>float\<close>, and \<open>mem\<close> says whether \<open>malloc\<close> succeeds.
\<close>

section \<open>Keys and entries\<close>

datatype eEnvData_t = EDT_UNKNOWN | EDT_LONG | EDT_FLOAT | EDT_BOOL | EDT_CHARPTR | EDT_LIST_LONG

datatype eEnvDataKey_t =
    EDK_UNKNOWN
  | EDK_AUTOGRADER
  | EDK_OVERRIDE_PORT
  | EDK_OVERRIDE_DEBUG
  | EDK_OVERRIDE_SEEDRAND
  | EDK_OVERRIDE_ERR_RATE
  | EDK_OVERRIDE_ERR_DROP
  | EDK_OVERRIDE_ERR_FLIP

text \<open>
  The entry's union is one field per member; a member that was not written has its
  initial value here and is not read by the code.
\<close>

record sEnvDataEntry_t =
  isSet :: bool
  vLong :: int
  vFloat :: floating
  vCharPtr :: "byte list"
  lLong :: "int list"

definition new_entry :: sEnvDataEntry_t where
  "new_entry = \<lparr>isSet = False, vLong = 0, vFloat = 0, vCharPtr = [], lLong = []\<rparr>"

type_synonym sEnvKeyInfo_t = "eEnvDataKey_t \<times> string \<times> eEnvData_t"

type_synonym sEnvDataMap_t = "eEnvDataKey_t \<Rightarrow> sEnvDataEntry_t"

definition g_EnvKeys :: "sEnvKeyInfo_t list" where
  "g_EnvKeys =
     [(EDK_AUTOGRADER, ''CPE464_AUTOGRADER'', EDT_CHARPTR),
      (EDK_OVERRIDE_PORT, ''CPE464_OVERRIDE_PORT'', EDT_LONG),
      (EDK_OVERRIDE_DEBUG, ''CPE464_OVERRIDE_DEBUG'', EDT_LONG),
      (EDK_OVERRIDE_SEEDRAND, ''CPE464_OVERRIDE_SEEDRAND'', EDT_LONG),
      (EDK_OVERRIDE_ERR_RATE, ''CPE464_OVERRIDE_ERR_RATE'', EDT_FLOAT),
      (EDK_OVERRIDE_ERR_DROP, ''CPE464_OVERRIDE_ERR_DROP'', EDT_LIST_LONG),
      (EDK_OVERRIDE_ERR_FLIP, ''CPE464_OVERRIDE_ERR_FLIP'', EDT_LIST_LONG)]"

section \<open>Parsing lists\<close>

text \<open>\<open>strtok_r\<close> with the separator comma: the non-empty parts between commas.\<close>

fun comma_tokens :: "byte list \<Rightarrow> byte list \<Rightarrow> byte list list" where
  "comma_tokens [] acc = (if acc = [] then [] else [acc])"
| "comma_tokens (c # s) acc =
     (if c = 44 then (if acc = [] then comma_tokens s [] else acc # comma_tokens s [])
      else comma_tokens s (acc @ [c]))"

text \<open>The values of the tokens up to the first one that is no number.\<close>

fun token_values :: "byte list list \<Rightarrow> int list" where
  "token_values [] = []"
| "token_values (t # ts) = (case strtol t of None \<Rightarrow> [] | Some v \<Rightarrow> v # token_values ts)"

definition parser2ListLong :: "int list \<Rightarrow> byte list \<Rightarrow> int \<times> int list" where
  "parser2ListLong l str =
     (let vals = token_values (comma_tokens str []) in (int (length vals), l @ vals))"

definition parserLong2Uint32 :: "int list \<Rightarrow> u32 list" where
  "parserLong2Uint32 l = map word_of_int (filter (\<lambda>v. v \<ge> 0) l)"

section \<open>Reading the environment\<close>

text \<open>One round of the loop of \<open>loadEnvData\<close>.\<close>

definition load_entry :: "(floating \<Rightarrow> floating) \<Rightarrow> bool \<Rightarrow> eEnvData_t \<Rightarrow> byte list \<Rightarrow> sEnvDataEntry_t \<Rightarrow> sEnvDataEntry_t" where
  "load_entry flt mem ty tmpStr entry =
     (let entry = entry\<lparr>isSet := True\<rparr> in
      case ty of
        EDT_LONG \<Rightarrow>
          (case strtol tmpStr of None \<Rightarrow> entry\<lparr>vLong := 0, isSet := False\<rparr> | Some v \<Rightarrow> entry\<lparr>vLong := v\<rparr>)
      | EDT_FLOAT \<Rightarrow>
          (case strtof flt tmpStr of None \<Rightarrow> entry\<lparr>vFloat := 0, isSet := False\<rparr> | Some v \<Rightarrow> entry\<lparr>vFloat := v\<rparr>)
      | EDT_BOOL \<Rightarrow>
          (case strtol tmpStr of None \<Rightarrow> entry\<lparr>vLong := 0, isSet := False\<rparr> | Some v \<Rightarrow> entry\<lparr>vLong := of_bool (v \<noteq> 0)\<rparr>)
      | EDT_CHARPTR \<Rightarrow> if mem then entry\<lparr>vCharPtr := tmpStr\<rparr> else entry\<lparr>isSet := False\<rparr>
      | EDT_LIST_LONG \<Rightarrow>
          (case parser2ListLong (lLong entry) tmpStr of
             (count, l) \<Rightarrow> if count < 0 then entry\<lparr>vLong := count, lLong := l, isSet := False\<rparr>
                           else entry\<lparr>vLong := count, lLong := l\<rparr>)
      | EDT_UNKNOWN \<Rightarrow> entry)"

definition loadEnvData :: "(floating \<Rightarrow> floating) \<Rightarrow> bool \<Rightarrow> (string \<Rightarrow> byte list option) \<Rightarrow> sEnvDataMap_t \<Rightarrow> sEnvDataMap_t" where
  "loadEnvData flt mem getenv m_EnvData =
     fold (\<lambda>(key, keyStr, ty) m.
             case getenv keyStr of None \<Rightarrow> m
             | Some tmpStr \<Rightarrow> m(key := load_entry flt mem ty tmpStr (m key))) g_EnvKeys m_EnvData"

section \<open>Applying the settings\<close>

definition setRandSeed :: "int \<Rightarrow> PacketManager \<Rightarrow> PacketManager" where
  "setRandSeed seed pm = pm\<lparr>rand_seed := seed, rand_pos := 0\<rparr>"

definition setErrorRate :: "floating \<Rightarrow> PacketManager \<Rightarrow> PacketManager" where
  "setErrorRate rate pm = pm\<lparr>m_ErrorRate := rate\<rparr>"

definition loadEnvData_SeedRand :: "sEnvDataMap_t \<Rightarrow> PacketManager \<Rightarrow> PacketManager" where
  "loadEnvData_SeedRand m_EnvData pm =
     (if isSet (m_EnvData EDK_OVERRIDE_SEEDRAND)
      then setRandSeed (vLong (m_EnvData EDK_OVERRIDE_SEEDRAND)) pm else pm)"

definition loadEnvData_ErrRate :: "sEnvDataMap_t \<Rightarrow> PacketManager \<Rightarrow> PacketManager" where
  "loadEnvData_ErrRate m_EnvData pm =
     (if isSet (m_EnvData EDK_OVERRIDE_ERR_RATE)
      then setErrorRate (vFloat (m_EnvData EDK_OVERRIDE_ERR_RATE)) pm else pm)"

definition loadEnvData_ErrDrop :: "sEnvDataMap_t \<Rightarrow> PacketManager \<Rightarrow> PacketManager" where
  "loadEnvData_ErrDrop m_EnvData pm =
     (let entry = m_EnvData EDK_OVERRIDE_ERR_DROP in
      if isSet entry then
        let lUint32 = parserLong2Uint32 (lLong entry) in
        if lUint32 = [] then addMsgEvent_Random new_errorDrop pm
        else addMsgEvent_Standard (setDropSpecific lUint32 new_errorDrop) pm
      else pm)"

text \<open>A list of packets to flip is not implemented: the setting then has no effect.\<close>

definition loadEnvData_ErrFlip :: "sEnvDataMap_t \<Rightarrow> PacketManager \<Rightarrow> PacketManager" where
  "loadEnvData_ErrFlip m_EnvData pm =
     (let entry = m_EnvData EDK_OVERRIDE_ERR_FLIP in
      if isSet entry \<and> parserLong2Uint32 (lLong entry) = []
      then addMsgEvent_Random ErrorFlipBits pm else pm)"

section \<open>The debug level\<close>

text \<open>
  The level is a static of \<^verbatim>\<open>dbg_print.c\<close>: \<open>dbg_setlevel\<close> assigns it, and
  \<open>dbg_print\<close> prints errors and what is not above it.
\<close>

definition dbg_setlevel :: "int \<Rightarrow> int \<Rightarrow> int" where
  "dbg_setlevel newLevel g_dbg_print_level = newLevel"

definition dbg_print :: "int \<Rightarrow> int \<Rightarrow> bool" where
  "dbg_print level g_dbg_print_level \<longleftrightarrow> \<not> (level \<noteq> - 1 \<and> g_dbg_print_level < level)"

definition loadEnvData_Debug :: "sEnvDataMap_t \<Rightarrow> int \<Rightarrow> int" where
  "loadEnvData_Debug m_EnvData g_dbg_print_level =
     (if isSet (m_EnvData EDK_OVERRIDE_DEBUG)
      then dbg_setlevel (s32 (vLong (m_EnvData EDK_OVERRIDE_DEBUG))) g_dbg_print_level
      else g_dbg_print_level)"

definition setUserMode_Debug :: "sEnvDataMap_t \<Rightarrow> int \<Rightarrow> int \<Rightarrow> int \<times> int" where
  "setUserMode_Debug m_EnvData debugLevel g_dbg_print_level =
     (if isSet (m_EnvData EDK_OVERRIDE_DEBUG) then (- 1, g_dbg_print_level)
      else (0, dbg_setlevel debugLevel g_dbg_print_level))"

text \<open>Here as well the environment wins; errors are always printed.\<close>

lemma debug_level_precedence:
  "snd (setUserMode_Debug m debugLevel (loadEnvData_Debug m (dbg_setlevel 0 l))) =
     (if isSet (m EDK_OVERRIDE_DEBUG) then s32 (vLong (m EDK_OVERRIDE_DEBUG)) else debugLevel)"
  "dbg_print (- 1) l"
  by (simp_all add: setUserMode_Debug_def loadEnvData_Debug_def dbg_setlevel_def dbg_print_def)

text \<open>Two steps of the constructor only report a setting, as a warning (level 0).\<close>

datatype env_message = Env_Autograder | Env_Port int

definition loadEnvData_Autograder :: "sEnvDataMap_t \<Rightarrow> (int \<times> env_message) list" where
  "loadEnvData_Autograder m_EnvData = (if isSet (m_EnvData EDK_AUTOGRADER) then [(0, Env_Autograder)] else [])"

definition loadEnvData_Port :: "sEnvDataMap_t \<Rightarrow> (int \<times> env_message) list" where
  "loadEnvData_Port m_EnvData =
     (if isSet (m_EnvData EDK_OVERRIDE_PORT) then [(0, Env_Port (vLong (m_EnvData EDK_OVERRIDE_PORT)))] else [])"

text \<open>They come before the debug level is read, so they are always printed: the level is 0 then.\<close>

lemma env_reports_printed:
  "\<forall>(level, _) \<in> set (loadEnvData_Port m @ loadEnvData_Autograder m). dbg_print level (dbg_setlevel 0 l)"
  by (auto simp: loadEnvData_Port_def loadEnvData_Autograder_def dbg_print_def dbg_setlevel_def)

section \<open>The global objects\<close>

definition RANDOM_SEED :: int where "RANDOM_SEED = 10"

text \<open>\<open>now\<close> is what \<open>time(NULL)\<close> returns.\<close>

definition new_PacketManager :: "int \<Rightarrow> PacketManager" where
  "new_PacketManager now =
     \<lparr>m_ErrorRate = 0, m_MsgNo = 0, m_ErrorCase_Constant = [], m_ErrorCase_Chance = [],
      rand_seed = now, rand_pos = 0, nextSeed = RANDOM_SEED,
      env_ErrRate = False, env_ErrDrop = False, env_ErrFlip = False, env_SeedRand = False\<rparr>"

text \<open>
  The constructor of the settings manager; the steps for the port and the autograder only print,
  and the debug level is not part of the packet manager. The flags are what the setters
  look up in \<open>m_EnvData\<close> later.
\<close>

definition new_SettingsManager ::
    "(floating \<Rightarrow> floating) \<Rightarrow> bool \<Rightarrow> (string \<Rightarrow> byte list option) \<Rightarrow> PacketManager \<Rightarrow> PacketManager" where
  "new_SettingsManager flt mem getenv pm =
     (let m_EnvData = loadEnvData flt mem getenv (\<lambda>_. new_entry);
          pm = loadEnvData_SeedRand m_EnvData pm;
          pm = loadEnvData_ErrRate m_EnvData pm;
          pm = loadEnvData_ErrDrop m_EnvData pm;
          pm = loadEnvData_ErrFlip m_EnvData pm
      in pm\<lparr>env_ErrRate := isSet (m_EnvData EDK_OVERRIDE_ERR_RATE),
            env_ErrDrop := isSet (m_EnvData EDK_OVERRIDE_ERR_DROP),
            env_ErrFlip := isSet (m_EnvData EDK_OVERRIDE_ERR_FLIP),
            env_SeedRand := isSet (m_EnvData EDK_OVERRIDE_SEEDRAND)\<rparr>)"

definition library_start :: "(floating \<Rightarrow> floating) \<Rightarrow> bool \<Rightarrow> (string \<Rightarrow> byte list option) \<Rightarrow> int \<Rightarrow> PacketManager" where
  "library_start flt mem getenv now = new_SettingsManager flt mem getenv (new_PacketManager now)"

section \<open>What the environment decides\<close>

text \<open>
  What a variable asks for: the error rate it sets, and the list of message numbers it
  names, where the empty list stands for random events.
\<close>

definition env_rate :: "(floating \<Rightarrow> floating) \<Rightarrow> (string \<Rightarrow> byte list option) \<Rightarrow> floating option" where
  "env_rate flt getenv = Option.bind (getenv ''CPE464_OVERRIDE_ERR_RATE'') (strtof flt)"

definition env_list :: "(string \<Rightarrow> byte list option) \<Rightarrow> string \<Rightarrow> u32 list option" where
  "env_list getenv key =
     map_option (\<lambda>s. parserLong2Uint32 (token_values (comma_tokens s []))) (getenv key)"

text \<open>The keys are distinct, so every variable only sets its own entry.\<close>

lemma fold_other_keys:
  "key \<notin> fst ` set l \<Longrightarrow>
     fold (\<lambda>(k, s, ty) m. case g s of None \<Rightarrow> m | Some v \<Rightarrow> m(k := f ty v (m k))) l m key = m key"
  by (induction l arbitrary: m) (auto split: option.split)

lemma fold_own_key:
  assumes "distinct (map fst l)" "(key, s, ty) \<in> set l"
  shows "fold (\<lambda>(k, s, ty) m. case g s of None \<Rightarrow> m | Some v \<Rightarrow> m(k := f ty v (m k))) l m key =
    (case g s of None \<Rightarrow> m key | Some v \<Rightarrow> f ty v (m key))"
  using assms
proof (induction l arbitrary: m)
  case (Cons e l)
  show ?case
  proof (cases "e = (key, s, ty)")
    case True
    then have "key \<notin> fst ` set l" using Cons.prems(1) by simp
    then show ?thesis using True by (simp add: fold_other_keys split: option.split)
  next
    case False
    obtain k s' ty' where e: "e = (k, s', ty')" by (cases e)
    have "(key, s, ty) \<in> set l" using Cons.prems(2) False by auto
    moreover from this have "k \<noteq> key" using Cons.prems(1) e by force
    ultimately show ?thesis using Cons.IH Cons.prems(1) e by (simp split: option.split)
  qed
qed simp

lemma loadEnvData_entry:
  "(key, s, ty) \<in> set g_EnvKeys \<Longrightarrow> loadEnvData flt mem getenv m key =
     (case getenv s of None \<Rightarrow> m key | Some v \<Rightarrow> load_entry flt mem ty v (m key))"
  unfolding loadEnvData_def
  by (rule fold_own_key [where f = "load_entry flt mem"]) (simp_all add: g_EnvKeys_def)

lemma loadEnvData_entries:
  "loadEnvData flt mem getenv m EDK_OVERRIDE_SEEDRAND = (case getenv ''CPE464_OVERRIDE_SEEDRAND'' of
     None \<Rightarrow> m EDK_OVERRIDE_SEEDRAND | Some s \<Rightarrow> load_entry flt mem EDT_LONG s (m EDK_OVERRIDE_SEEDRAND))"
  "loadEnvData flt mem getenv m EDK_OVERRIDE_ERR_RATE = (case getenv ''CPE464_OVERRIDE_ERR_RATE'' of
     None \<Rightarrow> m EDK_OVERRIDE_ERR_RATE | Some s \<Rightarrow> load_entry flt mem EDT_FLOAT s (m EDK_OVERRIDE_ERR_RATE))"
  "loadEnvData flt mem getenv m EDK_OVERRIDE_ERR_DROP = (case getenv ''CPE464_OVERRIDE_ERR_DROP'' of
     None \<Rightarrow> m EDK_OVERRIDE_ERR_DROP | Some s \<Rightarrow> load_entry flt mem EDT_LIST_LONG s (m EDK_OVERRIDE_ERR_DROP))"
  "loadEnvData flt mem getenv m EDK_OVERRIDE_ERR_FLIP = (case getenv ''CPE464_OVERRIDE_ERR_FLIP'' of
     None \<Rightarrow> m EDK_OVERRIDE_ERR_FLIP | Some s \<Rightarrow> load_entry flt mem EDT_LIST_LONG s (m EDK_OVERRIDE_ERR_FLIP))"
  by (rule loadEnvData_entry, simp add: g_EnvKeys_def)+

lemma not_isSet_new_entry [simp]: "\<not> isSet new_entry"
  by (simp add: new_entry_def)

lemma list_entry [simp]:
  "isSet (load_entry flt mem EDT_LIST_LONG s new_entry)"
  "lLong (load_entry flt mem EDT_LIST_LONG s new_entry) = token_values (comma_tokens s [])"
  by (simp_all add: load_entry_def parser2ListLong_def new_entry_def Let_def)

lemma rate_entry [simp]:
  "isSet (load_entry flt mem EDT_FLOAT s new_entry) \<longleftrightarrow> strtof flt s \<noteq> None"
  "strtof flt s = Some v \<Longrightarrow> vFloat (load_entry flt mem EDT_FLOAT s new_entry) = v"
  by (auto simp: load_entry_def new_entry_def Let_def split: option.splits)

text \<open>What the library start leaves in the packet manager.\<close>

definition env_chance :: "IMsgEvent \<Rightarrow> u32 list option \<Rightarrow> IMsgEvent list" where
  "env_chance e o' = (if o' = Some [] then [e] else [])"

lemma library_start_fields:
  fixes flt mem getenv now
  defines "pm \<equiv> library_start flt mem getenv now"
  shows "m_ErrorRate pm = (case env_rate flt getenv of None \<Rightarrow> 0 | Some v \<Rightarrow> v)"
    and "env_ErrRate pm \<longleftrightarrow> env_rate flt getenv \<noteq> None"
    and "env_ErrDrop pm \<longleftrightarrow> env_list getenv ''CPE464_OVERRIDE_ERR_DROP'' \<noteq> None"
    and "env_ErrFlip pm \<longleftrightarrow> env_list getenv ''CPE464_OVERRIDE_ERR_FLIP'' \<noteq> None"
    and "m_ErrorCase_Constant pm = (case env_list getenv ''CPE464_OVERRIDE_ERR_DROP'' of
           None \<Rightarrow> [] | Some l \<Rightarrow> if l = [] then [] else [ErrorDrop False l])"
    and "m_ErrorCase_Chance pm = env_chance (ErrorDrop True []) (env_list getenv ''CPE464_OVERRIDE_ERR_DROP'')
           @ env_chance ErrorFlipBits (env_list getenv ''CPE464_OVERRIDE_ERR_FLIP'')"
proof -
  let ?m = "loadEnvData flt mem getenv (\<lambda>_. new_entry)"
  have e: "isSet (?m EDK_OVERRIDE_ERR_RATE) \<longleftrightarrow> env_rate flt getenv \<noteq> None"
      "\<And>v. env_rate flt getenv = Some v \<Longrightarrow> vFloat (?m EDK_OVERRIDE_ERR_RATE) = v"
    by (auto simp: loadEnvData_entries env_rate_def split: option.splits)
  have d: "isSet (?m EDK_OVERRIDE_ERR_DROP) \<longleftrightarrow> env_list getenv ''CPE464_OVERRIDE_ERR_DROP'' \<noteq> None"
      "\<And>l. env_list getenv ''CPE464_OVERRIDE_ERR_DROP'' = Some l \<Longrightarrow>
         parserLong2Uint32 (lLong (?m EDK_OVERRIDE_ERR_DROP)) = l"
    by (auto simp: loadEnvData_entries env_list_def split: option.splits)
  have f: "isSet (?m EDK_OVERRIDE_ERR_FLIP) \<longleftrightarrow> env_list getenv ''CPE464_OVERRIDE_ERR_FLIP'' \<noteq> None"
      "\<And>l. env_list getenv ''CPE464_OVERRIDE_ERR_FLIP'' = Some l \<Longrightarrow>
         parserLong2Uint32 (lLong (?m EDK_OVERRIDE_ERR_FLIP)) = l"
    by (auto simp: loadEnvData_entries env_list_def split: option.splits)
  note defs = pm_def library_start_def new_SettingsManager_def Let_def loadEnvData_SeedRand_def
    loadEnvData_ErrRate_def loadEnvData_ErrDrop_def loadEnvData_ErrFlip_def new_PacketManager_def
    setRandSeed_def setErrorRate_def addMsgEvent_Random_def addMsgEvent_Standard_def env_chance_def
  show "m_ErrorRate pm = (case env_rate flt getenv of None \<Rightarrow> 0 | Some v \<Rightarrow> v)"
    by (cases "env_rate flt getenv") (simp_all add: defs e)
  show "env_ErrRate pm \<longleftrightarrow> env_rate flt getenv \<noteq> None"
    and "env_ErrDrop pm \<longleftrightarrow> env_list getenv ''CPE464_OVERRIDE_ERR_DROP'' \<noteq> None"
    and "env_ErrFlip pm \<longleftrightarrow> env_list getenv ''CPE464_OVERRIDE_ERR_FLIP'' \<noteq> None"
    by (simp_all add: defs e d f)
  show "m_ErrorCase_Constant pm = (case env_list getenv ''CPE464_OVERRIDE_ERR_DROP'' of
           None \<Rightarrow> [] | Some l \<Rightarrow> if l = [] then [] else [ErrorDrop False l])"
    by (cases "env_list getenv ''CPE464_OVERRIDE_ERR_DROP''") (simp_all add: defs d)
  show "m_ErrorCase_Chance pm = env_chance (ErrorDrop True []) (env_list getenv ''CPE464_OVERRIDE_ERR_DROP'')
           @ env_chance ErrorFlipBits (env_list getenv ''CPE464_OVERRIDE_ERR_FLIP'')"
    by (cases "env_list getenv ''CPE464_OVERRIDE_ERR_DROP''";
        cases "env_list getenv ''CPE464_OVERRIDE_ERR_FLIP''") (simp_all add: defs d f)
qed

section \<open>Properties\<close>

text \<open>
  C36. The environment has precedence over the program: after the library start and a call
  of \<open>sendErr_init\<close>, the error rate is the environment's if it sets one and else the
  program's; random drops are on exactly when the environment asks for them, or says
  nothing about drops and the program asks for them, and the same holds for bit flips;
  and message numbers to drop come from the environment only.
\<close>

theorem environment_has_precedence:
  "let pm = sendErr_init flt now' rate drop_flag flip_flag rnd (library_start flt mem getenv now);
       drops = env_list getenv ''CPE464_OVERRIDE_ERR_DROP'';
       flips = env_list getenv ''CPE464_OVERRIDE_ERR_FLIP''
   in m_ErrorRate pm = (case env_rate flt getenv of None \<Rightarrow> flt rate | Some v \<Rightarrow> v)
    \<and> (ErrorDrop True [] \<in> set (m_ErrorCase_Chance pm) \<longleftrightarrow> (if drops = None then drop_flag else drops = Some []))
    \<and> (ErrorFlipBits \<in> set (m_ErrorCase_Chance pm) \<longleftrightarrow> (if flips = None then flip_flag else flips = Some []))
    \<and> (\<forall>a l. ErrorDrop a l \<in> set (m_ErrorCase_Constant pm) \<longleftrightarrow> \<not> a \<and> l \<noteq> [] \<and> drops = Some l)"
proof -
  let ?l = "library_start flt mem getenv now"
  let ?d = "env_list getenv ''CPE464_OVERRIDE_ERR_DROP''" and ?f = "env_list getenv ''CPE464_OVERRIDE_ERR_FLIP''"
  let ?pm = "sendErr_init flt now' rate drop_flag flip_flag rnd ?l"
  note b = library_start_fields [where flt = flt and mem = mem and getenv = getenv and now = now]
  note defs = sendErr_init_def Let_def setUserMode_ErrRate_def setUserMode_ErrDrop_def setUserMode_ErrFlip_def
    setUserMode_SeedRand_def addMsgEvent_Standard_def addMsgEvent_Random_def
  have r: "m_ErrorRate ?pm = (if env_ErrRate ?l then m_ErrorRate ?l else flt rate)"
    by (simp add: defs)
  have c: "m_ErrorCase_Constant ?pm = m_ErrorCase_Constant ?l @ [InfoSeqNo [] Map.empty]"
    by (simp add: defs)
  have h: "m_ErrorCase_Chance ?pm = m_ErrorCase_Chance ?l
      @ (if \<not> env_ErrDrop ?l \<and> drop_flag then [ErrorDrop True []] else [])
      @ (if \<not> env_ErrFlip ?l \<and> flip_flag then [ErrorFlipBits] else [])"
    by (simp add: defs)
  have "m_ErrorRate ?pm = (case env_rate flt getenv of None \<Rightarrow> flt rate | Some v \<Rightarrow> v)"
    using r b(1,2) by (cases "env_rate flt getenv") simp_all
  moreover have "ErrorDrop True [] \<in> set (m_ErrorCase_Chance ?pm) \<longleftrightarrow>
      (if ?d = None then drop_flag else ?d = Some [])"
    using h b(3,4,6) by (auto simp: env_chance_def)
  moreover have "ErrorFlipBits \<in> set (m_ErrorCase_Chance ?pm) \<longleftrightarrow>
      (if ?f = None then flip_flag else ?f = Some [])"
    using h b(3,4,6) by (auto simp: env_chance_def)
  moreover have "\<forall>a l. ErrorDrop a l \<in> set (m_ErrorCase_Constant ?pm) \<longleftrightarrow> \<not> a \<and> l \<noteq> [] \<and> ?d = Some l"
    using c b(5) by (auto split: option.splits if_splits)
  ultimately show ?thesis unfolding Let_def by blast
qed

text \<open>
  C37. The channel both programs run on: unless the environment asks for bit flips or for
  particular messages to be dropped, the packet manager they set up at their start only
  logs and drops whole datagrams, and setting it up again, as the server's child does, keeps
  it so.
\<close>

theorem programs_run_on_drop_channel:
  assumes "env_list getenv ''CPE464_OVERRIDE_ERR_FLIP'' \<noteq> Some []"
    and "\<And>l. env_list getenv ''CPE464_OVERRIDE_ERR_DROP'' = Some l \<Longrightarrow> l = []"
  shows "drop_channel (sendErr_init flt n1 rate True False rnd1 (library_start flt mem getenv now)) \<and>
    drop_channel (sendErr_init flt n2 rate True False rnd2
      (sendErr_init flt n1 rate True False rnd1 (library_start flt mem getenv now)))"
proof -
  note b = library_start_fields(5,6) [where flt = flt and mem = mem and getenv = getenv and now = now]
  have "drop_channel (library_start flt mem getenv now)"
    using assms b by (auto simp: drop_channel_def only_drops_def env_chance_def split: option.splits if_splits)
  then show ?thesis by (simp add: sendErr_init_drop_channel)
qed

theorem programs_run_on_drop_channel_witness:
  "drop_channel (sendErr_init (\<lambda>r. r) 5 (Finite (1 / 10)) True False False
     (library_start (\<lambda>r. r) True (\<lambda>k. if k = ''CPE464_OVERRIDE_ERR_DROP'' then Some [45, 49] else None) 0))"
  by (rule programs_run_on_drop_channel [THEN conjunct1])
    (auto simp: env_list_def parserLong2Uint32_def strtol_def isspace_def isdigit_def digits_value_def
      split: if_splits)

end
