(* ===== verification/TcpDemo.thy ===== *)
theory TcpDemo
  imports Networks Clib
begin

text \<open>
  The checked system calls of \<^verbatim>\<open>safeUtil.c\<close>, the stream variants of the
  packet manager's send and receive, and the two demo programs over TCP,
  \<^verbatim>\<open>myClient.c\<close> and \<^verbatim>\<open>myServer.c\<close>. \<open>stdin\<close> is the rest of the standard
  input; \<open>streamed\<close> lists what was handed to \<open>send(2)\<close>. \<open>perror\<close> and
  \<open>printf\<close> are left out.
\<close>

record tcp_proc = world +
  stdin :: "byte list"
  streamed :: "(int \<times> byte list) list"

section \<open>Sending and receiving on a stream\<close>

text \<open>
  \<open>PacketManager::send_Err\<close>. \<open>send(2)\<close> may accept only a part of the bytes; its
  answer is the result.
\<close>

definition send_stream :: "int \<Rightarrow> byte list \<Rightarrow> tcp_proc \<Rightarrow> (tcp_proc, int) res" where
  "send_stream s bytes w =
     bnd (syscall (Sys_send s) w) (\<lambda>lenSent w.
       Ok lenSent (if lenSent > 0 then w\<lparr>streamed := streamed w @ [(s, take (nat lenSent) bytes)]\<rparr> else w))"

definition sendErr :: "int \<Rightarrow> byte list \<Rightarrow> int \<Rightarrow> tcp_proc \<Rightarrow> (tcp_proc, int) res" where
  "sendErr s buf len w =
     (if len = 0 then Stop (Exited 1) w
      else bnd (lift (check (0 \<le> len \<and> len \<le> int (length buf) \<and> 7 \<le> length buf) OutOfBounds) w) (\<lambda>_ w.
        let pm = (pmgr w)\<lparr>m_MsgNo := m_MsgNo (pmgr w) + 1\<rparr>;
            bufTmp = take (nat len) buf
        in bnd (lift (processEvents (to_float w) (drand48 w (rand_seed pm)) pm bufTmp (m_MsgNo pm)) w)
          (\<lambda>(nResult, pBuf, pm) w.
             let w = w\<lparr>pmgr := pm\<rparr> in
             if nResult < 0 then Ok nResult w
             else if nResult = 0 \<or> nResult = 1
             then bnd (send_stream s pBuf w) (\<lambda>lenSent w. Ok (if lenSent = len then len else lenSent) w)
             else Ok len w)))"

text \<open>\<open>PacketManager::recv_Mod\<close>: a \<open>recv(2)\<close>.\<close>

definition recv_Mod :: "byte list \<Rightarrow> nat \<Rightarrow> tcp_proc \<Rightarrow> (tcp_proc, int \<times> byte list) res" where
  "recv_Mod buf len w = bnd (recvfrom buf len w) (\<lambda>(n, buf, _) w. Ok (n, buf) w)"

section \<open>safeUtil.c\<close>

definition safeSend :: "int \<Rightarrow> byte list \<Rightarrow> int \<Rightarrow> tcp_proc \<Rightarrow> (tcp_proc, int) res" where
  "safeSend socketNum buf len w =
     bnd (sendErr socketNum buf len w) (\<lambda>returnValue w.
       if returnValue < 0 then Stop (Exited (- 1)) w else Ok returnValue w)"

definition safeRecv :: "byte list \<Rightarrow> nat \<Rightarrow> tcp_proc \<Rightarrow> (tcp_proc, int \<times> byte list) res" where
  "safeRecv buf len w =
     bnd (recv_Mod buf len w) (\<lambda>(returnValue, buf) w.
       if returnValue < 0 then Stop (Exited (- 1)) w else Ok (returnValue, buf) w)"

definition safeSendto :: "int \<Rightarrow> byte list \<Rightarrow> int \<Rightarrow> sockaddr \<Rightarrow> tcp_proc \<Rightarrow> (tcp_proc, int) res" where
  "safeSendto socketNum buf len srcAddr w =
     bnd (sendtoErr socketNum buf len srcAddr w) (\<lambda>returnValue w.
       if returnValue < 0 then Stop (Exited (- 1)) w else Ok returnValue w)"

definition safeRecvfrom :: "byte list \<Rightarrow> nat \<Rightarrow> tcp_proc \<Rightarrow> (tcp_proc, int \<times> byte list \<times> sockaddr option) res" where
  "safeRecvfrom buf len w =
     bnd (recvfrom buf len w) (\<lambda>(returnValue, buf, srcAddr) w.
       if returnValue < 0 then Stop (Exited (- 1)) w else Ok (returnValue, buf, srcAddr) w)"

text \<open>\<open>calloc\<close>: a zeroed block, or the process ends.\<close>

definition sCalloc :: "nat \<Rightarrow> tcp_proc \<Rightarrow> (tcp_proc, byte list) res" where
  "sCalloc n w =
     bnd (malloc n w) (\<lambda>m w.
       case m of None \<Rightarrow> Stop (Exited (- 1)) w | Some _ \<Rightarrow> Ok (replicate n 0) w)"

definition srealloc :: "byte list \<Rightarrow> nat \<Rightarrow> tcp_proc \<Rightarrow> (tcp_proc, byte list) res" where
  "srealloc ptr n w =
     bnd (malloc n w) (\<lambda>m w.
       case m of None \<Rightarrow> Stop (Exited (- 1)) w
       | Some block \<Rightarrow> Ok (memcpy_at block 0 (take n ptr)) w)"

section \<open>Reading a line\<close>

text \<open>
  The loop of \<open>readFromStdin\<close>. At the end of the input \<open>getchar\<close> returns \<open>EOF\<close>,
  which is stored as the byte 255.
\<close>

fun read_chars :: "nat \<Rightarrow> byte list \<Rightarrow> byte list \<times> byte list" where
  "read_chars 0 input = ([], input)"
| "read_chars (Suc n) [] = (case read_chars n [] of (cs, r) \<Rightarrow> (255 # cs, r))"
| "read_chars (Suc n) (aChar # input) =
     (if aChar = 10 then ([], input) else (case read_chars n input of (cs, r) \<Rightarrow> (aChar # cs, r)))"

definition readFromStdin :: "nat \<Rightarrow> byte list \<Rightarrow> byte list \<Rightarrow> int \<times> byte list \<times> byte list" where
  "readFromStdin MAXBUF buffer input =
     (case read_chars (MAXBUF - 1) input of
        (cs, input) \<Rightarrow> (int (length cs) + 1, memcpy_at buffer 0 (cs @ [0]), input))"

section \<open>The client\<close>

definition MAXBUF :: nat where "MAXBUF = 1024"

definition myClient_readFromStdin :: "byte list \<Rightarrow> tcp_proc \<Rightarrow> (tcp_proc, int \<times> byte list) res" where
  "myClient_readFromStdin buffer w =
     (case readFromStdin MAXBUF buffer (stdin w) of
        (inputLen, buffer, input) \<Rightarrow> Ok (inputLen, buffer) (w\<lparr>stdin := input\<rparr>))"

definition sendToServer :: "int \<Rightarrow> tcp_proc \<Rightarrow> (tcp_proc, unit) res" where
  "sendToServer socketNum w =
     bnd (myClient_readFromStdin (local_array MAXBUF w) w) (\<lambda>(sendLen, sendBuf) w.
     bnd (safeSend socketNum sendBuf sendLen w) (\<lambda>n w.
       if n < 0 then Stop (Exited (- 1)) w else Ok () w))"

definition myClient_checkArgs :: "byte list list \<Rightarrow> tcp_proc \<Rightarrow> (tcp_proc, unit) res" where
  "myClient_checkArgs argv w = (if length argv \<noteq> 3 then Stop (Exited 1) w else Ok () w)"

definition myClient_main :: "byte list list \<Rightarrow> tcp_proc \<Rightarrow> (tcp_proc, int) res" where
  "myClient_main argv w =
     bnd (myClient_checkArgs argv w) (\<lambda>_ w.
     bnd (tcpClientSetup (argv ! 1) (atoi (argv ! 2)) w) (\<lambda>socketNum w.
     bnd (sendToServer socketNum w) (\<lambda>_ w.
     bnd (close_socket socketNum w) (\<lambda>_ w. Ok 0 w))))"

section \<open>The server\<close>

definition recvFromClient :: "int \<Rightarrow> tcp_proc \<Rightarrow> (tcp_proc, unit) res" where
  "recvFromClient clientSocket w =
     bnd (safeRecv (local_array MAXBUF w) MAXBUF w) (\<lambda>(messageLen, dataBuffer) w.
       if messageLen < 0 then Stop (Exited (- 1)) w else Ok () w)"

definition myServer_checkArgs :: "byte list list \<Rightarrow> tcp_proc \<Rightarrow> (tcp_proc, int) res" where
  "myServer_checkArgs argv w =
     (if length argv > 2 then Stop (Exited (- 1)) w
      else Ok (if length argv = 2 then atoi (argv ! 1) else 0) w)"

definition myServer_main :: "byte list list \<Rightarrow> tcp_proc \<Rightarrow> (tcp_proc, int) res" where
  "myServer_main argv w =
     bnd (myServer_checkArgs argv w) (\<lambda>portNumber w.
     bnd (tcpServerSetup portNumber w) (\<lambda>mainServerSocket w.
     bnd (tcpAccept mainServerSocket w) (\<lambda>clientSocket w.
     bnd (recvFromClient clientSocket w) (\<lambda>_ w.
     bnd (close_socket clientSocket w) (\<lambda>_ w.
     bnd (close_socket mainServerSocket w) (\<lambda>_ w.
       Ok 0 w))))))"

section \<open>What a line becomes\<close>

lemma read_chars_spec:
  "fst (read_chars n input) =
     (if 10 \<in> set input then take n (takeWhile (\<lambda>c. c \<noteq> 10) input)
      else take n input @ replicate (n - length input) 255)"
  by (induction n input rule: read_chars.induct) (auto split: prod.split)

lemma length_read_chars: "length (fst (read_chars n input)) \<le> n"
  by (induction n input rule: read_chars.induct) (auto split: prod.splits)

lemma read_chars_line:
  "10 \<notin> set line \<Longrightarrow> length line < n \<Longrightarrow> read_chars n (line @ 10 # rest) = (line, rest)"
  by (induction n line rule: read_chars.induct) auto

text \<open>A packet manager without events passes everything on.\<close>

definition no_events :: "tcp_proc \<Rightarrow> bool" where
  "no_events w \<longleftrightarrow> m_ErrorCase_Constant (pmgr w) = [] \<and> m_ErrorCase_Chance (pmgr w) = []"

lemma sendErr_no_events:
  assumes "no_events w" "0 < len" "len \<le> int (length buf)" "7 \<le> length buf" "sys_q w = len # q"
  shows "\<exists>pm. sendErr s buf len w = Ok len (w\<lparr>pmgr := pm, sys_q := q, sys_log := sys_log w @ [Sys_send s],
    streamed := streamed w @ [(s, take (nat len) buf)]\<rparr>)"
  using assms
  by (simp add: sendErr_def send_stream_def syscall_def check_def Let_def no_events_def processEvents_def)
    blast

section \<open>Properties\<close>

text \<open>
  Reading a line is bounded: whatever the input, between 1 and \<open>MAXBUF\<close> bytes
  of the buffer are used, the last of them is the NUL, and those before it are the
  line, cut off at the buffer's end; without a newline the missing bytes are filled
  with the end-of-file value 255 up to the end of the buffer.
\<close>

theorem readFromStdin_bounded:
  assumes "0 < n" "n \<le> length buffer"
  shows "\<exists>inputLen b rest. readFromStdin n buffer input = (inputLen, b, rest)
    \<and> 1 \<le> inputLen \<and> inputLen \<le> int n \<and> length b = length buffer \<and> b ! nat (inputLen - 1) = 0
    \<and> take (nat (inputLen - 1)) b =
        (if 10 \<in> set input then take (n - 1) (takeWhile (\<lambda>c. c \<noteq> 10) input)
         else take (n - 1) input @ replicate (n - 1 - length input) 255)"
proof -
  obtain cs r where r: "read_chars (n - 1) input = (cs, r)" by (cases "read_chars (n - 1) input")
  have l: "length cs \<le> n - 1" using length_read_chars [of "n - 1" input] r by simp
  have c: "cs = (if 10 \<in> set input then take (n - 1) (takeWhile (\<lambda>c. c \<noteq> 10) input)
      else take (n - 1) input @ replicate (n - 1 - length input) 255)"
    using read_chars_spec [of "n - 1" input] r by simp
  have b: "length cs + 1 \<le> n" using l assms(1) by linarith
  show ?thesis unfolding c [symmetric]
    using r b assms(2) by (simp add: readFromStdin_def memcpy_at_def nth_append)
qed

theorem readFromStdin_bounded_witness:
  "readFromStdin 4 [1, 1, 1, 1] [65, 66] = (4, [65, 66, 255, 0], []) \<and>
   (\<exists>inputLen b rest. readFromStdin 4 [1, 1, 1, 1] [65, 66] = (inputLen, b, rest) \<and> inputLen \<le> 4)"
proof
  show "readFromStdin 4 [1, 1, 1, 1] [65, 66] = (4, [65, 66, 255, 0], [])" by code_simp
  show "\<exists>inputLen b rest. readFromStdin 4 [1, 1, 1, 1] [65, 66] = (inputLen, b, rest) \<and> inputLen \<le> 4"
    using readFromStdin_bounded [of 4 "[1, 1, 1, 1]" "[65, 66]"] by auto
qed

text \<open>
  C38. The TCP client sends the line it read: with a host that resolves, a socket
  \<open>s\<close> that connects and a \<open>send\<close> that accepts everything, it returns 0 after sending
  exactly the line and a NUL on \<open>s\<close> and closing \<open>s\<close>.
\<close>

theorem client_sends_its_line:
  assumes "no_events w" "length argv = 3" "addr_info w (argv ! 1) = Some a"
    and "stdin w = line @ 10 # rest" "10 \<notin> set line" "length line < 1023"
    and "sys_q w = s # c # (int (length line) + 1) # q" "0 \<le> s" "0 \<le> c"
  shows "\<exists>w'. myClient_main argv w = Ok 0 w' \<and> streamed w' = streamed w @ [(s, line @ [0])]
    \<and> closed w' = closed w @ [s] \<and> stdin w' = rest"
proof -
  let ?a = "\<lparr>sin6_addr = a, sin6_port = htons (word_of_int (atoi (argv ! 2)))\<rparr>"
  let ?w = "w\<lparr>sys_q := (int (length line) + 1) # q, sys_log := sys_log w @ [Sys_socket True, Sys_connect s ?a]\<rparr>"
  have t: "tcpClientSetup (argv ! 1) (atoi (argv ! 2)) w = Ok s ?w"
    using assms(3,7-9)
    by (simp add: tcpClientSetup_def must_def syscall_def Let_def gethostbyname6_def getIPAddress6_def)
  let ?b = "memcpy_at (local_array 1024 ?w) 0 (line @ [0])"
  have l: "length (local_array 1024 ?w) = 1024" by (simp add: local_array_def)
  have r: "myClient_readFromStdin (local_array MAXBUF ?w) ?w =
      Ok (int (length line) + 1, ?b) (?w\<lparr>stdin := rest\<rparr>)"
    using read_chars_line [OF assms(5), of 1023 rest] assms(4,6)
    by (simp add: myClient_readFromStdin_def readFromStdin_def MAXBUF_def)
  have b: "length ?b = 1024" "take (nat (int (length line) + 1)) ?b = line @ [0]"
    using assms(6) l by (simp_all add: memcpy_at_def nat_add_distrib)
  have "no_events (?w\<lparr>stdin := rest\<rparr>)" using assms(1) by (simp add: no_events_def)
  then obtain pm where pm: "sendErr s ?b (int (length line) + 1) (?w\<lparr>stdin := rest\<rparr>) =
      Ok (int (length line) + 1) (?w\<lparr>stdin := rest, pmgr := pm, sys_q := q,
        sys_log := sys_log ?w @ [Sys_send s], streamed := streamed w @ [(s, line @ [0])]\<rparr>)"
    using sendErr_no_events [of "?w\<lparr>stdin := rest\<rparr>" "int (length line) + 1" ?b q s] b assms(6) by auto
  show ?thesis using assms(2) t r pm
    by (simp add: myClient_main_def myClient_checkArgs_def sendToServer_def safeSend_def close_socket_def)
qed

text \<open>A concrete process for the instance below.\<close>

definition idle_tcp :: "byte list \<Rightarrow> int list \<Rightarrow> tcp_proc" where
  "idle_tcp input sq =
     \<lparr>pset = empty_pollset,
      pmgr = \<lparr>m_ErrorRate = 0, m_MsgNo = 0, m_ErrorCase_Constant = [], m_ErrorCase_Chance = [],
              rand_seed = 0, rand_pos = 0, nextSeed = 1, env_ErrRate = False, env_ErrDrop = False,
              env_ErrFlip = False, env_SeedRand = False\<rparr>,
      poll_q = [], recv_q = [], send_ok = (\<lambda>_. True), send_no = 0, sent = [], closed = [],
      sys_q = sq, sys_log = [], addr_info = (\<lambda>_. Some 1), fs = Map.empty,
      writable = (\<lambda>_. True), heap_fn = (\<lambda>_. Some (\<lambda>_. 0)), heap_no = 0,
      drand48 = (\<lambda>_ _. 1 / 2), to_float = (\<lambda>r. r), to_double = (\<lambda>r. r), time_now = 0,
      stack_junk = (\<lambda>_. 0), static_next = 0, stdin = input, streamed = []\<rparr>"

theorem client_sends_its_line_witness:
  "\<exists>w'. myClient_main [[109], [104], [57]] (idle_tcp [72, 105, 10] [5, 0, 3]) = Ok 0 w'
     \<and> streamed w' = [(5, [72, 105, 0])]"
  using client_sends_its_line [of "idle_tcp [72, 105, 10] [5, 0, 3]" "[[109], [104], [57]]" 1 "[72, 105]" "[]" 5 0 "[]"]
  by (auto simp: no_events_def idle_tcp_def)

end
