(* ===== verification/Hooks.thy ===== *)
theory Hooks
  imports TcpDemo Settings
begin

text \<open>
  The hooks of \<^verbatim>\<open>libcpe464/network-hooks.c\<close> that replace \<open>socket\<close>,
  \<open>bind\<close>, \<open>select\<close> and the send and receive calls in a program that includes the library's header before it sets up its
  sockets. (\<^verbatim>\<open>networks.c\<close> does not include it, so theory \<open>Networks\<close>
  calls the system directly.) The state is the file's two statics; \<open>env_port\<close> is
  the environment variable \<open>CPE464_OVERRIDE_PORT\<close>.
\<close>

record hooks = world +
  socketType :: int
  s_hasOverridden :: bool
  env_port :: "byte list option"

definition SOCK_STREAM :: int where "SOCK_STREAM = 1"
definition SOCK_DGRAM :: int where "SOCK_DGRAM = 2"

definition socketMod :: "int \<Rightarrow> hooks \<Rightarrow> (hooks, int) res" where
  "socketMod type w = syscall (Sys_socket (type = SOCK_STREAM)) (w\<lparr>socketType := type\<rparr>)"

text \<open>
  \<open>bindMod\<close> writes the overriding port into the caller's address, also when the
  call fails later. The two branches on \<open>socketType\<close> store at the same place,
  because \<open>sin_port\<close> and \<open>sin6_port\<close> have the same offset. The value
  that \<open>getsockname\<close> stores is only printed.
\<close>

definition override_port :: "sockaddr \<Rightarrow> hooks \<Rightarrow> sockaddr \<times> hooks" where
  "override_port addr w =
     (case env_port w of
        None \<Rightarrow> (addr, w)
      | Some s \<Rightarrow>
          if s_hasOverridden w then (addr, w)
          else (addr\<lparr>sin6_port := htons (word_of_int (atoi s))\<rparr>, w\<lparr>s_hasOverridden := True\<rparr>))"

definition bindMod :: "int \<Rightarrow> sockaddr \<Rightarrow> hooks \<Rightarrow> (hooks, int \<times> sockaddr) res" where
  "bindMod sockfd addr w =
     (case override_port addr w of
        (addr, w) \<Rightarrow>
          bnd (syscall (Sys_bind sockfd (sin6_addr addr) (sin6_port addr)) w) (\<lambda>nResult w.
          bnd (syscall (Sys_getsockname sockfd) w) (\<lambda>_ w. Ok (nResult, addr) w)))"

text \<open>
  The send and receive hooks call the packet manager; these are the functions behind the names
  \<open>send\<close>, \<open>recv\<close>, \<open>sendto\<close> and \<open>recvfrom\<close> of the programs.
\<close>

definition hook_sendErr :: "int \<Rightarrow> byte list \<Rightarrow> int \<Rightarrow> tcp_proc \<Rightarrow> (tcp_proc, int) res" where
  "hook_sendErr s msg len w = sendErr s msg len w"

definition hook_recvErr :: "byte list \<Rightarrow> nat \<Rightarrow> tcp_proc \<Rightarrow> (tcp_proc, int \<times> byte list) res" where
  "hook_recvErr buf len w = recv_Mod buf len w"

definition hook_sendtoErr :: "int \<Rightarrow> byte list \<Rightarrow> int \<Rightarrow> sockaddr \<Rightarrow> 'z world_scheme \<Rightarrow> ('z world_scheme, int) res" where
  "hook_sendtoErr s msg len to w = sendtoErr s msg len to w"

definition hook_recvfromErr :: "byte list \<Rightarrow> nat \<Rightarrow> 'z world_scheme \<Rightarrow>
    ('z world_scheme, int \<times> byte list \<times> sockaddr option) res" where
  "hook_recvfromErr buf len w = recvfrom buf len w"

section \<open>select\<close>

text \<open>
  \<open>selectMod\<close> calls \<open>select(2)\<close>, which may overwrite the timeout, and reports unusual
  timeouts and expired ones. \<open>select\<close> is a parameter: from the timeout to the result
  and the timeout afterwards. The result lists the messages handed to \<open>dbg_print\<close>, all at
  level 1, with the arguments that vary.
\<close>

record timeval =
  tv_sec :: int
  tv_usec :: int

datatype select_message =
    Null_time
  | Non_standard int int
  | Should_be
  | Child_process
  | Timed_out
  | Timeout_was int int

definition select_warnings :: "timeval option \<Rightarrow> select_message list" where
  "select_warnings timeout =
     (case timeout of
        None \<Rightarrow> [Null_time]
      | Some t \<Rightarrow>
          if (tv_sec t \<noteq> 0 \<and> tv_sec t \<noteq> 1 \<and> tv_sec t \<noteq> 10) \<or> tv_usec t \<noteq> 0
          then [Non_standard (tv_sec t) (tv_usec t), Should_be] else [])"

definition selectMod :: "(timeval option \<Rightarrow> int \<times> timeval option) \<Rightarrow> bool \<Rightarrow> timeval option \<Rightarrow>
    int \<times> timeval option \<times> select_message list" where
  "selectMod select childProcess timeout =
     (let holdTimeValue = timeout;
          warnings = select_warnings timeout;
          (nResult, timeout') = select timeout
      in (nResult, timeout', warnings @
            (case holdTimeValue of
               None \<Rightarrow> []
             | Some t \<Rightarrow>
                 if nResult = 0 \<and> (tv_sec t \<noteq> 0 \<or> tv_usec t \<noteq> 0)
                 then (if childProcess then [Child_process] else []) @ [Timed_out, Timeout_was (tv_sec t) (tv_usec t)]
                 else [])))"

text \<open>
  The hook is transparent, a poll with a standard timeout is silent unless it expires, and
  an expired one is reported with the caller's timeout, although \<open>select\<close> has overwritten it.
\<close>

lemma selectMod_transparent:
  "fst (selectMod select c t) = fst (select t)" "fst (snd (selectMod select c t)) = snd (select t)"
  by (simp_all add: selectMod_def Let_def split_def)

lemma selectMod_reports_timeout:
  assumes "s \<in> {0, 1, 10}" "select (Some \<lparr>tv_sec = s, tv_usec = 0\<rparr>) = (n, t')"
  shows "snd (snd (selectMod select c (Some \<lparr>tv_sec = s, tv_usec = 0\<rparr>))) =
    (if n = 0 \<and> s \<noteq> 0 then (if c then [Child_process] else []) @ [Timed_out, Timeout_was s 0] else [])"
  using assms by (auto simp: selectMod_def select_warnings_def)

section \<open>The first bind only\<close>

definition bound_ports :: "sys_event list \<Rightarrow> u16 list" where
  "bound_ports l = concat (map (\<lambda>e. case e of Sys_bind _ _ p \<Rightarrow> [p] | _ \<Rightarrow> []) l)"

lemma bound_ports_append [simp]: "bound_ports (l @ l') = bound_ports l @ bound_ports l'"
  by (simp add: bound_ports_def)

lemma bindMod_ports:
  assumes "bindMod s a w = Ok (r, a') w'"
  shows "bound_ports (sys_log w') = bound_ports (sys_log w) @ [sin6_port a']"
    "sin6_port a' = (case env_port w of Some p \<Rightarrow> if s_hasOverridden w then sin6_port a
        else htons (word_of_int (atoi p)) | None \<Rightarrow> sin6_port a)"
    "s_hasOverridden w' \<longleftrightarrow> s_hasOverridden w \<or> env_port w \<noteq> None" "env_port w' = env_port w"
    "sin6_addr a' = sin6_addr a"
  using assms
  by (auto simp: bindMod_def override_port_def bound_ports_def bnd_Ok_iff syscall_Ok split: option.splits if_splits)

text \<open>
  The port override applies to the first \<open>bind\<close> only: with
  \<open>CPE464_OVERRIDE_PORT\<close> set, the first call binds the port it names (modulo
  \<open>2 ^ 16\<close>, in network order), every later one the caller's; without the variable
  both bind the caller's port.
\<close>

lemma only_first_bind_is_overridden:
  assumes "\<not> s_hasOverridden w" "bindMod s1 a1 w = Ok (r1, b1) w1" "bindMod s2 a2 w1 = Ok (r2, b2) w2"
  shows "bound_ports (sys_log w2) = bound_ports (sys_log w) @
    (case env_port w of None \<Rightarrow> [sin6_port a1, sin6_port a2]
     | Some p \<Rightarrow> [htons (word_of_int (atoi p)), sin6_port a2])"
  using bindMod_ports [OF assms(2)] bindMod_ports [OF assms(3)] assms(1)
  by (auto split: option.splits)

definition idle_hooks :: "byte list option \<Rightarrow> int list \<Rightarrow> hooks" where
  "idle_hooks p sq =
     \<lparr>pset = empty_pollset,
      pmgr = \<lparr>m_ErrorRate = 0, m_MsgNo = 0, m_ErrorCase_Constant = [], m_ErrorCase_Chance = [],
              rand_seed = 0, rand_pos = 0, nextSeed = 1, env_ErrRate = False, env_ErrDrop = False,
              env_ErrFlip = False, env_SeedRand = False\<rparr>,
      poll_q = [], recv_q = [], send_ok = (\<lambda>_. True), send_no = 0, sent = [], closed = [],
      sys_q = sq, sys_log = [], addr_info = (\<lambda>_. None), fs = Map.empty,
      writable = (\<lambda>_. True), heap_fn = (\<lambda>_. None), heap_no = 0,
      drand48 = (\<lambda>_ _. 1 / 2), to_float = (\<lambda>r. r), to_double = (\<lambda>r. r), time_now = 0,
      stack_junk = (\<lambda>_. 0), static_next = 0,
      socketType = 0, s_hasOverridden = False, env_port = p\<rparr>"

lemma only_first_bind_is_overridden_example:
  "\<exists>w2. bound_ports (sys_log w2) = [htons 80, 7] \<and>
     (\<exists>w1 a b. bindMod 3 \<lparr>sin6_addr = 0, sin6_port = 5\<rparr> (idle_hooks (Some [56, 48]) [0, 0, 0, 0]) = Ok a w1
        \<and> bindMod 4 \<lparr>sin6_addr = 0, sin6_port = 7\<rparr> w1 = Ok b w2)"
proof -
  let ?w = "idle_hooks (Some [56, 48]) [0, 0, 0, 0]"
  let ?a = "\<lambda>p. \<lparr>sin6_addr = 0, sin6_port = p\<rparr> :: sockaddr"
  have n: "\<not> s_hasOverridden ?w" by (simp add: idle_hooks_def)
  obtain b1 w1 where 1: "bindMod 3 (?a 5) ?w = Ok (0, b1) w1" "sys_q w1 = [0, 0]"
    by (auto simp: bindMod_def override_port_def idle_hooks_def syscall_def)
  obtain b2 w2 where 2: "bindMod 4 (?a 7) w1 = Ok (0, b2) w2"
    using 1(2)
    by (cases "env_port w1"; cases "s_hasOverridden w1") (auto simp: bindMod_def override_port_def syscall_def)
  have "env_port ?w = Some [56, 48]" "bound_ports (sys_log ?w) = []" by (simp_all add: idle_hooks_def bound_ports_def)
  moreover have "atoi [56, 48] = 80"
    by (simp add: atoi_def isspace_def isdigit_def digits_value_def int_range_def)
  ultimately have "bound_ports (sys_log w2) = [htons 80, 7]"
    using only_first_bind_is_overridden [OF n 1(1) 2] by simp
  then show ?thesis using 1(1) 2 by blast
qed

end
