(* ===== verification/Printing.thy ===== *)
theory Printing
  imports RcopyPdu ServerPdu Window
begin

text \<open>
  What the printing functions read: the decoders behind \<open>printFilenamePDU\<close>,
  \<open>printPDU\<close>, \<open>printPacketInfo\<close> and the packet manager's
  \<open>printType\<close>. Their results are the values handed to \<open>printf\<close>; reading outside
  the buffer is a fault.
\<close>

section \<open>The programs' printing\<close>

record printed_pdu =
  p_seqNum :: u32
  p_checksum :: u16
  p_flag :: byte

definition printPDU :: "byte list \<Rightarrow> fault + printed_pdu" where
  "printPDU buffer =
     sbind (check (7 \<le> length buffer) OutOfBounds) (\<lambda>_.
       Inr \<lparr>p_seqNum = ntohl (load32 buffer 0), p_checksum = load16 buffer 4, p_flag = buffer ! 6\<rparr>)"

record printed_request = printed_pdu +
  p_filename :: "byte list"
  p_bufferSize :: u16
  p_windowSize :: u32

definition printFilenamePDU :: "byte list \<Rightarrow> fault + printed_request" where
  "printFilenamePDU buffer =
     sbind (check (113 \<le> length buffer) OutOfBounds) (\<lambda>_.
       Inr \<lparr>p_seqNum = ntohl (load32 buffer 0), p_checksum = load16 buffer 4, p_flag = buffer ! 6,
            p_filename = takeWhile (\<lambda>c. c \<noteq> 0) (take 100 (drop 7 buffer) @ [0]),
            p_bufferSize = ntohs (load16 buffer 107),
            p_windowSize = ntohl (load32 buffer 109)\<rparr>)"

text \<open>\<open>pkt\<close> is \<open>None\<close> for NULL; the struct is packed, so its fields are at 0, 4 and 6.\<close>

definition printPacketInfo :: "byte list option \<Rightarrow> fault + printed_pdu option" where
  "printPacketInfo pkt =
     (case pkt of None \<Rightarrow> Inr None
      | Some b \<Rightarrow>
          sbind (check (7 \<le> length b) OutOfBounds) (\<lambda>_.
            Inr (Some \<lparr>p_seqNum = ntohl (load32 b 0), p_checksum = ntohs (load16 b 4), p_flag = b ! 6\<rparr>)))"

section \<open>The packet manager's printing\<close>

text \<open>
  The number \<open>printType\<close> prints: the first four bytes for data packets, the four
  bytes behind the header for RR and SREJ, nothing for the other flags.
\<close>

definition printType :: "int \<Rightarrow> byte list \<Rightarrow> fault + u32 option" where
  "printType flag buf =
     (if flag \<in> {3, 4, 7, 16, 17, 18}
      then sbind (check (4 \<le> length buf) OutOfBounds) (\<lambda>_. Inr (Some (ntohl (load32 buf 0))))
      else if flag \<in> {5, 6}
      then sbind (check (11 \<le> length buf) OutOfBounds) (\<lambda>_. Inr (Some (ntohl (load32 buf 7))))
      else Inr None)"

section \<open>The windowing library's printing\<close>

text \<open>One line per slot; \<open>None\<close> is the line \<open>EMPTY\<close>.\<close>

fun slot_lines :: "(Packet \<Rightarrow> (int \<times> int \<times> int) option) \<Rightarrow> Packet option list \<Rightarrow> int \<Rightarrow> nat \<Rightarrow>
    fault + (int \<times> int \<times> int) option list" where
  "slot_lines f buf i 0 = Inr []"
| "slot_lines f buf i (Suc n) =
     sbind (slot buf i) (\<lambda>o'. sbind (slot_lines f buf (i + 1) n) (\<lambda>ls. Inr (Option.bind o' f # ls)))"

definition printReceiverBuffer :: "ReceiverBuffer \<Rightarrow> fault + (int \<times> int \<times> (int \<times> int \<times> int) option list)" where
  "printReceiverBuffer buffer =
     sbind (slot_lines (\<lambda>p. if valid p \<noteq> 0 then Some (sequence_number p, data_size p, valid p) else None)
              (rb_buffer buffer) 0 (nat (rb_window_size buffer))) (\<lambda>ls.
       Inr (expected buffer, highest buffer, ls))"

definition printSenderBuffer :: "SenderWindow \<Rightarrow> fault + ((int \<times> int \<times> int) option list \<times> int \<times> int \<times> int)" where
  "printSenderBuffer window =
     sbind (slot_lines (\<lambda>p. Some (sequence_number p, data_size p, ACK p))
              (sw_buffer window) 0 (nat (sw_window_size window))) (\<lambda>ls.
       Inr (ls, lower window, upper window, current window))"

text \<open>On well-formed structures they print one line per slot and do not fault.\<close>

lemma slot_lines_eq:
  "i + n \<le> length buf \<Longrightarrow> slot_lines f buf (int i) n = Inr (map (\<lambda>o'. Option.bind o' f) (take n (drop i buf)))"
proof (induction n arbitrary: i)
  case (Suc n)
  have "slot_lines f buf (int i + 1) n = Inr (map (\<lambda>o'. Option.bind o' f) (take n (drop (Suc i) buf)))"
    using Suc.IH [of "Suc i"] Suc.prems by (simp add: add.commute)
  moreover have "drop i buf = buf ! i # drop (Suc i) buf" using Suc.prems by (simp add: Cons_nth_drop_Suc)
  ultimately show ?case using Suc.prems by (simp add: slot_def)
qed simp

lemma printing_is_safe:
  "rb_ok b \<Longrightarrow> \<exists>ls. printReceiverBuffer b = Inr (expected b, highest b, ls) \<and> int (length ls) = rb_window_size b"
  "sw_ok w \<Longrightarrow> \<exists>ls. printSenderBuffer w = Inr (ls, lower w, upper w, current w) \<and> int (length ls) = sw_window_size w"
proof -
  show "\<exists>ls. printReceiverBuffer b = Inr (expected b, highest b, ls) \<and> int (length ls) = rb_window_size b" if "rb_ok b"
  proof -
    have "nat (rb_window_size b) = length (rb_buffer b)" using rb_okD(6) [OF that] by linarith
    then show ?thesis
      using slot_lines_eq [of 0 "length (rb_buffer b)" "rb_buffer b"] rb_okD(6) [OF that]
      by (simp add: printReceiverBuffer_def)
  qed
  show "\<exists>ls. printSenderBuffer w = Inr (ls, lower w, upper w, current w) \<and> int (length ls) = sw_window_size w" if "sw_ok w"
  proof -
    have "nat (sw_window_size w) = length (sw_buffer w)" using sw_okD(2) [OF that] by linarith
    then show ?thesis
      using slot_lines_eq [of 0 "length (sw_buffer w)" "sw_buffer w"] sw_okD(2) [OF that]
      by (simp add: printSenderBuffer_def)
  qed
qed

section \<open>Properties\<close>

text \<open>
  The printed request is the request: of a request built from parameters whose
  name is a C string of at most 100 characters, \<open>printFilenamePDU\<close> shows number 1,
  flag 8, exactly that name, the buffer size modulo \<open>2 ^ 16\<close>, and the whole
  32-bit window size.
\<close>

theorem printed_request_is_the_request:
  assumes "src_filename params = name @ 0 # pad" "0 \<notin> set name" "length (src_filename params) = 101"
  shows "printFilenamePDU (makeFilenamePDUBeforeChecksum params) =
    Inr \<lparr>p_seqNum = 1, p_checksum = 0, p_flag = 8, p_filename = name,
         p_bufferSize = word_of_int (buffer_size params), p_windowSize = word_of_int (window_size params)\<rparr>"
proof -
  let ?n = "take 100 (src_filename params)"
  let ?b = "bytes16 (htons (word_of_int (buffer_size params)))"
  let ?w = "bytes32 (htonl (word_of_int (window_size params)))"
  let ?p = "makeFilenamePDUBeforeChecksum params"
  have l: "?p = bytes32 (ntohl 1) @ [0, 0] @ [8] @ ?n @ ?b @ ?w"
    using makeFilenamePDUBeforeChecksum_layout [of params] assms(3) by simp
  have len: "length ?n = 100" using assms(3) by simp
  have nz: "takeWhile (\<lambda>c. c \<noteq> 0) (name @ r) = name @ takeWhile (\<lambda>c. c \<noteq> 0) r" for r
    by (rule takeWhile_append2) (use assms(2) in auto)
  have z: "takeWhile (\<lambda>c. c \<noteq> 0) (?n @ [0]) = name"
    using assms(1,3) by (cases "length name < 100") (auto simp: nz take_Cons')
  have "?p = (bytes32 (ntohl 1) @ [0, 0, 8] @ ?n) @ ?b @ ?w" using l by simp
  moreover have "length (bytes32 (ntohl 1) @ [0, 0, 8] @ ?n) = 107" using len by simp
  ultimately have b: "load16 ?p 107 = htons (word_of_int (buffer_size params))"
    by (metis load16_skip load16_bytes16)
  have "?p = (bytes32 (ntohl 1) @ [0, 0, 8] @ ?n @ ?b) @ ?w @ []" using l by simp
  moreover have "length (bytes32 (ntohl 1) @ [0, 0, 8] @ ?n @ ?b) = 109" using len by simp
  ultimately have w: "load32 ?p 109 = htonl (word_of_int (window_size params))"
    by (metis load32_skip load32_bytes32)
  have "?p = bytes32 (ntohl 1) @ bytes16 0 @ [8] @ ?n @ ?b @ ?w" using l by (simp add: bytes16_def [of 0])
  moreover have "length (bytes32 (ntohl 1)) = 4" by simp
  ultimately have c: "load16 ?p 4 = 0" by (metis load16_skip load16_bytes16)
  have d: "load32 ?p 0 = ntohl 1" using l by simp
  have f: "?p ! 6 = 8" "take 100 (drop 7 ?p) = ?n" "113 \<le> length ?p"
    using l len by (simp_all add: nth_append)
  have "ntohl (ntohl 1) = 1" by (simp add: ntohl_def [of 1])
  then show ?thesis by (simp add: printFilenamePDU_def b c d f w z check_def)
qed

theorem printed_request_is_the_request_witness:
  "\<exists>params r. src_filename params = [97, 98] @ 0 # replicate 98 0 \<and>
     printFilenamePDU (makeFilenamePDUBeforeChecksum params) = Inr r \<and> p_filename r = [97, 98] \<and> p_windowSize r = 70000"
proof -
  let ?p = "\<lparr>src_filename = [97, 98] @ 0 # replicate 98 0, dest_filename = [], window_size = 70000,
    buffer_size = 1000, error_rate = 0, remote_machine = [], remote_port = 1\<rparr>"
  show ?thesis
    using printed_request_is_the_request [of ?p "[97, 98]" "replicate 98 0"]
    by (intro exI [of _ ?p]) simp
qed

text \<open>
  The number of an RR is not in the part the server receives: the server's
  seven-byte buffer keeps the client's own counter \<open>l\<close>, which
  \<open>getSequenceFromBuffer\<close> takes for the acknowledged number, and reading the real
  one \<open>r\<close>, as \<open>printType\<close> does, leaves the buffer. The same holds for an SREJ.
\<close>

theorem control_number_is_cut_off:
  fixes l r
  defines "rr \<equiv> makeRR_SREJPacketAfterChecksum (makeRRPacketBeforeChecksum l r)
      (calculateRR_SREJPacketChecksum (makeRRPacketBeforeChecksum l r))"
    and "srej \<equiv> makeRR_SREJPacketAfterChecksum (makeSREJPacketBeforeChecksum l r)
      (calculateRR_SREJPacketChecksum (makeSREJPacketBeforeChecksum l r))"
  shows "rr ! 6 = 5 \<and> srej ! 6 = 6 \<and> length rr = 11 \<and> length srej = 11
    \<and> printType 5 rr = Inr (Some r) \<and> printType 6 srej = Inr (Some r)
    \<and> getSequenceFromBuffer (take 7 rr) = l \<and> getSequenceFromBuffer (take 7 srej) = l
    \<and> printType 5 (take 7 rr) = Inl OutOfBounds \<and> printType 6 (take 7 srej) = Inl OutOfBounds"
proof -
  have s: "getSequenceFromBuffer (take 7 p) = l \<and> printType f p = Inr (Some r) \<and> length p = 11 \<and> p ! 6 = g
      \<and> printType f (take 7 p) = Inl OutOfBounds"
    if "f \<in> {5, 6}" "p = memcpy_at (bytes32 (htonl l) @ [0, 0] @ [g] @ bytes32 (htonl r)) 4 (bytes16 c)" for f p g c
  proof -
    have p: "p = bytes32 (htonl l) @ bytes16 c @ [g] @ bytes32 (htonl r)"
      using that(2) by (simp add: memcpy_at_def)
    then have "p = (bytes32 (htonl l) @ bytes16 c @ [g]) @ bytes32 (htonl r) @ []" by simp
    moreover have "length (bytes32 (htonl l) @ bytes16 c @ [g]) = 7" by simp
    ultimately have "load32 p 7 = htonl r" by (metis load32_skip load32_bytes32)
    moreover have "take 7 p = bytes32 (htonl l) @ bytes16 c @ [g]" using p by simp
    ultimately show ?thesis
      using that(1) p by (auto simp: printType_def check_def getSequenceFromBuffer_def nth_append)
  qed
  show ?thesis
    using s [of 5 rr 5 "calculateRR_SREJPacketChecksum (makeRRPacketBeforeChecksum l r)"]
      s [of 6 srej 6 "calculateRR_SREJPacketChecksum (makeSREJPacketBeforeChecksum l r)"]
    by (simp add: rr_def srej_def makeRR_SREJPacketAfterChecksum_def pdu_layouts)
qed

end
