(* ===== verification/Spec2Isabelle.thy ===== *)
theory Spec2Isabelle
  imports Processes ClientRuns Settings TcpDemo Hooks Printing
begin

text \<open>
  A model of the file-transfer programs \<^verbatim>\<open>rcopy\<close> (client) and
  \<^verbatim>\<open>server\<close> with the libraries under them, and theorems about their
  runs.

  The programs. \<^verbatim>\<open>rcopy\<close> sends a file-name request, is redirected to a child
  process of the server, opens the destination file and then receives data
  packets. The server forks a child per request; the child opens the source and sends
  it through a sliding window, reading RR (acknowledge) and SREJ (resend) packets. All
  datagrams leave through the error-injecting \<^verbatim>\<open>libcpe464\<close>.

  Theories, from the bottom up, with the files under \<^verbatim>\<open>src/\<close> they model:
    \<^item> \<open>Prelude\<close>: C integers and bytes, memory copies, faults (NULL dereference,
      access outside an object, division by zero), and the result type \<open>res\<close> of code
      with effects: \<open>Ok\<close> a value and a state, or \<open>Stop\<close> because of
      \<open>exit\<close>, a fault, or a system call that never completes. \<open>post\<close> states
      what holds of a result however the run ends.
    \<^item> \<open>Floating\<close>: the values of C's \<open>float\<close> and \<open>double\<close>: rationals, the two infinities and
      NaN, with the comparisons of C, all of them false on NaN.
    \<^item> \<open>Clib\<close>: \<open>atoi\<close>, \<open>atof\<close>, \<open>strtol\<close> and \<open>strtof\<close>, with decimal and hexadecimal
      numbers, \<open>inf\<close> and \<open>nan\<close>.
    \<^item> \<open>Checksum\<close>: \<^verbatim>\<open>libcpe464/checksum.c\<close>, the bytes it reads, and its equivalence with RFC 1071.
    \<^item> \<open>Pdu\<close>, \<open>RcopyPdu\<close>, \<open>ServerPdu\<close>: the packet builders, checksums and
      parsers of \<^verbatim>\<open>rcopy.c\<close> and \<^verbatim>\<open>server.c\<close>, and the sealed request. The locale \<open>sealed_pdu\<close> is the contract of a packet
      whose checksum field is filled in; it is interpreted for every packet kind.
    \<^item> \<open>PacketRing\<close>, \<open>Window\<close>: \<^verbatim>\<open>window.c\<close>. The locale
      \<open>packet_ring\<close> is the contract of a circular packet array; the receiver's
      buffer and the sender's window interpret it. \<open>WindowSpec\<close>: the abstract machine
      of a window (store, release, run of consecutive packets) that both refine.
    \<^item> \<open>PollLib\<close>: \<^verbatim>\<open>pollLib.c\<close>; \<open>poll_state\<close> are the poll sets a
      program can build, with the set of sockets they stand for.
    \<^item> \<open>ErrorChannel\<close>: the events and the packet manager of
      \<^verbatim>\<open>libcpe464\<close>, the setters of \<^verbatim>\<open>SettingsManager.cpp\<close> and \<open>sendErr_init\<close>.
      \<open>Settings\<close>: the start of the library, which reads the environment.
    \<^item> \<open>World\<close>: the state of a process (poll set, packet manager, files, heap)
      together with what the operating system answers: scripts of answers for
      \<open>poll\<close>, \<open>recvfrom\<close> and the remaining calls, functions for
      \<open>malloc\<close>, \<open>sendto\<close> and the random numbers. It has \<open>sendto_Err\<close>,
      \<open>recvfrom_Mod\<close> and \<open>forkMod\<close>. The locale \<open>effect_order\<close> is the
      interface for facts about whole runs; \<open>lossless\<close> is a channel that drops nothing,
      \<open>ready\<close> the answer of \<open>poll\<close> for one readable socket.
    \<^item> \<open>Networks\<close>: \<^verbatim>\<open>networks.c\<close> and \<^verbatim>\<open>gethostbyname.c\<close>, with the
      functions that turn addresses into text.
      \<open>Hooks\<close>: the replacements of \<open>socket\<close>, \<open>bind\<close>, \<open>select\<close> and of the send
      and receive calls in \<^verbatim>\<open>libcpe464/network-hooks.c\<close>.
    \<^item> \<open>TcpDemo\<close>: \<^verbatim>\<open>safeUtil.c\<close>, the stream operations of the packet manager,
      \<^verbatim>\<open>myClient.c\<close> and \<^verbatim>\<open>myServer.c\<close>.
    \<^item> \<open>Printing\<close>: what the printing functions decode.
    \<^item> \<open>RcopyData\<close>, \<open>Rcopy\<close>: \<^verbatim>\<open>rcopy.c\<close>, the receiver and the control part.
      A client state is a \<open>world\<close> extended by the globals and statics of the program.
    \<^item> \<open>Server\<close>: \<^verbatim>\<open>server.c\<close>; one run is one process, \<open>fork\<close>
      answers decide which.
    \<^item> \<open>RcopyRuns\<close>, \<open>ServerRuns\<close>: runs of whole processes. The inductive
      relation \<open>phase_step\<close> is the client's state machine, \<open>protocol_edge\<close> the
      transitions it may take. \<open>ServerSends\<close>: what a child can send in any run.
    \<^item> \<open>Arrivals\<close>: the client's runs on datagrams that arrive one by one. \<open>Requests\<close>: the
      round of the server that serves a request. \<open>ClientRuns\<close>: runs of the client that start over, and
      runs on datagrams whose checksums are wrong. \<open>Stalling\<close>: the child after its first
      acknowledgement. \<open>Copying\<close>: the client on what a child has sent.
      \<open>SentLog\<close>: what is sent is never taken back; its locale \<open>client_runs\<close> extends the
      interface for whole runs to the state machine of the client. \<open>Conversation\<close>: the closed
      system of both programs.
    \<^item> \<open>Processes\<close>: the server with its children as one system, with the
      inductive relation \<open>family_step\<close>. The parent goes around the loop of \<open>main\<close> in two
      steps (\<open>pollCall\<close>, then \<open>serve_round\<close>, the body of the loop in \<open>Server\<close>), a round that forks adds a child with its
      whole run, and a child that ends runs \<open>handleZombies\<close> in the parent, which
      interrupts a \<open>poll\<close> that waits.

  What is shown. For each component, the behaviour of its operations on every branch
  and the invariants they keep; for the programs, facts about whole runs for
  every behaviour of the network. As the programs are unfinished, several of these
  state precisely how far they get. In \<open>Conversation\<close>, client and server each receive exactly
  what the other one sends and nothing is lost: the client copies the first chunk of the
  source and reports success, and the child of the server sends one burst and then
  packet 1 for ever; if the client is still there, that packet overflows its heap. \<open>Copying\<close>
  shows, for a network that loses, repeats and reorders, that the destination never has
  more than one payload, what that payload can be, and that it is the wrong chunk for
  one order of arrival. Further: the server's first burst has one packet too many, an acknowledgement
  that opens its window makes it crash, a child never sends anything but answers and
  chunks of the file, the end of any child interrupts the waiting server, which takes it for an
  error of \<open>poll\<close> and exits (so that serving one small file ends the server), and the client gives up on a silent server after nine requests. What the
  client does not do: it does not limit how often it starts over, and it looks at no checksum.
  The theorems of this theory relate the two programs: what a request
  makes the server do, and what a chunk of the source becomes at the client.

  Bounds and termination. No fuel is used. Every loop of the programs consumes an answer
  of the environment, bytes of the source file, or retries, and its termination proof names the
  measure. A run whose answers are used up ends with \<open>Stop Blocked\<close>. So statements about
  whole runs cover every finite behaviour of the environment, and the termination of a definition says
  nothing about a process whose environment goes on for ever: that \<open>rcopy_fsm\<close> is a total function does not mean that
  the client ends (\<open>ClientRuns\<close> shows that it can be kept going for any number of rounds). Loops of the code that
  would spin without a system call do not occur in reachable states, except the two unused
  cases of the child's state machine, which are \<open>Stop Blocked\<close> as well.

  Not modelled. The text that is printed and logged (what the printing functions read
  is in \<open>Printing\<close>, but the calls to them are left out: they change nothing,
  although \<open>printType\<close> reads four bytes behind the server's buffer of an RR or SREJ); so also
  the wording of \<open>dbg_print\<close>'s messages (its level and guard are in \<open>Settings\<close>),
  and \<^verbatim>\<open>window_test.c\<close>, whose tests are all commented out. The public headers, which hold only
  declarations and the macros that redirect calls to the hooks. Reuse of memory and of
  files: an allocation's number is never used again (the calls of \<open>free\<close> that release the two windows are the
  datatype \<open>freed\<close>, without their effect on the heap), and the number of open files is not limited. Buffering of \<open>FILE\<close>: bytes given
  to \<open>fwrite\<close> are in the file at once. The SIGCHLD handler runs in
  \<open>poll\<close> and between \<open>poll\<close> and the service of a request, not in the middle of that service, and the
  children that a child forks (when its file is missing, it goes on as a server) are not members of the family. The finite values of
  \<open>Floating\<close> are rationals; the rounding to \<open>float\<close> and \<open>double\<close> is a parameter, and negative zero is
  not told from zero. Errors of \<open>fread\<close>: a source that could be opened is read to its end. The printing between the receipt of
  a request and the fork, which reads the file name as a string.
\<close>

section \<open>Requests between the two programs\<close>

text \<open>
  C16. The request gets across: what rcopy seals passes the server's checksum test, and
  the server reads back the first 100 bytes of the file name, the buffer size modulo
  \<open>2 ^ 16\<close>, and the window size modulo \<open>2 ^ 16\<close> (although it is sent in 32 bits).
\<close>

theorem request_round_trip:
  assumes "length (src_filename params) = 101"
  shows "calculateFilenameChecksumFILENAME (sealed_request params @ [slack]) = 0
    \<and> request_filename (sealed_request params @ [slack]) = take 100 (src_filename params)
    \<and> uint (request_buffer_size (sealed_request params @ [slack])) = buffer_size params mod 65536
    \<and> uint (request_window_size (sealed_request params @ [slack])) = window_size params mod 65536"
  using request_fields [OF assms] by (simp add: unsigned_of_int take_bit_eq_mod)

theorem request_round_trip_witness:
  "\<exists>params. length (src_filename params) = 101 \<and> window_size params = 70000
    \<and> uint (request_window_size (sealed_request params @ [0])) = 4464"
proof -
  let ?p = "\<lparr>src_filename = replicate 101 97, dest_filename = [], window_size = 70000, buffer_size = 1000,
    error_rate = 0, remote_machine = [], remote_port = 1\<rparr>"
  have "length (src_filename ?p) = 101" by simp
  from request_round_trip [OF this, of 0] show ?thesis by (intro exI [of _ ?p]) simp
qed

section \<open>Requests at the server\<close>

text \<open>A server that waits on socket 1, and a request, for the instances below.\<close>

definition waiting_server :: "byte list \<Rightarrow> server_proc" where
  "waiting_server d = (idle_server Map.empty [(1, [0, 1])] [Datagram \<lparr>sin6_addr = 8, sin6_port = 9\<rparr> d] [77])
     \<lparr>pset := \<lparr>pollFileDescriptors = [\<lparr>fd = 0, events = 0, revents = 0\<rparr>, \<lparr>fd = 1, events = 1, revents = 0\<rparr>],
               maxFileDescriptor = 2, currentPollSetSize = 2\<rparr>\<rparr>"

definition sample_request :: RcopyParams where
  "sample_request = \<lparr>src_filename = replicate 101 97, dest_filename = [], window_size = 5, buffer_size = 100,
     error_rate = 0, remote_machine = [], remote_port = 1\<rparr>"

lemma sample_request_name: "length (src_filename sample_request) = 101"
  by (simp add: sample_request_def)

lemma waiting_server_facts:
  "\<exists>ps. World.pollCall (- 1) (waiting_server d) = Ok 1 ((waiting_server d)\<lparr>poll_q := [], pset := ps\<rparr>)"
  "recv_q (waiting_server d) = [Datagram \<lparr>sin6_addr = 8, sin6_port = 9\<rparr> d]"
  "sys_q (waiting_server d) = [77]" "sys_log (waiting_server d) = []"
  by (simp_all add: waiting_server_def idle_server_def World.pollCall_def on_pset_def
      PollLib.pollCall_def poll_writes_def Let_def eval_nat_numeral)

text \<open>
  C28. A request is served: when the sealed request arrives, the server forks a child for
  the client it came from, with the requested name, the buffer size and the window size
  reduced to 16 bits, and goes on waiting afterwards.
\<close>

theorem request_is_served:
  assumes "length (src_filename params) = 101" "length buffer = 114"
    and "World.pollCall (- 1) w = Ok r w1" "0 \<le> r"
    and "recv_q w1 = Datagram a (sealed_request params @ [slack]) # rq"
  shows "server_loop m sp buffer w =
    bnd (startFSM (take 100 (src_filename params)) (word_of_int (buffer_size params))
           (ucast (word_of_int (window_size params) :: u16)) m sp (w1\<lparr>recv_q := rq, client := a\<rparr>))
      (\<lambda>_ w. server_loop m sp (sealed_request params @ [slack]) w)"
  by (rule server_serves [OF assms])

theorem request_is_served_witness:
  "\<exists>w'. server_loop 1 \<lparr>error_rate = 0, port_number = 5\<rparr> (replicate 114 0)
      (waiting_server (sealed_request sample_request @ [0])) = Stop Blocked w' \<and> sys_log w' = [Sys_fork]"
proof -
  let ?w = "waiting_server (sealed_request sample_request @ [0])"
  note f = waiting_server_facts [where d = "sealed_request sample_request @ [0]"]
  obtain ps where p: "World.pollCall (- 1) ?w = Ok 1 (?w\<lparr>poll_q := [], pset := ps\<rparr>)" using f(1) by blast
  show ?thesis
    by (subst request_is_served [OF sample_request_name _ p]) (use f(2-4) in \<open>auto simp: startFSM_def forkMod_def
        syscall_def Let_def server_loop.simps serve_round_def World.pollCall_def\<close>)
qed

text \<open>
  C29. A damaged request starts nothing: when the channel has flipped one byte of the
  sealed request (any of the 113 that are checked), the server ignores the datagram; it forks no
  child and sends nothing, and waits for the next request.
\<close>

theorem damaged_request_starts_no_child:
  assumes "length (src_filename params) = 101" "length buffer = 114"
    and "World.pollCall (- 1) w = Ok r w1" "0 \<le> r" "i < 113"
    and "recv_q w1 = Datagram a ((sealed_request params)[i := sealed_request params ! i XOR 0xFF] @ [slack]) # rq"
  shows "\<exists>buffer'. length buffer' = 114 \<and>
    server_loop m sp buffer w = server_loop m sp buffer' (w1\<lparr>recv_q := rq, client := a\<rparr>)"
proof -
  let ?d = "(sealed_request params)[i := sealed_request params ! i XOR 0xFF] @ [slack]"
  have l: "length ?d = 114" using sealed_request_layout(3) [OF assms(1)] by simp
  have "take 113 ?d = (sealed_request params)[i := sealed_request params ! i XOR 0xFF]"
    using sealed_request_layout(3) [OF assms(1)] by simp
  then have "calculateFilenameChecksum ?d =
      calculateFilenameChecksum ((sealed_request params)[i := sealed_request params ! i XOR 0xFF])"
    using sealed_request_layout(3) [OF assms(1)] by (simp add: calculateFilenameChecksum_def)
  then have "calculateFilenameChecksumFILENAME ?d \<noteq> 0"
    using sealed_request_layout(4) [OF assms(1,5)] by (simp add: server_checksum_same)
  then have "server_loop m sp buffer w = server_loop m sp ?d (w1\<lparr>recv_q := rq, client := a\<rparr>)"
    using assms(3,4) recvfrom_request [OF assms(6) l assms(2)] by (subst server_loop.simps) (simp add: serve_round_def)
  then show ?thesis using l by blast
qed

theorem damaged_request_starts_no_child_witness:
  "\<exists>w'. server_loop 1 \<lparr>error_rate = 0, port_number = 5\<rparr> (replicate 114 0)
      (waiting_server ((sealed_request sample_request)[6 := sealed_request sample_request ! 6 XOR 0xFF] @ [0]))
        = Stop Blocked w' \<and> sys_log w' = []"
proof -
  let ?d = "(sealed_request sample_request)[6 := sealed_request sample_request ! 6 XOR 0xFF] @ [0]"
  let ?w = "waiting_server ?d"
  note f = waiting_server_facts [where d = ?d]
  obtain ps where p: "World.pollCall (- 1) ?w = Ok 1 (?w\<lparr>poll_q := [], pset := ps\<rparr>)" using f(1) by blast
  obtain b where "server_loop 1 \<lparr>error_rate = 0, port_number = 5\<rparr> (replicate 114 0) ?w =
      server_loop 1 \<lparr>error_rate = 0, port_number = 5\<rparr> b
        ((?w\<lparr>poll_q := [], pset := ps\<rparr>)\<lparr>recv_q := [], client := \<lparr>sin6_addr = 8, sin6_port = 9\<rparr>\<rparr>)"
    using damaged_request_starts_no_child [OF sample_request_name _ p, of "replicate 114 0" 6
        "\<lparr>sin6_addr = 8, sin6_port = 9\<rparr>" 0 "[]" 1 "\<lparr>error_rate = 0, port_number = 5\<rparr>"] f(2) by auto
  then show ?thesis using f(4) by (simp add: server_loop.simps World.pollCall_def)
qed

section \<open>Data between the two programs\<close>

text \<open>
  C17. A chunk of the source reaches the destination: the datagram that one round of the
  server's fill loop hands to the network for the next \<open>bs\<close> bytes of the source is
  the packet that a client expecting its number appends to the destination as exactly
  these bytes.
\<close>

theorem chunk_reaches_destination:
  assumes "lossless w" "plenty w" "full_window window" "0 < bs" "bs \<le> 255" "bs \<le> int (length src)"
    and "current window < upper window" "data_sequence_number w = word_of_int sq" "0 \<le> sq" "sq < 2147483647"
    and "channel_ok v" "\<And>k. send_ok v k" "expected rbuf = sq" "buffer_size p = bs"
  shows "\<exists>d window' w' rbuf' v'.
      fill_window bs window src w = fill_window bs window' (drop (nat bs) src) w'
    \<and> sent w' = sent w @ [(child_server_socket w, client w, d)]
    \<and> handleDataPacket rbuf dst IN_ORDER s p d v = Ok (rbuf', RS_DONE) v' \<and> expected rbuf' = sq + 1
    \<and> fs v' = (fs v)(dst \<mapsto> file_contents v dst @ take (nat bs) src)"
proof -
  have ne: "src \<noteq> []" using assms(4,6) by auto
  obtain d wb w' where f: "fill_window bs window src w = fill_window bs (wb\<lparr>current := sq\<rparr>) (drop (nat bs) src) w'"
      "is_data_pdu d (word_of_int sq) (take (nat bs) src)" "burst [d] w w'"
    by (rule fill_one [OF assms(1-5) ne assms(7-10)])
  have d: "length d = 7 + nat bs" "drop 7 d = take (nat bs) src" "pdu_seq d = word_of_int (expected rbuf)"
    using f(2) assms(4,6,13) by (auto simp: is_data_pdu_def pdu_seq_def getSequenceFromBuffer_def)
  obtain v' where v': "handleDataPacket rbuf dst IN_ORDER s p d v =
      Ok (rbuf\<lparr>expected := expected rbuf + 1,
               lastControlPacket := final_rr (rr_seq_num v) (word_of_int (expected rbuf + 1)),
               lastControlPacketSize := 11, hasLastControl := 1\<rparr>, RS_DONE) v'"
    "fs v' = (fs v)(dst \<mapsto> file_contents v dst @ take (nat (buffer_size p)) (drop 7 d))"
    using deliver_expected [OF assms(11,12), of rbuf d p dst s] d assms(4,9,10,13,14) by auto
  then show ?thesis
    using f(1,3) d(2) assms(13,14)
    by (intro exI [of _ d] exI [of _ "wb\<lparr>current := sq\<rparr>"] exI [of _ w'] exI [of _ v'])
      (simp add: burst_def min_def)
qed

theorem chunk_reaches_destination_witness:
  "\<exists>d rbuf rbuf' v'. expected rbuf = 0 \<and>
     handleDataPacket rbuf [98] IN_ORDER 3 (sample_request\<lparr>buffer_size := 2\<rparr>) d (idle_client [] []) = Ok (rbuf', RS_DONE) v'
     \<and> expected rbuf' = 1 \<and> fs v' [98] = Some [1, 2]"
proof -
  obtain window k where w: "initSenderWindow (\<lambda>_. Some (\<lambda>_. 0)) 0 2 = (Some window, k)" "sw_ok window"
      "upper window = 2" "current window = 0" "\<And>t. sw_slot window t \<noteq> None"
    by (rule initSenderWindow_ok [of 0 "\<lambda>_. Some (\<lambda>_. 0)" 2]) auto
  then have fw: "full_window window" "current window < upper window" by (simp_all add: full_window_def)
  let ?rb = "\<lparr>rb_buffer = [], rb_buffer_size = 2, rb_window_size = 1, expected = 0,
        highest = - 1, lastControlPacket = [], lastControlPacketSize = 0, hasLastControl = 0\<rparr>"
  obtain d rbuf' v' where "handleDataPacket ?rb [98] IN_ORDER 3 (sample_request\<lparr>buffer_size := 2\<rparr>) d (idle_client [] []) = Ok (rbuf', RS_DONE) v'"
      "expected rbuf' = 0 + 1" "fs v' = (fs (idle_client [] []))([98] \<mapsto> file_contents (idle_client [] []) [98] @ take (nat 2) [1, 2, 3])"
    using chunk_reaches_destination [OF idle_server_facts(1) [of Map.empty "[]" "[]" "[]"] idle_server_facts(2) fw(1), of 2 "[1, 2, 3]" 0
        "idle_client [] []" ?rb "sample_request\<lparr>buffer_size := 2\<rparr>" "[98]" 3] fw(2) idle_client_reliable(2) [of "[]" "[]"]
    by auto
  then show ?thesis by (intro exI [of _ d] exI [of _ ?rb] exI [of _ rbuf'] exI [of _ v']) simp
qed

end
